(* ===== verification/Prelude.thy ===== *)
theory Prelude
  imports Main "HOL-Library.Word"
begin

text \<open>
  Shared vocabulary of the development.
  A C function that may stop the process (a failed assert, an exit call, an exception that
  nothing catches, a bad pointer or array access) returns a value of \<open>'a res\<close>: \<open>Inl\<close> names the fault, \<open>Inr\<close> carries the
  normal result. \<open>andthen\<close> sequences such functions. \<open>sat F m Q\<close> says that \<open>m\<close> returns a value
  with \<open>Q\<close> or ends in a fault with \<open>F\<close>: with every fault allowed it is partial correctness
  (\<open>holds\<close>), with none total correctness (\<open>runs\<close>), and with the deliberate exit calls alone
  it is absence of crashes (\<open>safe\<close>). It commutes with sequencing and branching, so the
  equations collected in \<open>wp\<close> work as rewrite rules.
\<close>

datatype fault =
    Assert_failed
  | Null_deref
  | Out_of_bounds
  | Exited int
  | Undefined_behaviour
  | Uncaught_exception
  | Out_of_fuel

type_synonym 'a res = "fault + 'a"

definition andthen :: "'a res \<Rightarrow> ('a \<Rightarrow> 'b res) \<Rightarrow> 'b res" where
  "andthen m f = (case m of Inl e \<Rightarrow> Inl e | Inr x \<Rightarrow> f x)"

definition guarded :: "bool \<Rightarrow> fault \<Rightarrow> 'a res \<Rightarrow> 'a res" where
  "guarded b e m = (if b then m else Inl e)"

definition sat :: "(fault \<Rightarrow> bool) \<Rightarrow> 'a res \<Rightarrow> ('a \<Rightarrow> bool) \<Rightarrow> bool" where
  "sat F m Q = (case m of Inl e \<Rightarrow> F e | Inr x \<Rightarrow> Q x)"

definition is_exit :: "fault \<Rightarrow> bool" where
  "is_exit e = (case e of Exited k \<Rightarrow> True | _ \<Rightarrow> False)"

abbreviation holds :: "'a res \<Rightarrow> ('a \<Rightarrow> bool) \<Rightarrow> bool" where
  "holds \<equiv> sat (\<lambda>_. True)"

abbreviation runs :: "'a res \<Rightarrow> ('a \<Rightarrow> bool) \<Rightarrow> bool" where
  "runs \<equiv> sat (\<lambda>_. False)"

abbreviation safe :: "'a res \<Rightarrow> ('a \<Rightarrow> bool) \<Rightarrow> bool" where
  "safe \<equiv> sat is_exit"

text \<open>C arrays are lists; a position outside the list is a fault.\<close>

definition arr_get :: "'a list \<Rightarrow> int \<Rightarrow> 'a res" where
  "arr_get xs i = (if 0 \<le> i \<and> i < int (length xs) then Inr (xs ! nat i) else Inl Out_of_bounds)"

definition arr_set :: "'a list \<Rightarrow> int \<Rightarrow> 'a \<Rightarrow> 'a list res" where
  "arr_set xs i v = (if 0 \<le> i \<and> i < int (length xs) then Inr (xs[nat i := v]) else Inl Out_of_bounds)"

text \<open>\<open>memcpy\<close> into an array and the elements a pointer-and-length argument refers to.\<close>

definition arr_blit :: "'a list \<Rightarrow> int \<Rightarrow> 'a list \<Rightarrow> 'a list res" where
  "arr_blit xs i vs =
     (if 0 \<le> i \<and> i + int (length vs) \<le> int (length xs)
      then Inr (take (nat i) xs @ vs @ drop (nat i + length vs) xs) else Inl Out_of_bounds)"

definition arr_slice :: "'a list \<Rightarrow> int \<Rightarrow> int \<Rightarrow> 'a list res" where
  "arr_slice xs i n =
     (if 0 \<le> i \<and> i + max n 0 \<le> int (length xs)
      then Inr (take (nat n) (drop (nat i) xs)) else Inl Out_of_bounds)"

text \<open>C's remainder truncates towards zero; the conversions between \<open>int\<close> and \<open>unsigned int\<close>.\<close>

definition c_rem :: "int \<Rightarrow> int \<Rightarrow> int" where
  "c_rem a b = (if a < 0 then - ((- a) mod \<bar>b\<bar>) else a mod \<bar>b\<bar>)"

definition c_div :: "int \<Rightarrow> int \<Rightarrow> int" where
  "c_div a b = sgn a * sgn b * (\<bar>a\<bar> div \<bar>b\<bar>)"

definition u32 :: "int \<Rightarrow> int" where
  "u32 x = x mod 2 ^ 32"

definition s32 :: "int \<Rightarrow> int" where
  "s32 x = (let y = x mod 2 ^ 32 in if y < 2 ^ 31 then y else y - 2 ^ 32)"

text \<open>A loop over a list whose body may fault and threads a state.\<close>

fun foldres :: "('a \<Rightarrow> 's \<Rightarrow> 's res) \<Rightarrow> 'a list \<Rightarrow> 's \<Rightarrow> 's res" where
  "foldres f [] s = Inr s"
| "foldres f (x # xs) s = andthen (f x s) (foldres f xs)"

named_theorems wp \<open>how holds and runs distribute over program text\<close>

lemma andthen_simps [simp]:
  "andthen (Inl e) f = Inl e"
  "andthen (Inr x) f = f x"
  by (simp_all add: andthen_def)

lemma andthen_cong [fundef_cong]:
  "m = m' \<Longrightarrow> (\<And>x. m' = Inr x \<Longrightarrow> f x = g x) \<Longrightarrow> andthen m f = andthen m' g"
  by (cases m') auto

lemma andthen_Inr_iff: "andthen m f = Inr y \<longleftrightarrow> (\<exists>x. m = Inr x \<and> f x = Inr y)"
  by (cases m) auto

lemma andthen_assoc: "andthen (andthen m f) g = andthen m (\<lambda>x. andthen (f x) g)"
  by (cases m) auto

lemma sat_simps [simp]:
  "sat F (Inl e) Q = F e"
  "sat F (Inr x) Q = Q x"
  by (simp_all add: sat_def)

lemma is_exit_simps [simp]:
  "is_exit (Exited k)" "\<not> is_exit Assert_failed" "\<not> is_exit Uncaught_exception" "\<not> is_exit Null_deref" "\<not> is_exit Out_of_bounds"
  "\<not> is_exit Undefined_behaviour" "\<not> is_exit Out_of_fuel"
  by (simp_all add: is_exit_def)

lemma sat_andthen [wp]: "sat F (andthen m f) Q = sat F m (\<lambda>x. sat F (f x) Q)"
  by (cases m) auto

lemma sat_if [wp]: "sat F (if b then m else n) Q = (if b then sat F m Q else sat F n Q)"
  by simp

lemma sat_guarded [wp]: "sat F (guarded b e m) Q = (if b then sat F m Q else F e)"
  by (simp add: guarded_def)

lemma sat_option [wp]:
  "sat F (case x of None \<Rightarrow> m | Some y \<Rightarrow> f y) Q =
     (case x of None \<Rightarrow> sat F m Q | Some y \<Rightarrow> sat F (f y) Q)"
  by (cases x) simp_all

lemma sat_prod [wp]: "sat F (case p of (a, b) \<Rightarrow> f a b) Q = (case p of (a, b) \<Rightarrow> sat F (f a b) Q)"
  by (cases p) simp

lemma sat_let [wp]: "sat F (let x = a in f x) Q = (let x = a in sat F (f x) Q)"
  by (simp add: Let_def)

lemma sat_mono: "sat F m P \<Longrightarrow> (\<And>x. m = Inr x \<Longrightarrow> P x \<Longrightarrow> Q x) \<Longrightarrow> sat F m Q"
  by (cases m) auto

lemma sat_weaken: "sat F m Q \<Longrightarrow> (\<And>e. m = Inl e \<Longrightarrow> F e \<Longrightarrow> G e) \<Longrightarrow> sat G m Q"
  by (cases m) auto

lemma sat_holds: "sat F m Q \<Longrightarrow> holds m Q"
  by (cases m) auto

lemma runs_sat: "runs m Q \<Longrightarrow> sat F m Q"
  by (cases m) auto

lemma runs_iff: "runs m Q \<longleftrightarrow> (\<exists>x. m = Inr x \<and> Q x)"
  by (cases m) auto

lemma holds_iff: "holds m Q \<longleftrightarrow> (\<forall>x. m = Inr x \<longrightarrow> Q x)"
  by (cases m) auto

lemma sat_conj: "sat F m (\<lambda>x. P x \<and> Q x) \<longleftrightarrow> sat F m P \<and> sat F m Q"
  by (cases m) auto

lemma sat_conj_holds: "sat F m P \<Longrightarrow> holds m Q \<Longrightarrow> sat F m (\<lambda>x. P x \<and> Q x)"
  by (cases m) auto

lemma arr_get_ok [simp]: "0 \<le> i \<Longrightarrow> i < int (length xs) \<Longrightarrow> arr_get xs i = Inr (xs ! nat i)"
  by (simp add: arr_get_def)

lemma arr_set_ok [simp]: "0 \<le> i \<Longrightarrow> i < int (length xs) \<Longrightarrow> arr_set xs i v = Inr (xs[nat i := v])"
  by (simp add: arr_set_def)

lemma arr_get_Inr: "arr_get xs i = Inr v \<longleftrightarrow> 0 \<le> i \<and> i < int (length xs) \<and> v = xs ! nat i"
  by (auto simp: arr_get_def)

lemma arr_blit_ok [simp]:
  "0 \<le> i \<Longrightarrow> i + int (length vs) \<le> int (length xs) \<Longrightarrow>
     arr_blit xs i vs = Inr (take (nat i) xs @ vs @ drop (nat i + length vs) xs)"
  by (simp add: arr_blit_def)

lemma arr_slice_ok [simp]:
  "0 \<le> i \<Longrightarrow> 0 \<le> n \<Longrightarrow> i + n \<le> int (length xs) \<Longrightarrow>
     arr_slice xs i n = Inr (take (nat n) (drop (nat i) xs))"
  by (simp add: arr_slice_def)

lemma c_rem_pos [simp]: "0 \<le> a \<Longrightarrow> 0 < b \<Longrightarrow> c_rem a b = a mod b"
  by (simp add: c_rem_def)

lemma u32_id [simp]: "0 \<le> x \<Longrightarrow> x < 2 ^ 32 \<Longrightarrow> u32 x = x"
  by (simp add: u32_def)

lemma s32_id [simp]: "0 \<le> x \<Longrightarrow> x < 2 ^ 31 \<Longrightarrow> s32 x = x"
  by (simp add: s32_def Let_def)

lemma sat_foldres:
  assumes "\<And>x s. x \<in> set xs \<Longrightarrow> I s \<Longrightarrow> sat F (f x s) I" and "I s"
  shows "sat F (foldres f xs s) I"
  using assms
proof (induction xs arbitrary: s)
  case Nil
  then show ?case by simp
next
  case (Cons x xs)
  from Cons.prems have "sat F (f x s) I" by simp
  then show ?case
    unfolding foldres.simps sat_andthen
    by (rule sat_mono) (use Cons in auto)
qed

lemma foldres_append: "foldres f (xs @ ys) s = andthen (foldres f xs s) (foldres f ys)"
proof (induction xs arbitrary: s)
  case Nil
  then show ?case by simp
next
  case (Cons x xs)
  then have "foldres f (xs @ ys) = (\<lambda>s. andthen (foldres f xs s) (foldres f ys))"
    by blast
  then show ?case by (simp add: andthen_assoc)
qed

end
