(* ===== verification/RaftTypes.thy ===== *)
theory RaftTypes
  imports Prelude
begin

text \<open>
  The data of the Raft library's public header, raft/include/raft.h: server states, log entry
  types, log entries and the four protocol messages. Pointers held in an entry (\<open>pkt\<close> and
  \<open>data.buf\<close>) are natural numbers with 0 for the null pointer. An \<open>unsigned int\<close> field is an
  \<open>int\<close> that the code below writes through \<open>u32\<close>. A pair of an array pointer and a length is a
  list. The two debugging callbacks (\<open>log\<close> and \<open>log_election\<close>) have no effect on the state and
  are left out.
\<close>

datatype raft_state_e =
    RAFT_STATE_NONE
  | RAFT_STATE_FOLLOWER
  | RAFT_STATE_CANDIDATE
  | RAFT_STATE_LEADER

datatype raft_logtype_e =
    RAFT_LOGTYPE_NORMAL
  | RAFT_LOGTYPE_ADD_NONVOTING_NODE
  | RAFT_LOGTYPE_ADD_NODE
  | RAFT_LOGTYPE_REMOVE_NODE
  | RAFT_LOGTYPE_NUM

definition RAFT_ERR_NOT_LEADER :: int where
  "RAFT_ERR_NOT_LEADER = -2"

definition RAFT_ERR_ONE_VOTING_CHANGE_ONLY :: int where
  "RAFT_ERR_ONE_VOTING_CHANGE_ONLY = -3"

definition RAFT_ERR_SHUTDOWN :: int where
  "RAFT_ERR_SHUTDOWN = -4"

record raft_entry =
  e_term :: int
  e_id :: int
  e_pkt :: nat
  e_type :: raft_logtype_e
  e_buf :: nat
  e_len :: int

text \<open>The entry whose bytes are all zero, as \<open>calloc\<close> leaves it.\<close>

definition zero_entry :: raft_entry where
  "zero_entry = \<lparr>e_term = 0, e_id = 0, e_pkt = 0, e_type = RAFT_LOGTYPE_NORMAL, e_buf = 0, e_len = 0\<rparr>"

record msg_entry_response =
  er_id :: int
  er_term :: int
  er_idx :: int

record msg_requestvote =
  rv_term :: int
  rv_candidate_id :: int
  rv_last_log_idx :: int
  rv_last_log_term :: int

record msg_requestvote_response =
  rvr_term :: int
  rvr_vote_granted :: int

record msg_appendentries =
  ae_term :: int
  ae_prev_log_idx :: int
  ae_prev_log_term :: int
  ae_leader_commit :: int
  ae_entries :: "raft_entry list"

record msg_appendentries_response =
  aer_term :: int
  aer_success :: int
  aer_current_idx :: int
  aer_first_idx :: int

definition ae_n_entries :: "msg_appendentries \<Rightarrow> int" where
  "ae_n_entries ae = int (length (ae_entries ae))"

definition raft_entry_is_voting_cfg_change :: "raft_entry \<Rightarrow> bool" where
  "raft_entry_is_voting_cfg_change ety \<longleftrightarrow>
     e_type ety = RAFT_LOGTYPE_ADD_NONVOTING_NODE \<or> e_type ety = RAFT_LOGTYPE_REMOVE_NODE"

definition raft_entry_is_cfg_change :: "raft_entry \<Rightarrow> bool" where
  "raft_entry_is_cfg_change ety \<longleftrightarrow>
     e_type ety = RAFT_LOGTYPE_ADD_NODE \<or>
     e_type ety = RAFT_LOGTYPE_ADD_NONVOTING_NODE \<or>
     e_type ety = RAFT_LOGTYPE_REMOVE_NODE"

end
