(* ===== verification/RaftNode.thy ===== *)
theory RaftNode
  imports RaftTypes
begin

unbundle bit_operations_syntax

text \<open>
  Peers of a Raft server: raft/src/raft_node.c. The flag word is a 32-bit word. The macros of
  the source are unparenthesised, \<open>#define RAFT_NODE_VOTING 1 << 1\<close>, so that the complement in
  \<open>raft_node_set_voting\<close> reads \<open>(~1) << 1\<close>; \<open>not_voting_mask\<close> keeps that reading.
\<close>

record raft_node =
  node_udata :: int
  next_idx :: int
  match_idx :: int
  node_timeout_elapsed :: int
  flags :: "32 word"
  node_id :: int

definition RAFT_NODE_VOTED_FOR_ME :: "32 word" where
  "RAFT_NODE_VOTED_FOR_ME = 1"

definition RAFT_NODE_VOTING :: "32 word" where
  "RAFT_NODE_VOTING = push_bit 1 1"

definition RAFT_NODE_HAS_SUFFICIENT_LOG :: "32 word" where
  "RAFT_NODE_HAS_SUFFICIENT_LOG = push_bit 2 1"

definition not_voting_mask :: "32 word" where
  "not_voting_mask = push_bit 1 (NOT 1)"

definition raft_node_new :: "int \<Rightarrow> int \<Rightarrow> raft_node" where
  "raft_node_new ud i =
     \<lparr>node_udata = ud, next_idx = 1, match_idx = 0, node_timeout_elapsed = 0,
      flags = RAFT_NODE_VOTING, node_id = i\<rparr>"

definition raft_node_get_next_idx :: "raft_node \<Rightarrow> int" where
  "raft_node_get_next_idx n = next_idx n"

definition raft_node_set_next_idx :: "raft_node \<Rightarrow> int \<Rightarrow> raft_node" where
  "raft_node_set_next_idx n nextIdx = n\<lparr>next_idx := (if nextIdx < 1 then 1 else nextIdx)\<rparr>"

definition raft_node_get_elapsed :: "raft_node \<Rightarrow> int" where
  "raft_node_get_elapsed n = node_timeout_elapsed n"

definition raft_node_set_elapsed :: "raft_node \<Rightarrow> int \<Rightarrow> raft_node" where
  "raft_node_set_elapsed n elapsed = n\<lparr>node_timeout_elapsed := elapsed\<rparr>"

definition raft_node_get_match_idx :: "raft_node \<Rightarrow> int" where
  "raft_node_get_match_idx n = match_idx n"

definition raft_node_set_match_idx :: "raft_node \<Rightarrow> int \<Rightarrow> raft_node" where
  "raft_node_set_match_idx n matchIdx = n\<lparr>match_idx := matchIdx\<rparr>"

definition raft_node_get_udata :: "raft_node \<Rightarrow> int" where
  "raft_node_get_udata n = node_udata n"

definition raft_node_set_udata :: "raft_node \<Rightarrow> int \<Rightarrow> raft_node" where
  "raft_node_set_udata n ud = n\<lparr>node_udata := ud\<rparr>"

definition raft_node_vote_for_me :: "raft_node \<Rightarrow> bool \<Rightarrow> raft_node" where
  "raft_node_vote_for_me n vote =
     (if vote then n\<lparr>flags := flags n OR RAFT_NODE_VOTED_FOR_ME\<rparr>
      else n\<lparr>flags := flags n AND NOT RAFT_NODE_VOTED_FOR_ME\<rparr>)"

definition raft_node_has_vote_for_me :: "raft_node \<Rightarrow> bool" where
  "raft_node_has_vote_for_me n \<longleftrightarrow> flags n AND RAFT_NODE_VOTED_FOR_ME \<noteq> 0"

definition raft_node_set_voting :: "raft_node \<Rightarrow> bool \<Rightarrow> raft_node" where
  "raft_node_set_voting n voting =
     (if voting then n\<lparr>flags := flags n OR RAFT_NODE_VOTING\<rparr>
      else n\<lparr>flags := flags n AND not_voting_mask\<rparr>)"

definition raft_node_is_voting :: "raft_node \<Rightarrow> bool" where
  "raft_node_is_voting n \<longleftrightarrow> flags n AND RAFT_NODE_VOTING \<noteq> 0"

definition raft_node_set_has_sufficient_logs :: "raft_node \<Rightarrow> raft_node" where
  "raft_node_set_has_sufficient_logs n = n\<lparr>flags := flags n OR RAFT_NODE_HAS_SUFFICIENT_LOG\<rparr>"

definition raft_node_has_sufficient_logs :: "raft_node \<Rightarrow> bool" where
  "raft_node_has_sufficient_logs n \<longleftrightarrow> flags n AND RAFT_NODE_HAS_SUFFICIENT_LOG \<noteq> 0"

definition raft_node_get_id :: "raft_node \<Rightarrow> int" where
  "raft_node_get_id n = node_id n"

lemmas node_access_defs =
  raft_node_get_next_idx_def raft_node_set_next_idx_def raft_node_get_elapsed_def
  raft_node_set_elapsed_def raft_node_get_match_idx_def raft_node_set_match_idx_def
  raft_node_get_udata_def raft_node_set_udata_def raft_node_get_id_def

lemma and_bit_0: "(w AND 1 \<noteq> (0 :: 32 word)) \<longleftrightarrow> bit w 0"
  by (simp add: and_one_eq bit_0 odd_iff_mod_2_eq_one)

lemma and_push_bit_neq_0:
  assumes "n < 32"
  shows "(w AND push_bit n 1 \<noteq> (0 :: 32 word)) \<longleftrightarrow> bit w n"
proof
  assume "w AND push_bit n 1 \<noteq> 0"
  then obtain k where "bit (w AND push_bit n (1 :: 32 word)) k"
    by (auto simp: bit_eq_iff)
  then show "bit w n"
    by (auto simp: bit_simps)
next
  assume "bit w n"
  with assms have "bit (w AND push_bit n (1 :: 32 word)) n"
    by (simp add: bit_simps)
  then show "w AND push_bit n 1 \<noteq> 0"
    by (metis bit_0_eq bot_apply bot_bool_def)
qed

text \<open>Each flag is one bit of the word.\<close>

lemma has_vote_bit: "raft_node_has_vote_for_me n \<longleftrightarrow> bit (flags n) 0"
  by (simp add: raft_node_has_vote_for_me_def RAFT_NODE_VOTED_FOR_ME_def and_bit_0)

lemma is_voting_bit: "raft_node_is_voting n \<longleftrightarrow> bit (flags n) 1"
  using and_push_bit_neq_0 [of 1] by (simp add: raft_node_is_voting_def RAFT_NODE_VOTING_def)

lemma has_sufficient_bit: "raft_node_has_sufficient_logs n \<longleftrightarrow> bit (flags n) 2"
  using and_push_bit_neq_0 [of 2]
  by (simp add: raft_node_has_sufficient_logs_def RAFT_NODE_HAS_SUFFICIENT_LOG_def)

lemmas node_flag_bits = has_vote_bit is_voting_bit has_sufficient_bit

lemmas node_flag_defs =
  raft_node_vote_for_me_def raft_node_set_voting_def raft_node_set_has_sufficient_logs_def
  RAFT_NODE_VOTED_FOR_ME_def RAFT_NODE_VOTING_def RAFT_NODE_HAS_SUFFICIENT_LOG_def
  not_voting_mask_def

lemma vote_for_me_flags [simp]:
  "raft_node_has_vote_for_me (raft_node_vote_for_me n v) = v"
  "raft_node_is_voting (raft_node_vote_for_me n v) = raft_node_is_voting n"
  "raft_node_has_sufficient_logs (raft_node_vote_for_me n v) = raft_node_has_sufficient_logs n"
  by (simp_all add: node_flag_bits node_flag_defs bit_simps)

lemma set_voting_flags [simp]:
  "raft_node_is_voting (raft_node_set_voting n v) = v"
  "raft_node_has_sufficient_logs (raft_node_set_voting n v) = raft_node_has_sufficient_logs n"
  "raft_node_has_vote_for_me (raft_node_set_voting n v) \<longleftrightarrow> v \<and> raft_node_has_vote_for_me n"
  by (simp_all add: node_flag_bits node_flag_defs bit_simps)

lemma set_sufficient_flags [simp]:
  "raft_node_has_sufficient_logs (raft_node_set_has_sufficient_logs n)"
  "raft_node_is_voting (raft_node_set_has_sufficient_logs n) = raft_node_is_voting n"
  "raft_node_has_vote_for_me (raft_node_set_has_sufficient_logs n) = raft_node_has_vote_for_me n"
  by (simp_all add: node_flag_bits node_flag_defs bit_simps)

lemma raft_node_new_flags [simp]:
  "raft_node_is_voting (raft_node_new ud i)"
  "\<not> raft_node_has_vote_for_me (raft_node_new ud i)"
  "\<not> raft_node_has_sufficient_logs (raft_node_new ud i)"
  by (simp_all add: node_flag_bits node_flag_defs raft_node_new_def bit_simps)

lemma node_flags_frame [simp]:
  "raft_node_is_voting (n\<lparr>next_idx := a\<rparr>) = raft_node_is_voting n"
  "raft_node_is_voting (n\<lparr>match_idx := a\<rparr>) = raft_node_is_voting n"
  "raft_node_is_voting (n\<lparr>node_timeout_elapsed := a\<rparr>) = raft_node_is_voting n"
  "raft_node_has_vote_for_me (n\<lparr>next_idx := a\<rparr>) = raft_node_has_vote_for_me n"
  "raft_node_has_vote_for_me (n\<lparr>match_idx := a\<rparr>) = raft_node_has_vote_for_me n"
  "raft_node_has_vote_for_me (n\<lparr>node_timeout_elapsed := a\<rparr>) = raft_node_has_vote_for_me n"
  by (simp_all add: node_flag_bits)

lemma node_id_frame [simp]:
  "node_id (raft_node_vote_for_me n v) = node_id n"
  "node_id (raft_node_set_voting n v) = node_id n"
  "node_id (raft_node_set_has_sufficient_logs n) = node_id n"
  "node_id (raft_node_new ud i) = i"
  by (simp_all add: node_flag_defs raft_node_new_def)

end
