(* ===== verification/RaftState.thy ===== *)
theory RaftState
  imports RaftNode
begin

text \<open>
  The state of one Raft server and its callback table. \<open>log_private\<close> is the circular entry
  buffer of raft/src/raft_log.c, \<open>raft_server\<close> the structure of raft/include/raft_private.h,
  \<open>raft_cbs\<close> the callback table of raft/include/raft.h.

  Peers are heap objects that the server refers to from three places (the peer array, its own
  peer and the current leader) and compares by address, so they live in an explicit store
  \<open>node_heap\<close> with addresses below \<open>heap_next\<close>; a null pointer is \<open>None\<close> and the access to an
  address that is not in the store is a fault. \<open>num_nodes\<close> is the length of the peer array.

  A callback receives the server, as in C. The callbacks that send, persist, poll or pop only
  ever write the user data, and their type says so: they return a return code and new user
  data. \<open>applylog\<close>, \<open>log_offer\<close>, \<open>log_offer_batch\<close> and \<open>node_has_sufficient_logs\<close> call back into
  the library and return a whole server. The offer callbacks also rewrite the entries they are
  given, which is part of their result.
\<close>

record log_private =
  l_size :: int
  l_count :: int
  l_front :: int
  l_back :: int
  l_entries :: "raft_entry list"

type_synonym node_ptr = nat

record 'u raft_server =
  current_term :: int
  voted_for :: int
  rlog :: log_private
  commit_idx :: int
  last_applied_idx :: int
  rstate :: raft_state_e
  timeout_elapsed :: int
  log_base :: int
  last_compacted_idx :: int
  node_heap :: "node_ptr \<Rightarrow> raft_node option"
  heap_next :: node_ptr
  nodes :: "node_ptr list"
  election_timeout :: int
  request_timeout :: int
  nack_timeout :: int
  log_target :: int
  preferred_leader :: bool
  current_leader :: "node_ptr option"
  udata :: 'u
  node :: "node_ptr option"
  voting_cfg_change_log_idx :: int
  multi_inflight :: bool

record 'u raft_cbs =
  send_requestvote :: "('u raft_server \<Rightarrow> node_ptr \<Rightarrow> msg_requestvote \<Rightarrow> (int \<times> 'u) res) option"
  send_appendentries :: "('u raft_server \<Rightarrow> node_ptr \<Rightarrow> msg_appendentries \<Rightarrow> (int \<times> 'u) res) option"
  applylog :: "('u raft_server \<Rightarrow> raft_entry \<Rightarrow> int \<Rightarrow> (int \<times> 'u raft_server) res) option"
  setmatch :: "('u raft_server \<Rightarrow> int \<Rightarrow> int \<Rightarrow> (int \<times> 'u) res) option"
  persist_vote :: "('u raft_server \<Rightarrow> int \<Rightarrow> (int \<times> 'u) res) option"
  persist_term :: "('u raft_server \<Rightarrow> int \<Rightarrow> (int \<times> 'u) res) option"
  log_offer :: "('u raft_server \<Rightarrow> raft_entry \<Rightarrow> raft_entry option \<Rightarrow> int \<Rightarrow>
                  (int \<times> raft_entry \<times> 'u raft_server) res) option"
  log_offer_batch :: "('u raft_server \<Rightarrow> raft_entry list \<Rightarrow> raft_entry option \<Rightarrow> int \<Rightarrow>
                  (int \<times> raft_entry list \<times> 'u raft_server) res) option"
  log_poll_cb :: "('u raft_server \<Rightarrow> raft_entry \<Rightarrow> int \<Rightarrow> (int \<times> 'u) res) option"
  log_poll_batch_cb :: "('u raft_server \<Rightarrow> raft_entry list \<Rightarrow> int \<Rightarrow> int \<Rightarrow> (int \<times> 'u) res) option"
  log_pop :: "('u raft_server \<Rightarrow> raft_entry \<Rightarrow> int \<Rightarrow> (int \<times> 'u) res) option"
  node_has_sufficient_logs :: "('u raft_server \<Rightarrow> node_ptr \<Rightarrow> (int \<times> 'u raft_server) res) option"

text \<open>The table of a server on which \<open>raft_set_callbacks\<close> has not been called.\<close>

definition no_cbs :: "'u raft_cbs" where
  "no_cbs = \<lparr>send_requestvote = None, send_appendentries = None, applylog = None, setmatch = None,
     persist_vote = None, persist_term = None, log_offer = None, log_offer_batch = None,
     log_poll_cb = None, log_poll_batch_cb = None, log_pop = None, node_has_sufficient_logs = None\<rparr>"

definition num_nodes :: "'u raft_server \<Rightarrow> int" where
  "num_nodes s = int (length (nodes s))"

text \<open>Reading and writing through a peer pointer.\<close>

definition deref :: "'u raft_server \<Rightarrow> node_ptr \<Rightarrow> raft_node res" where
  "deref s p = (case node_heap s p of None \<Rightarrow> Inl Null_deref | Some n \<Rightarrow> Inr n)"

definition deref_opt :: "'u raft_server \<Rightarrow> node_ptr option \<Rightarrow> raft_node res" where
  "deref_opt s q = (case q of None \<Rightarrow> Inl Null_deref | Some p \<Rightarrow> deref s p)"

definition upd_node :: "'u raft_server \<Rightarrow> node_ptr \<Rightarrow> (raft_node \<Rightarrow> raft_node) \<Rightarrow> 'u raft_server res" where
  "upd_node s p f =
     (case node_heap s p of None \<Rightarrow> Inl Null_deref
      | Some n \<Rightarrow> Inr (s\<lparr>node_heap := (node_heap s)(p \<mapsto> f n)\<rparr>))"

text \<open>The part of the state that decides elections, commits and compaction, apart from the log.\<close>

definition core :: "'u raft_server \<Rightarrow> int \<times> int \<times> raft_state_e \<times> int \<times> int \<times> int \<times> int \<times> int" where
  "core s = (current_term s, voted_for s, rstate s, commit_idx s, last_applied_idx s, log_base s,
     last_compacted_idx s, log_target s)"

text \<open>\<open>s'\<close> differs from \<open>s\<close> in the log and the user data only.\<close>

definition log_frame :: "'u raft_server \<Rightarrow> 'u raft_server \<Rightarrow> bool" where
  "log_frame s s' \<longleftrightarrow> s' = s\<lparr>udata := udata s', rlog := rlog s'\<rparr>"

text \<open>Storing the user data a callback returned.\<close>

definition with_udata :: "'u raft_server \<Rightarrow> (int \<times> 'u) res \<Rightarrow> (int \<times> 'u raft_server) res" where
  "with_udata s m = andthen m (\<lambda>(e, u). Inr (e, s\<lparr>udata := u\<rparr>))"

lemma sat_deref [wp]:
  "sat F (deref s p) Q = (case node_heap s p of None \<Rightarrow> F Null_deref | Some n \<Rightarrow> Q n)"
  by (simp add: deref_def split: option.splits)

lemma sat_deref_opt [wp]:
  "sat F (deref_opt s q) Q =
     (case q of None \<Rightarrow> F Null_deref
      | Some p \<Rightarrow> (case node_heap s p of None \<Rightarrow> F Null_deref | Some n \<Rightarrow> Q n))"
  by (simp add: deref_opt_def deref_def split: option.splits)

lemma sat_upd_node [wp]:
  "sat F (upd_node s p f) Q =
     (case node_heap s p of None \<Rightarrow> F Null_deref
      | Some n \<Rightarrow> Q (s\<lparr>node_heap := (node_heap s)(p \<mapsto> f n)\<rparr>))"
  by (simp add: upd_node_def split: option.splits)

lemma sat_with_udata [wp]:
  "sat F (with_udata s m) Q = sat F m (\<lambda>(e, u). Q (e, s\<lparr>udata := u\<rparr>))"
  by (cases m) (auto simp: with_udata_def)

lemma core_frame [simp]:
  "core (s\<lparr>udata := u\<rparr>) = core s" "core (s\<lparr>rlog := l\<rparr>) = core s" "core (s\<lparr>node_heap := h\<rparr>) = core s"
  "core (s\<lparr>heap_next := k\<rparr>) = core s" "core (s\<lparr>nodes := ns\<rparr>) = core s" "core (s\<lparr>node := q\<rparr>) = core s"
  "core (s\<lparr>timeout_elapsed := i\<rparr>) = core s" "core (s\<lparr>current_leader := q\<rparr>) = core s"
  "core (s\<lparr>voting_cfg_change_log_idx := i\<rparr>) = core s" "core (s\<lparr>preferred_leader := b\<rparr>) = core s"
  "core (s\<lparr>multi_inflight := b\<rparr>) = core s"
  by (simp_all add: core_def)

lemma core_eq_iff:
  "core s' = core s \<longleftrightarrow> current_term s' = current_term s \<and> voted_for s' = voted_for s
     \<and> rstate s' = rstate s \<and> commit_idx s' = commit_idx s \<and> last_applied_idx s' = last_applied_idx s
     \<and> log_base s' = log_base s \<and> last_compacted_idx s' = last_compacted_idx s \<and> log_target s' = log_target s"
  by (auto simp: core_def)

lemma log_frame_simps [simp]:
  "log_frame s s"
  "log_frame (s\<lparr>rlog := l\<rparr>) s' = log_frame s s'"
  "log_frame (s\<lparr>udata := u\<rparr>) s' = log_frame s s'"
  "log_frame s (s'\<lparr>rlog := l\<rparr>) = log_frame s s'"
  "log_frame s (s'\<lparr>udata := u\<rparr>) = log_frame s s'"
  by (cases s; cases s'; auto simp: log_frame_def)+

lemma log_frame_eqs:
  assumes "log_frame s s'"
  shows "core s' = core s" "current_term s' = current_term s" "voted_for s' = voted_for s"
    "commit_idx s' = commit_idx s" "last_applied_idx s' = last_applied_idx s" "rstate s' = rstate s"
    "log_base s' = log_base s" "last_compacted_idx s' = last_compacted_idx s" "log_target s' = log_target s"
    "node_heap s' = node_heap s" "nodes s' = nodes s" "node s' = node s" "current_leader s' = current_leader s"
    "heap_next s' = heap_next s" "voting_cfg_change_log_idx s' = voting_cfg_change_log_idx s"
proof -
  obtain u l where "s' = s\<lparr>udata := u, rlog := l\<rparr>"
    using assms unfolding log_frame_def by blast
  then show "core s' = core s" "current_term s' = current_term s" "voted_for s' = voted_for s"
    "commit_idx s' = commit_idx s" "last_applied_idx s' = last_applied_idx s" "rstate s' = rstate s"
    "log_base s' = log_base s" "last_compacted_idx s' = last_compacted_idx s" "log_target s' = log_target s"
    "node_heap s' = node_heap s" "nodes s' = nodes s" "node s' = node s" "current_leader s' = current_leader s"
    "heap_next s' = heap_next s" "voting_cfg_change_log_idx s' = voting_cfg_change_log_idx s"
    by simp_all
qed

lemma no_cbs_simps [simp]:
  "send_requestvote no_cbs = None" "send_appendentries no_cbs = None" "applylog no_cbs = None"
  "setmatch no_cbs = None" "persist_vote no_cbs = None" "persist_term no_cbs = None"
  "log_offer no_cbs = None" "log_offer_batch no_cbs = None" "log_poll_cb no_cbs = None"
  "log_poll_batch_cb no_cbs = None" "log_pop no_cbs = None" "node_has_sufficient_logs no_cbs = None"
  by (simp_all add: no_cbs_def)

end
