(* ===== verification/RaftLog.thy ===== *)
theory RaftLog
  imports RaftState
begin

text \<open>
  The entry log of raft/src/raft_log.c: a circular buffer addressed by absolute positions
  (\<open>front\<close> the oldest entry kept, \<open>back\<close> one past the youngest) that doubles when it is full.
  The operations that call back into the owner take the whole server, because the C functions
  hold pointers into it; the others take the log alone. \<open>log_list\<close> is the abstract log: the
  entries from \<open>front\<close> to \<open>back\<close>, oldest first. The lemmas show that under \<open>log_wf\<close> every
  operation acts on \<open>log_list\<close> as an operation on lists, and the locale \<open>log_callbacks\<close> states what the
  callbacks promise to the log.
\<close>

definition INITIAL_CAPACITY :: int where
  "INITIAL_CAPACITY = 10"

definition rel_pos :: "int \<Rightarrow> int \<Rightarrow> int" where
  "rel_pos i s = c_rem i s"

text \<open>One round of growing: copy every entry to its position modulo the doubled size.\<close>

definition grow :: "log_private \<Rightarrow> log_private res" where
  "grow l =
     andthen
       (foldres
          (\<lambda>i temp. andthen (arr_get (l_entries l) (rel_pos i (l_size l)))
             (\<lambda>e. arr_set temp (rel_pos i (2 * l_size l)) e))
          [l_front l..l_back l - 1]
          (replicate (nat (l_size l * 2)) zero_entry))
       (\<lambda>temp. Inr (l\<lparr>l_size := l_size l * 2, l_entries := temp\<rparr>))"

definition ensurecapacity :: "log_private \<Rightarrow> log_private res" where
  "ensurecapacity l = (if l_count l < l_size l then Inr l else grow l)"

lemma grow_frame:
  assumes "grow l = Inr l'"
  shows "l_size l' = 2 * l_size l" "l_count l' = l_count l" "l_front l' = l_front l" "l_back l' = l_back l"
  using assms by (auto simp: grow_def andthen_Inr_iff)

text \<open>The doubling loop of the batch version; with an empty array it would never end.\<close>

function ensurecapacity_batch :: "log_private \<Rightarrow> int \<Rightarrow> log_private res" where
  "ensurecapacity_batch l cnt =
     (if l_count l + cnt \<le> l_size l then Inr l
      else if l_size l \<le> 0 then Inl Out_of_fuel
      else andthen (grow l) (\<lambda>l'. ensurecapacity_batch l' cnt))"
  by pat_completeness auto
termination
  by (relation "measure (\<lambda>(l, cnt). nat (l_count l + cnt - l_size l))") (auto simp: grow_frame)

declare ensurecapacity_batch.simps [simp del]

definition log_new :: log_private where
  "log_new = \<lparr>l_size = INITIAL_CAPACITY, l_count = 0, l_front = 0, l_back = 0,
     l_entries = replicate (nat INITIAL_CAPACITY) zero_entry\<rparr>"

definition log_clear :: "log_private \<Rightarrow> log_private" where
  "log_clear l = l\<lparr>l_count := 0, l_back := 0, l_front := 0\<rparr>"

definition log_empty :: "log_private \<Rightarrow> log_private" where
  "log_empty l = l\<lparr>l_front := 0, l_back := 0, l_count := 0\<rparr>"

definition log_count :: "log_private \<Rightarrow> int" where
  "log_count l = l_count l"

definition log_get_current_idx :: "log_private \<Rightarrow> int" where
  "log_get_current_idx l = l_back l"

text \<open>The entry before the append position, handed to the offer callbacks.\<close>

definition prev_entry :: "log_private \<Rightarrow> raft_entry option res" where
  "prev_entry l =
     (if l_back l > 0
      then andthen (arr_get (l_entries l) (rel_pos (l_back l - 1) (l_size l))) (\<lambda>e. Inr (Some e))
      else Inr None)"

definition log_append_entry ::
  "'u raft_cbs \<Rightarrow> 'u raft_server \<Rightarrow> raft_entry \<Rightarrow> (int \<times> raft_entry \<times> 'u raft_server) res" where
  "log_append_entry cb s c =
     andthen (ensurecapacity (rlog s)) (\<lambda>l0.
     let s0 = s\<lparr>rlog := l0\<rparr> in
     andthen
       (case log_offer cb of
          None \<Rightarrow> Inr (0, c, s0)
        | Some f \<Rightarrow> andthen (prev_entry l0) (\<lambda>prev. f s0 c prev (l_back l0)))
       (\<lambda>(retval, c', s1).
          let l = rlog s1 in
          andthen (arr_set (l_entries l) (rel_pos (l_back l) (l_size l)) c')
            (\<lambda>es. Inr (retval, c', s1\<lparr>rlog := l\<lparr>l_entries := es, l_count := l_count l + 1,
                                                l_back := l_back l + 1\<rparr>\<rparr>))))"

text \<open>The two-piece copy of the batch append. Its first test compares the position of the
  last new entry with that of the first one to detect a wrap around the end of the array.\<close>

definition batch_copy :: "log_private \<Rightarrow> raft_entry list \<Rightarrow> raft_entry list res" where
  "batch_copy l c =
     (let cnt = int (length c); b = rel_pos (l_back l) (l_size l) in
      if rel_pos (l_back l + cnt - 1) (l_size l) \<ge> b
      then arr_blit (l_entries l) b c
      else (let part1 = l_size l - b in
            guarded (0 \<le> part1 \<and> part1 \<le> cnt) Out_of_bounds
              (andthen (arr_blit (l_entries l) b (take (nat part1) c))
                 (\<lambda>es. arr_blit es 0 (drop (nat part1) c)))))"

definition log_append_batch ::
  "'u raft_cbs \<Rightarrow> 'u raft_server \<Rightarrow> raft_entry list \<Rightarrow> (int \<times> raft_entry list \<times> 'u raft_server) res" where
  "log_append_batch cb s c =
     andthen (ensurecapacity_batch (rlog s) (int (length c))) (\<lambda>l0.
     let s0 = s\<lparr>rlog := l0\<rparr> in
     andthen
       (case log_offer_batch cb of
          None \<Rightarrow> Inr (0, c, s0)
        | Some f \<Rightarrow> andthen (prev_entry l0) (\<lambda>prev. f s0 c prev (l_back l0)))
       (\<lambda>(retval, c', s1).
          let l = rlog s1; cnt = int (length c) in
          andthen (batch_copy l c')
            (\<lambda>es. Inr (retval, c', s1\<lparr>rlog := l\<lparr>l_entries := es, l_count := l_count l + cnt,
                                                l_back := l_back l + cnt\<rparr>\<rparr>))))"

text \<open>The returned pointer and length are the entries up to the end of the log or of the
  array, whichever comes first; the null pointer is the empty list.\<close>

definition log_get_from_idx :: "log_private \<Rightarrow> int \<Rightarrow> raft_entry list res" where
  "log_get_from_idx l idx =
     (if idx = 0 then Inr []
      else let idx = idx - 1 in
        if l_front l > idx \<or> idx \<ge> l_back l then Inr []
        else let i = rel_pos idx (l_size l);
                 back = rel_pos (l_back l) (l_size l);
                 logs_till_end_of_log = (if i < back then back - i else l_size l - i)
             in arr_slice (l_entries l) i logs_till_end_of_log)"

definition log_get_at_idx :: "log_private \<Rightarrow> int \<Rightarrow> raft_entry option res" where
  "log_get_at_idx l idx =
     (if idx = 0 then Inr None
      else let idx = idx - 1 in
        if l_front l > idx \<or> idx \<ge> l_back l then Inr None
        else andthen (arr_get (l_entries l) (rel_pos idx (l_size l))) (\<lambda>e. Inr (Some e)))"

primrec log_delete_loop :: "'u raft_cbs \<Rightarrow> nat \<Rightarrow> 'u raft_server \<Rightarrow> 'u raft_server res" where
  "log_delete_loop cb 0 s = Inr s"
| "log_delete_loop cb (Suc n) s =
     (let l = (rlog s)\<lparr>l_back := l_back (rlog s) - 1\<rparr>; s0 = s\<lparr>rlog := l\<rparr> in
      andthen
        (case log_pop cb of
           None \<Rightarrow> Inr (0, s0)
         | Some f \<Rightarrow> andthen (arr_get (l_entries l) (rel_pos (l_back l) (l_size l)))
                       (\<lambda>e. with_udata s0 (f s0 e (l_back l))))
        (\<lambda>(_, s1). log_delete_loop cb n (s1\<lparr>rlog := (rlog s1)\<lparr>l_count := l_count (rlog s1) - 1\<rparr>\<rparr>)))"

text \<open>The C loop decrements \<open>back\<close> until it equals \<open>idx - 1\<close>; started below it, it runs into
  signed overflow.\<close>

definition log_delete :: "'u raft_cbs \<Rightarrow> 'u raft_server \<Rightarrow> int \<Rightarrow> 'u raft_server res" where
  "log_delete cb s idx =
     guarded (idx - 1 \<le> l_back (rlog s)) Undefined_behaviour
       (log_delete_loop cb (nat (l_back (rlog s) - (idx - 1))) s)"

definition log_poll_batch :: "'u raft_cbs \<Rightarrow> 'u raft_server \<Rightarrow> int \<Rightarrow> 'u raft_server res" where
  "log_poll_batch cb s cnt0 =
     (let l = rlog s;
          cnt = (if cnt0 > log_count l then log_count l else cnt0);
          f0 = rel_pos (l_front l) (l_size l)
      in andthen
        (case log_poll_batch_cb cb of
           None \<Rightarrow> Inr (0, s)
         | Some f \<Rightarrow>
             if rel_pos (l_front l + cnt - 1) (l_size l) \<ge> f0
             then andthen (arr_slice (l_entries l) f0 cnt)
                    (\<lambda>es. with_udata s (f s es (l_front l) cnt))
             else (let part1 = l_size l - f0 in
                   andthen (arr_slice (l_entries l) f0 part1) (\<lambda>es1.
                   andthen (with_udata s (f s es1 (l_front l) part1)) (\<lambda>(_, s1).
                   andthen (arr_slice (l_entries l) 0 (cnt - part1)) (\<lambda>es2.
                   with_udata s1 (f s1 es2 (l_front l + part1) (cnt - part1)))))))
        (\<lambda>(_, s1). Inr (s1\<lparr>rlog := (rlog s1)\<lparr>l_front := l_front (rlog s1) + cnt,
                                              l_count := l_count (rlog s1) - cnt\<rparr>\<rparr>)))"

definition log_poll :: "'u raft_cbs \<Rightarrow> 'u raft_server \<Rightarrow> (int \<times> 'u raft_server) res" where
  "log_poll cb s =
     (let l = rlog s in
      if log_count l = 0 then Inr (0, s)
      else andthen (arr_get (l_entries l) (rel_pos (l_front l) (l_size l))) (\<lambda>elem.
        andthen
          (case log_poll_cb cb of
             None \<Rightarrow> Inr (0, s)
           | Some f \<Rightarrow> with_udata s (f s elem (l_front l)))
          (\<lambda>(e, s1). Inr (e, s1\<lparr>rlog := (rlog s1)\<lparr>l_front := l_front (rlog s1) + 1,
                                                  l_count := l_count (rlog s1) - 1\<rparr>\<rparr>))))"

definition log_peektail :: "log_private \<Rightarrow> raft_entry option res" where
  "log_peektail l =
     (if log_count l = 0 then Inr None
      else andthen (arr_get (l_entries l) (rel_pos (l_back l - 1) (l_size l))) (\<lambda>e. Inr (Some e)))"


subsection \<open>Well-formed logs and their abstraction\<close>

definition log_wf :: "log_private \<Rightarrow> bool" where
  "log_wf l \<longleftrightarrow> 0 < l_size l \<and> int (length (l_entries l)) = l_size l \<and> 0 \<le> l_front l
     \<and> l_front l \<le> l_back l \<and> l_count l = l_back l - l_front l \<and> l_count l \<le> l_size l"

definition log_at :: "log_private \<Rightarrow> int \<Rightarrow> raft_entry" where
  "log_at l i = l_entries l ! nat (i mod l_size l)"

definition log_list :: "log_private \<Rightarrow> raft_entry list" where
  "log_list l = map (log_at l) [l_front l..l_back l - 1]"

lemma mod_window_inj:
  fixes i j s :: int
  assumes "i mod s = j mod s" "\<bar>i - j\<bar> < s"
  shows "i = j"
proof -
  from assms(1) have "s dvd i - j" by (simp add: mod_eq_dvd_iff)
  then have "\<bar>s\<bar> \<le> \<bar>i - j\<bar>" if "i \<noteq> j"
    using that by (simp add: dvd_imp_le_int)
  with assms(2) show ?thesis by fastforce
qed

lemma nat_mod_less: "0 < s \<Longrightarrow> nat (i mod s) < nat s"
  by simp

lemma nat_mod_eq_iff: "0 < (s::int) \<Longrightarrow> nat (i mod s) = nat (j mod s) \<longleftrightarrow> i mod s = j mod s"
  by (auto simp: nat_eq_iff2)

lemma log_wf_pos:
  assumes "log_wf l"
  shows "0 < l_size l" "0 \<le> l_size l" "int (length (l_entries l)) = l_size l" "0 \<le> l_front l" "l_front l \<le> l_back l"
    "0 \<le> l_back l" "0 \<le> i mod l_size l" "i mod l_size l < l_size l"
    "length (l_entries l) = nat (l_size l)"
  using assms by (auto simp: log_wf_def)

lemma log_list_length [simp]: "length (log_list l) = nat (l_back l - l_front l)"
  by (simp add: log_list_def)

lemma log_list_nth:
  "k < nat (l_back l - l_front l) \<Longrightarrow> log_list l ! k = log_at l (l_front l + int k)"
  by (simp add: log_list_def)

lemma log_list_empty [simp]: "log_list l = [] \<longleftrightarrow> l_back l \<le> l_front l"
  by (auto simp: log_list_def)

lemma log_new_wf [simp]: "log_wf log_new" "log_list log_new = []"
  by (simp_all add: log_new_def INITIAL_CAPACITY_def log_wf_def)

lemma log_clear_wf: "log_wf l \<Longrightarrow> log_wf (log_clear l) \<and> log_list (log_clear l) = []"
  by (auto simp: log_clear_def log_wf_def)

lemma log_empty_wf: "log_wf l \<Longrightarrow> log_wf (log_empty l) \<and> log_list (log_empty l) = []"
  by (auto simp: log_empty_def log_wf_def)

subsection \<open>Growing\<close>

lemma grow_loop:
  assumes "log_wf l" "length temp = 2 * nat (l_size l)" "l_front l + int n \<le> l_back l"
  shows "\<exists>t. foldres
          (\<lambda>i temp. andthen (arr_get (l_entries l) (rel_pos i (l_size l)))
             (\<lambda>e. arr_set temp (rel_pos i (2 * l_size l)) e))
          [l_front l..l_front l + int n - 1] temp = Inr t
       \<and> length t = 2 * nat (l_size l)
       \<and> (\<forall>i. l_front l \<le> i \<and> i < l_front l + int n \<longrightarrow> t ! nat (i mod (2 * l_size l)) = log_at l i)"
  using assms(3)
proof (induction n)
  case 0
  then show ?case using assms by auto
next
  case (Suc n)
  let ?k = "l_front l + int n"
  from Suc obtain t where t: "foldres
          (\<lambda>i temp. andthen (arr_get (l_entries l) (rel_pos i (l_size l)))
             (\<lambda>e. arr_set temp (rel_pos i (2 * l_size l)) e))
          [l_front l..?k - 1] temp = Inr t"
    "length t = 2 * nat (l_size l)"
    "\<And>i. l_front l \<le> i \<Longrightarrow> i < ?k \<Longrightarrow> t ! nat (i mod (2 * l_size l)) = log_at l i"
    by auto
  have split: "[l_front l..l_front l + int (Suc n) - 1] = [l_front l..?k - 1] @ [?k]"
    by (simp add: upto_rec2)
  have pos: "0 < l_size l" "0 \<le> ?k" "int (length (l_entries l)) = l_size l"
    using log_wf_pos[OF assms(1)] by simp_all
  have idx: "nat (?k mod (2 * l_size l)) < length t"
    using pos t(2) by (simp add: nat_less_iff)
  have distinct: "nat (i mod (2 * l_size l)) \<noteq> nat (?k mod (2 * l_size l))"
    if "l_front l \<le> i" "i < ?k" for i
  proof
    assume "nat (i mod (2 * l_size l)) = nat (?k mod (2 * l_size l))"
    then have "i mod (2 * l_size l) = ?k mod (2 * l_size l)"
      using pos(1) nat_mod_eq_iff[of "2 * l_size l" i ?k] by linarith
    then have "i = ?k"
      by (rule mod_window_inj) (use that Suc.prems assms(1) in \<open>auto simp: log_wf_def\<close>)
    with that show False by simp
  qed
  let ?t = "t[nat (?k mod (2 * l_size l)) := log_at l ?k]"
  have "foldres
          (\<lambda>i temp. andthen (arr_get (l_entries l) (rel_pos i (l_size l)))
             (\<lambda>e. arr_set temp (rel_pos i (2 * l_size l)) e))
          [l_front l..l_front l + int (Suc n) - 1] temp = Inr ?t"
    unfolding split foldres_append t(1)
    using pos idx t(2) by (simp add: rel_pos_def log_at_def)
  moreover have "?t ! nat (i mod (2 * l_size l)) = log_at l i"
    if "l_front l \<le> i" "i < l_front l + int (Suc n)" for i
    using that distinct[of i] t(3)[of i] idx by (cases "i = ?k") auto
  ultimately show ?case using t(2) by auto
qed

lemma grow_ok:
  assumes "log_wf l"
  shows "runs (grow l) (\<lambda>l'. log_wf l' \<and> log_list l' = log_list l \<and> l_size l' = 2 * l_size l
     \<and> l_front l' = l_front l \<and> l_back l' = l_back l \<and> l_count l' = l_count l)"
proof -
  have len: "length (replicate (nat (l_size l * 2)) zero_entry) = 2 * nat (l_size l)"
    using log_wf_pos[OF assms] by (simp add: nat_mult_distrib)
  obtain t where t: "foldres
          (\<lambda>i temp. andthen (arr_get (l_entries l) (rel_pos i (l_size l)))
             (\<lambda>e. arr_set temp (rel_pos i (2 * l_size l)) e))
          [l_front l..l_back l - 1] (replicate (nat (l_size l * 2)) zero_entry) = Inr t"
    "length t = 2 * nat (l_size l)"
    "\<And>i. l_front l \<le> i \<Longrightarrow> i < l_back l \<Longrightarrow> t ! nat (i mod (2 * l_size l)) = log_at l i"
    using grow_loop[OF assms len, of "nat (l_back l - l_front l)"] log_wf_pos[OF assms] by auto
  define l' where "l' = l\<lparr>l_size := l_size l * 2, l_entries := t\<rparr>"
  have "log_wf l'"
    using assms t(2) by (auto simp: log_wf_def l'_def)
  moreover have "log_list l' = log_list l"
    using t(3) by (auto simp: log_list_def log_at_def l'_def mult.commute)
  moreover have "grow l = Inr l'"
    by (simp add: grow_def t(1) l'_def)
  ultimately show ?thesis by (simp add: l'_def)
qed

lemma ensurecapacity_ok:
  assumes "log_wf l"
  shows "runs (ensurecapacity l) (\<lambda>l'. log_wf l' \<and> log_list l' = log_list l \<and> l_count l' < l_size l'
     \<and> l_front l' = l_front l \<and> l_back l' = l_back l)"
  using assms unfolding ensurecapacity_def sat_if
  by (auto intro!: sat_mono[OF grow_ok]) (auto simp: log_wf_def)

lemma ensurecapacity_batch_ok:
  assumes "log_wf l"
  shows "runs (ensurecapacity_batch l cnt) (\<lambda>l'. log_wf l' \<and> log_list l' = log_list l
     \<and> l_count l' + cnt \<le> l_size l' \<and> l_front l' = l_front l \<and> l_back l' = l_back l)"
  using assms
proof (induction l cnt rule: ensurecapacity_batch.induct)
  case (1 l cnt)
  show ?case
  proof (cases "l_count l + cnt \<le> l_size l")
    case True
    with 1 show ?thesis by (simp add: ensurecapacity_batch.simps)
  next
    case False
    moreover obtain l' where l': "grow l = Inr l'" "log_wf l'" "log_list l' = log_list l"
      "l_front l' = l_front l" "l_back l' = l_back l"
      using grow_ok[OF 1(2)] by (auto simp: runs_iff)
    moreover have "0 < l_size l" using 1(2) by (simp add: log_wf_pos)
    ultimately show ?thesis
      using 1(1)[of l'] by (subst ensurecapacity_batch.simps) simp
  qed
qed

subsection \<open>Reading\<close>

lemma rel_pos_wf: "log_wf l \<Longrightarrow> 0 \<le> i \<Longrightarrow> rel_pos i (l_size l) = i mod l_size l"
  by (simp add: rel_pos_def log_wf_pos)

lemma log_get_wf:
  assumes "log_wf l" "0 \<le> i"
  shows "arr_get (l_entries l) (rel_pos i (l_size l)) = Inr (log_at l i)"
  using log_wf_pos[OF assms(1)] assms by (simp add: rel_pos_wf log_at_def)

text \<open>\<open>k\<close> steps from position \<open>b\<close> leave the array exactly if the position wraps below \<open>b\<close>.\<close>

lemma mod_add_cases:
  fixes b k s :: int
  assumes "0 \<le> k" "k < s"
  shows "(b + k) mod s = (if b mod s + k < s then b mod s + k else b mod s + k - s)"
proof -
  have "0 < s" using assms by simp
  then have b: "0 \<le> b mod s" "b mod s < s" by simp_all
  have eq: "(b + k) mod s = (b mod s + k) mod s" by (simp add: mod_simps)
  show ?thesis
  proof (cases "b mod s + k < s")
    case True
    with eq b assms show ?thesis by simp
  next
    case False
    have "(b mod s + k) mod s = (b mod s + k - s) mod s" by simp
    also have "\<dots> = b mod s + k - s" using False b assms by (intro mod_pos_pos_trivial) linarith+
    finally show ?thesis using False eq by simp
  qed
qed

lemma mod_diff_cases:
  fixes b p s :: int
  assumes "0 \<le> b" "b < s" "0 \<le> p" "p < s"
  shows "(p - b) mod s = (if b \<le> p then p - b else p - b + s)"
proof (cases "b \<le> p")
  case True
  with assms show ?thesis by simp
next
  case False
  have "(p - b) mod s = (p - b + s) mod s" by simp
  also have "\<dots> = p - b + s" using assms False by (intro mod_pos_pos_trivial) linarith+
  finally show ?thesis using False by simp
qed

lemma no_wrap_iff:
  fixes b n s :: int
  assumes "0 < n" "n \<le> s"
  shows "b mod s \<le> (b + n - 1) mod s \<longleftrightarrow> b mod s + n \<le> s"
proof -
  have "(b + n - 1) mod s = (b + (n - 1)) mod s" by (simp add: algebra_simps)
  with mod_add_cases[of "n - 1" s b] assms show ?thesis by auto
qed

lemma slice_wf:
  assumes "log_wf l" "0 \<le> i" "0 \<le> n" "i mod l_size l + n \<le> l_size l"
  shows "arr_slice (l_entries l) (i mod l_size l) n = Inr (map (log_at l) [i..i + n - 1])"
proof -
  note pos = log_wf_pos[OF assms(1)]
  have fit: "nat (i mod l_size l) + nat n \<le> nat (l_size l)"
    using assms pos by (simp add: nat_add_distrib [symmetric])
  have "take (nat n) (drop (nat (i mod l_size l)) (l_entries l)) = map (log_at l) [i..i + n - 1]"
  proof (rule nth_equalityI)
    show "length (take (nat n) (drop (nat (i mod l_size l)) (l_entries l))) =
        length (map (log_at l) [i..i + n - 1])"
      using assms pos fit by simp
  next
    fix k
    assume "k < length (take (nat n) (drop (nat (i mod l_size l)) (l_entries l)))"
    then have k: "int k < n" by auto
    with assms have "i mod l_size l + int k < l_size l" by simp
    moreover have "0 \<le> i mod l_size l" using pos by simp
    ultimately have "(i + int k) mod l_size l = i mod l_size l + int k"
      using mod_add_cases[of "int k" "l_size l" i] by simp
    with k show "take (nat n) (drop (nat (i mod l_size l)) (l_entries l)) ! k =
        map (log_at l) [i..i + n - 1] ! k"
      using assms pos by (simp add: log_at_def nat_add_distrib)
  qed
  with assms pos show ?thesis by simp
qed

lemma log_list_take_drop:
  assumes "l_front l \<le> i" "0 \<le> n" "i + n \<le> l_back l"
  shows "take (nat n) (drop (nat (i - l_front l)) (log_list l)) = map (log_at l) [i..i + n - 1]"
proof (rule nth_equalityI)
  have fit: "nat (i - l_front l) + nat n \<le> nat (l_back l - l_front l)"
    using assms by (simp add: nat_add_distrib [symmetric])
  then show "length (take (nat n) (drop (nat (i - l_front l)) (log_list l))) =
      length (map (log_at l) [i..i + n - 1])"
    using assms by simp
  fix k
  assume "k < length (take (nat n) (drop (nat (i - l_front l)) (log_list l)))"
  then have "int k < n" "k < nat n" by auto
  with fit assms show "take (nat n) (drop (nat (i - l_front l)) (log_list l)) ! k =
      map (log_at l) [i..i + n - 1] ! k"
    by (simp add: log_list_nth)
qed

lemma log_get_at_idx_ok:
  assumes "log_wf l"
  shows "log_get_at_idx l idx =
     Inr (if l_front l < idx \<and> idx \<le> l_back l
          then Some (log_list l ! nat (idx - 1 - l_front l)) else None)"
proof (cases "l_front l < idx \<and> idx \<le> l_back l")
  case True
  with assms log_wf_pos[OF assms] show ?thesis
    by (auto simp: log_get_at_idx_def log_get_wf log_list_nth)
next
  case False
  then show ?thesis by (auto simp: log_get_at_idx_def)
qed

lemma log_get_from_idx_outside:
  "idx \<le> l_front l \<or> l_back l < idx \<Longrightarrow> log_get_from_idx l idx = Inr []"
  by (auto simp: log_get_from_idx_def)

text \<open>A read from inside the log returns at least one entry, and the entries are the next ones
  of the abstract log: nothing stale, nothing skipped, never past its end.\<close>

lemma log_get_from_idx_ok:
  assumes "log_wf l" "l_front l < idx" "idx \<le> l_back l"
  shows "\<exists>n>0. idx - 1 + n \<le> l_back l
     \<and> log_get_from_idx l idx = Inr (map (log_at l) [idx - 1..idx - 1 + n - 1])"
proof -
  note pos = log_wf_pos[OF assms(1)]
  let ?s = "l_size l" and ?i = "(idx - 1) mod l_size l" and ?b = "l_back l mod l_size l"
  define n where "n = (if ?i < ?b then ?b - ?i else ?s - ?i)"
  define d where "d = l_back l - (idx - 1)"
  have bounds: "0 \<le> ?i" "?i < ?s" "0 \<le> ?b" "?b < ?s" using pos by simp_all
  have d: "0 < d" "d \<le> ?s" using assms by (auto simp: d_def log_wf_def)
  have dm: "d mod ?s = (?b - ?i) mod ?s" by (simp add: d_def mod_diff_eq)
  have "0 < n \<and> n \<le> d \<and> ?i + n \<le> ?s"
  proof (cases "?i < ?b")
    case True
    then have "d mod ?s = ?b - ?i" using dm bounds by (simp add: mod_diff_cases)
    moreover have "d \<noteq> ?s" using calculation True by auto
    ultimately have "d = ?b - ?i" using d by simp
    with True show ?thesis using bounds by (simp add: n_def)
  next
    case False
    have "?s - ?i \<le> d"
    proof (cases "d = ?s")
      case True
      then show ?thesis using bounds by simp
    next
      case neq: False
      with d have "d mod ?s = d" by simp
      with dm False bounds neq d show ?thesis by (auto simp: mod_diff_cases)
    qed
    with False show ?thesis using bounds by (simp add: n_def)
  qed
  moreover have "log_get_from_idx l idx = arr_slice (l_entries l) ?i n"
    using assms pos by (auto simp: log_get_from_idx_def rel_pos_wf n_def Let_def)
  ultimately show ?thesis
    using slice_wf[OF assms(1), of "idx - 1" n] assms(2) pos by (auto simp: d_def)
qed

lemma prev_entry_wf:
  "log_wf l \<Longrightarrow> prev_entry l = Inr (if 0 < l_back l then Some (log_at l (l_back l - 1)) else None)"
  by (simp add: prev_entry_def log_get_wf)

lemma log_peektail_ok:
  assumes "log_wf l"
  shows "log_peektail l = Inr (if log_list l = [] then None else Some (last (log_list l)))"
proof (cases "l_front l < l_back l")
  case True
  then have "last (log_list l) = log_at l (l_back l - 1)"
    by (simp add: log_list_def last_map upto_rec2)
  with True assms log_wf_pos[OF assms] show ?thesis
    by (auto simp: log_peektail_def log_count_def log_get_wf log_wf_def)
next
  case False
  with assms show ?thesis
    by (auto simp: log_peektail_def log_count_def log_wf_def)
qed

subsection \<open>Appending\<close>

text \<open>\<open>wrote l c es\<close>: the array \<open>es\<close> is that of \<open>l\<close> with the entries \<open>c\<close> stored in the slots that
  follow the last entry, around the end of the array if need be.\<close>

definition wrote :: "log_private \<Rightarrow> raft_entry list \<Rightarrow> raft_entry list \<Rightarrow> bool" where
  "wrote l c es \<longleftrightarrow> length es = length (l_entries l) \<and>
     (\<forall>p. 0 \<le> p \<and> p < l_size l \<longrightarrow> es ! nat p =
        (let k = (p - l_back l) mod l_size l in
         if k < int (length c) then c ! nat k else l_entries l ! nat p))"

definition appended :: "log_private \<Rightarrow> raft_entry list \<Rightarrow> raft_entry list \<Rightarrow> log_private" where
  "appended l c es = l\<lparr>l_entries := es, l_count := l_count l + int (length c),
                       l_back := l_back l + int (length c)\<rparr>"

lemma appended_ok:
  assumes "log_wf l" "l_count l + int (length c) \<le> l_size l" "wrote l c es"
  shows "log_wf (appended l c es)" "log_list (appended l c es) = log_list l @ c"
proof -
  note pos = log_wf_pos[OF assms(1)]
  show "log_wf (appended l c es)"
    using assms by (auto simp: log_wf_def appended_def wrote_def)
  show "log_list (appended l c es) = log_list l @ c"
  proof (rule nth_equalityI)
    show "length (log_list (appended l c es)) = length (log_list l @ c)"
      using pos by (simp add: appended_def)
  next
    fix k
    assume "k < length (log_list (appended l c es))"
    then have k: "int k < l_back l + int (length c) - l_front l"
      using pos by (auto simp: appended_def)
    let ?j = "l_front l + int k" and ?s = "l_size l"
    have "(?j mod ?s - l_back l) mod ?s = (?j - l_back l) mod ?s" by (simp add: mod_simps)
    then have es: "es ! nat (?j mod ?s) =
        (if (?j - l_back l) mod ?s < int (length c) then c ! nat ((?j - l_back l) mod ?s) else log_at l ?j)"
      using assms(3) pos by (simp add: wrote_def log_at_def)
    have lhs: "log_list (appended l c es) ! k = es ! nat (?j mod ?s)"
      using k by (simp add: appended_def log_list_nth log_at_def)
    show "log_list (appended l c es) ! k = (log_list l @ c) ! k"
    proof (cases "?j < l_back l")
      case True
      have "(?j - l_back l) mod ?s = (?j - l_back l + ?s) mod ?s" by simp
      also have "\<dots> = ?j - l_back l + ?s"
        using True assms k by (intro mod_pos_pos_trivial) (auto simp: log_wf_def)
      finally have "\<not> (?j - l_back l) mod ?s < int (length c)"
        using assms by (auto simp: log_wf_def)
      with True lhs es show ?thesis by (simp add: nth_append log_list_nth)
    next
      case False
      have "(?j - l_back l) mod ?s = ?j - l_back l"
        using False assms k by (intro mod_pos_pos_trivial) (auto simp: log_wf_def)
      moreover have "nat (?j - l_back l) = k - nat (l_back l - l_front l)"
        using False pos by linarith
      ultimately show ?thesis using False lhs es k by (simp add: nth_append)
    qed
  qed
qed

lemma wrote_single:
  assumes "log_wf l"
  shows "wrote l [e] ((l_entries l)[nat (l_back l mod l_size l) := e])"
proof -
  note pos = log_wf_pos[OF assms]
  have "(p - l_back l) mod l_size l < 1 \<longleftrightarrow> p = l_back l mod l_size l"
    if "0 \<le> p" "p < l_size l" for p
  proof -
    let ?b = "l_back l mod l_size l"
    have b: "0 \<le> ?b" "?b < l_size l" using pos by simp_all
    have "(p - l_back l) mod l_size l = (if ?b \<le> p then p - ?b else p - ?b + l_size l)"
      using mod_diff_cases[OF b that] by (simp add: mod_simps)
    then show ?thesis using b that by (cases "?b \<le> p"; simp only: if_True if_False; linarith)
  qed
  moreover have "(l_back l mod l_size l - l_back l) mod l_size l = 0"
    by (simp add: mod_simps)
  ultimately show ?thesis
    using pos by (auto simp: wrote_def Let_def nth_list_update nat_eq_iff)
qed

lemma blit_nth:
  assumes "b + length c \<le> length xs" "p < length xs"
  shows "(take b xs @ c @ drop (b + length c) xs) ! p =
     (if b \<le> p \<and> p < b + length c then c ! (p - b) else xs ! p)"
  using assms by (auto simp: nth_append)

lemma blit_wrap_nth:
  assumes "length xs < b + length c" "length c \<le> length xs" "b < length xs" "p < length xs"
  shows "(drop (length xs - b) c @
            drop (length c + b - length xs) (take b xs) @ take (length xs - b) c) ! p =
     (if b \<le> p then c ! (p - b)
      else if p + length xs - b < length c then c ! (p + length xs - b) else xs ! p)"
  using assms by (auto simp: nth_append add.commute)

lemma batch_copy_ok:
  assumes "log_wf l" "l_count l + int (length c) \<le> l_size l" "c \<noteq> []"
  shows "runs (batch_copy l c) (wrote l c)"
proof -
  note pos = log_wf_pos[OF assms(1)]
  let ?s = "l_size l" and ?n = "int (length c)"
  define b where "b = nat (l_back l mod l_size l)"
  have b: "l_back l mod ?s = int b" "int b < ?s" using pos by (simp_all add: b_def)
  have s: "?s = int (length (l_entries l))" using pos by simp
  have n: "0 < ?n" "?n \<le> ?s" using assms by (auto simp: log_wf_def)
  have "0 \<le> l_back l + ?n - 1" using n pos by linarith
  then have rel: "rel_pos (l_back l) ?s = int b"
    "rel_pos (l_back l + ?n - 1) ?s = (l_back l + ?n - 1) mod ?s"
    using b pos by (simp_all add: rel_pos_wf[OF assms(1)])
  note nw = no_wrap_iff[OF n, of "l_back l", unfolded b(1)]
  have k: "(p - l_back l) mod ?s = (if int b \<le> p then p - int b else p - int b + ?s)"
    if "0 \<le> p" "p < ?s" for p
  proof -
    have "(p - l_back l) mod ?s = (p - int b) mod ?s"
      unfolding b(1) [symmetric] by (simp add: mod_simps)
    then show ?thesis using mod_diff_cases[of "int b" ?s p] b that by simp
  qed
  show ?thesis
  proof (cases "int b + ?n \<le> ?s")
    case True
    then have "batch_copy l c = Inr (take b (l_entries l) @ c @ drop (b + length c) (l_entries l))"
      using n b by (simp add: batch_copy_def Let_def s rel[unfolded s] nw[unfolded s])
    then show ?thesis
      using True by (auto simp: wrote_def Let_def k[unfolded s] blit_nth s nat_diff_distrib)
  next
    case False
    then have "batch_copy l c = Inr (drop (length (l_entries l) - b) c @
        drop (length c + b - length (l_entries l)) (take b (l_entries l)) @ take (length (l_entries l) - b) c)"
      using n b by (simp add: batch_copy_def Let_def s rel[unfolded s] nw[unfolded s] guarded_def nat_diff_distrib of_nat_diff)
    then show ?thesis
      using False n b by (auto simp: wrote_def Let_def k[unfolded s] blit_wrap_nth s
          intro!: arg_cong[where f = "(!) c"])
  qed
qed

subsection \<open>Removing\<close>

lemma drop_last_ok:
  assumes "log_wf l" "l_front l < l_back l"
  shows "log_wf (l\<lparr>l_back := l_back l - 1, l_count := l_count l - 1\<rparr>)"
    "log_list (l\<lparr>l_back := l_back l - 1, l_count := l_count l - 1\<rparr>) = butlast (log_list l)"
  using assms by (auto simp: log_wf_def log_list_def log_at_def upto_rec2[of "l_front l" "l_back l - 1"])

lemma drop_front_ok:
  assumes "log_wf l" "0 \<le> n" "n \<le> l_count l"
  shows "log_wf (l\<lparr>l_front := l_front l + n, l_count := l_count l - n\<rparr>)"
    "log_list (l\<lparr>l_front := l_front l + n, l_count := l_count l - n\<rparr>) = drop (nat n) (log_list l)"
proof -
  show "log_wf (l\<lparr>l_front := l_front l + n, l_count := l_count l - n\<rparr>)"
    using assms by (auto simp: log_wf_def)
  show "log_list (l\<lparr>l_front := l_front l + n, l_count := l_count l - n\<rparr>) = drop (nat n) (log_list l)"
  proof (rule nth_equalityI)
    show "length (log_list (l\<lparr>l_front := l_front l + n, l_count := l_count l - n\<rparr>)) =
        length (drop (nat n) (log_list l))"
      using assms by (simp add: log_wf_def nat_diff_distrib' nat_add_distrib)
  next
    fix k
    assume "k < length (log_list (l\<lparr>l_front := l_front l + n, l_count := l_count l - n\<rparr>))"
    with assms show "log_list (l\<lparr>l_front := l_front l + n, l_count := l_count l - n\<rparr>) ! k =
        drop (nat n) (log_list l) ! k"
      by (simp add: log_list_nth log_at_def log_wf_def algebra_simps)
  qed
qed

text \<open>On a well-formed log the batch poll hands the callback the oldest entries, in one piece
  or in two when they wrap around the end of the array.\<close>

lemma log_poll_batch_eq:
  assumes "log_wf (rlog s)" "0 < cnt0" "l_front (rlog s) < l_back (rlog s)"
  defines "cnt \<equiv> min cnt0 (l_count (rlog s))"
    and "part1 \<equiv> l_size (rlog s) - l_front (rlog s) mod l_size (rlog s)"
    and "i \<equiv> l_front (rlog s)" and "es \<equiv> log_list (rlog s)"
  shows "log_poll_batch cb s cnt0 = andthen
     (case log_poll_batch_cb cb of None \<Rightarrow> Inr (0, s)
      | Some f \<Rightarrow> if cnt \<le> part1 then with_udata s (f s (take (nat cnt) es) i cnt)
          else andthen (with_udata s (f s (take (nat part1) es) i part1)) (\<lambda>(_, s1).
             with_udata s1 (f s1 (take (nat (cnt - part1)) (drop (nat part1) es)) (i + part1) (cnt - part1))))
     (\<lambda>(_, s1). Inr (s1\<lparr>rlog := (rlog s1)\<lparr>l_front := l_front (rlog s1) + cnt,
                                            l_count := l_count (rlog s1) - cnt\<rparr>\<rparr>))"
proof -
  note pos = log_wf_pos[OF assms(1)]
  let ?l = "rlog s" and ?s = "l_size (rlog s)"
  have cnt: "0 < cnt" "cnt \<le> ?s" "i + cnt \<le> l_back ?l"
    using assms by (auto simp: log_wf_def cnt_def)
  have clamp: "(if log_count ?l < cnt0 then log_count ?l else cnt0) = cnt"
    by (auto simp: log_count_def cnt_def)
  have "0 \<le> i + cnt - 1" using pos cnt by (simp add: i_def)
  then have rel: "rel_pos i ?s = i mod ?s" "rel_pos (i + cnt - 1) ?s = (i + cnt - 1) mod ?s"
    using pos assms(1) by (simp_all add: rel_pos_wf i_def)
  have p1: "0 < part1" "i mod ?s + part1 = ?s" using pos by (simp_all add: part1_def i_def)
  have wrap: "i mod ?s \<le> (i + cnt - 1) mod ?s \<longleftrightarrow> cnt \<le> part1"
    using no_wrap_iff[OF cnt(1,2), of i] p1(2) by linarith
  have slice1: "arr_slice (l_entries ?l) (i mod ?s) n = Inr (take (nat n) es)"
    if "0 \<le> n" "n \<le> part1" "n \<le> cnt" for n
    using slice_wf[OF assms(1), of i n] log_list_take_drop[of ?l i n] that cnt p1 pos
    by (simp add: i_def es_def)
  have slice2: "arr_slice (l_entries ?l) 0 (cnt - part1) = Inr (take (nat (cnt - part1)) (drop (nat part1) es))"
    if "part1 < cnt"
  proof -
    have "(i + part1) mod ?s = (i mod ?s + part1) mod ?s" by (simp add: mod_simps)
    then have z: "(i + part1) mod ?s = 0" using p1 by simp
    have "0 \<le> i + part1" using p1 pos by (simp add: i_def)
    with z slice_wf[OF assms(1), of "i + part1" "cnt - part1"]
      log_list_take_drop[of ?l "i + part1" "cnt - part1"] that cnt p1
    show ?thesis by (simp add: i_def es_def)
  qed
  show ?thesis
  proof (cases "log_poll_batch_cb cb")
    case None
    then show ?thesis by (simp add: log_poll_batch_def Let_def clamp)
  next
    case (Some f)
    have "cnt \<le> part1 \<Longrightarrow> arr_slice (l_entries ?l) (i mod ?s) cnt = Inr (take (nat cnt) es)"
      "part1 < cnt \<Longrightarrow> arr_slice (l_entries ?l) (i mod ?s) part1 = Inr (take (nat part1) es)"
      using slice1 cnt p1 by auto
    moreover have "?s - i mod ?s = part1" by (simp add: part1_def i_def)
    ultimately show ?thesis
      using Some slice2
      by (cases "cnt \<le> part1")
        (simp_all add: log_poll_batch_def Let_def clamp rel wrap i_def [symmetric] andthen_assoc)
  qed
qed

subsection \<open>The operations that call back\<close>

text \<open>What the log relies on: an offer callback may rewrite the entries it is given but not
  their number or terms, and it leaves the log and the core state alone. \<open>F\<close> is the set of faults the callbacks
  may end in.\<close>

locale log_callbacks =
  fixes F :: "fault \<Rightarrow> bool" and cb :: "'u raft_cbs"
  assumes offer_log: "log_offer cb = Some f \<Longrightarrow>
      sat F (f s c prev i) (\<lambda>(r, c', s'). rlog s' = rlog s \<and> core s' = core s \<and> e_term c' = e_term c)"
    and offer_batch_log: "log_offer_batch cb = Some g \<Longrightarrow>
      sat F (g s cs prev i) (\<lambda>(r, cs', s'). rlog s' = rlog s \<and> core s' = core s \<and> map e_term cs' = map e_term cs)"
    and poll_returns: "log_poll_cb cb = Some p \<Longrightarrow> sat F (p s c i) (\<lambda>_. True)"
    and poll_batch_returns: "log_poll_batch_cb cb = Some q \<Longrightarrow> sat F (q s cs i n) (\<lambda>_. True)"
    and pop_returns: "log_pop cb = Some h \<Longrightarrow> sat F (h s c i) (\<lambda>_. True)"
begin

lemma append_entry_ok:
  assumes "log_wf (rlog s)"
  shows "sat F (log_append_entry cb s c) (\<lambda>(r, c', s').
     log_wf (rlog s') \<and> log_list (rlog s') = log_list (rlog s) @ [c'] \<and> e_term c' = e_term c
     \<and> l_front (rlog s') = l_front (rlog s) \<and> l_back (rlog s') = l_back (rlog s) + 1
     \<and> core s' = core s)"
proof -
  obtain l where l: "ensurecapacity (rlog s) = Inr l" "log_wf l" "log_list l = log_list (rlog s)"
    "l_count l < l_size l" "l_front l = l_front (rlog s)" "l_back l = l_back (rlog s)"
    using ensurecapacity_ok[OF assms] by (auto simp: runs_iff)
  note pos = log_wf_pos[OF l(2)]
  let ?offer = "case log_offer cb of None \<Rightarrow> Inr (0, c, s\<lparr>rlog := l\<rparr>)
      | Some f \<Rightarrow> andthen (prev_entry l) (\<lambda>prev. f (s\<lparr>rlog := l\<rparr>) c prev (l_back l))"
  obtain p where p: "prev_entry l = Inr p"
    using prev_entry_wf[OF l(2)] by blast
  have offer: "sat F ?offer (\<lambda>(r, c', s'). rlog s' = l \<and> core s' = core s \<and> e_term c' = e_term c)"
    using offer_log[OF _, of _ "s\<lparr>rlog := l\<rparr>" c p "l_back l"] p
    by (cases "log_offer cb") simp_all
  have store: "log_wf (appended l [e] ((l_entries l)[nat (l_back l mod l_size l) := e]))"
    "log_list (appended l [e] ((l_entries l)[nat (l_back l mod l_size l) := e])) = log_list l @ [e]" for e
    using appended_ok[OF l(2) _ wrote_single[OF l(2)], of e] l(4) by simp_all
  show ?thesis
    unfolding log_append_entry_def l(1) andthen_simps Let_def sat_andthen
  proof (rule sat_mono[OF offer], goal_cases)
    case (1 x)
    then obtain r c' s1 where x: "x = (r, c', s1)" and s1: "rlog s1 = l" "core s1 = core s"
      and "e_term c' = e_term c"
      by (cases x) auto
    then show ?case
      unfolding x prod.case s1(1)
      using store[of c'] l(3,5,6) pos by (simp add: appended_def rel_pos_wf[OF l(2)])
  qed
qed

lemma append_batch_ok:
  assumes "log_wf (rlog s)" "c \<noteq> []"
  shows "sat F (log_append_batch cb s c) (\<lambda>(r, c', s').
     log_wf (rlog s') \<and> log_list (rlog s') = log_list (rlog s) @ c' \<and> map e_term c' = map e_term c
     \<and> l_front (rlog s') = l_front (rlog s) \<and> l_back (rlog s') = l_back (rlog s) + int (length c)
     \<and> core s' = core s)"
proof -
  obtain l where l: "ensurecapacity_batch (rlog s) (int (length c)) = Inr l" "log_wf l"
    "log_list l = log_list (rlog s)" "l_count l + int (length c) \<le> l_size l"
    "l_front l = l_front (rlog s)" "l_back l = l_back (rlog s)"
    using ensurecapacity_batch_ok[OF assms(1)] by (auto simp: runs_iff)
  let ?offer = "case log_offer_batch cb of None \<Rightarrow> Inr (0, c, s\<lparr>rlog := l\<rparr>)
      | Some f \<Rightarrow> andthen (prev_entry l) (\<lambda>prev. f (s\<lparr>rlog := l\<rparr>) c prev (l_back l))"
  obtain p where p: "prev_entry l = Inr p"
    using prev_entry_wf[OF l(2)] by blast
  have offer: "sat F ?offer (\<lambda>(r, c', s'). rlog s' = l \<and> core s' = core s \<and> map e_term c' = map e_term c)"
    using offer_batch_log[OF _, of _ "s\<lparr>rlog := l\<rparr>" c p "l_back l"] p
    by (cases "log_offer_batch cb") simp_all
  have copy: "sat F (batch_copy l c') (\<lambda>es. log_wf (appended l c' es) \<and>
      log_list (appended l c' es) = log_list l @ c')" if "length c' = length c" for c'
  proof -
    have "runs (batch_copy l c') (wrote l c')"
      by (rule batch_copy_ok) (use l that assms in auto)
    then show ?thesis
      by (rule runs_sat[OF sat_mono]) (use appended_ok l that in auto)
  qed
  show ?thesis
    unfolding log_append_batch_def l(1) andthen_simps Let_def sat_andthen
  proof (rule sat_mono[OF offer], goal_cases)
    case (1 x)
    then obtain r c' s1 where x: "x = (r, c', s1)" and s1: "rlog s1 = l" "core s1 = core s"
      and terms: "map e_term c' = map e_term c"
      by (cases x) auto
    from terms have len: "length c' = length c" by (rule map_eq_imp_length_eq)
    show ?case
      unfolding x prod.case s1(1) sat_andthen
      by (rule sat_mono[OF copy[OF len]]) (use len l(3,5,6) s1 terms in \<open>simp add: appended_def\<close>)
  qed
qed

text \<open>Deleting from position \<open>idx\<close> keeps exactly the entries before it.\<close>

lemma delete_loop_ok:
  assumes "log_wf (rlog s)" "int n \<le> l_back (rlog s) - l_front (rlog s)"
  shows "sat F (log_delete_loop cb n s) (\<lambda>s'. log_wf (rlog s')
     \<and> log_list (rlog s') = take (length (log_list (rlog s)) - n) (log_list (rlog s))
     \<and> l_front (rlog s') = l_front (rlog s) \<and> l_back (rlog s') = l_back (rlog s) - int n
     \<and> log_frame s s')"
  using assms
proof (induction n arbitrary: s)
  case 0
  then show ?case by simp
next
  case (Suc n)
  let ?l = "(rlog s)\<lparr>l_back := l_back (rlog s) - 1\<rparr>"
  let ?l' = "(rlog s)\<lparr>l_back := l_back (rlog s) - 1, l_count := l_count (rlog s) - 1\<rparr>"
  note pos = log_wf_pos[OF Suc.prems(1)]
  have ne: "l_front (rlog s) < l_back (rlog s)" using Suc.prems by simp
  have rest: "sat F (log_delete_loop cb n (s\<lparr>udata := u, rlog := ?l'\<rparr>)) (\<lambda>s'. log_wf (rlog s')
     \<and> log_list (rlog s') = take (length (log_list (rlog s)) - Suc n) (log_list (rlog s))
     \<and> l_front (rlog s') = l_front (rlog s) \<and> l_back (rlog s') = l_back (rlog s) - int (Suc n)
     \<and> log_frame s s')" for u
    by (rule sat_mono[OF Suc.IH])
      (use Suc.prems ne drop_last_ok[OF Suc.prems(1) ne] in
        \<open>auto simp: butlast_conv_take take_take min_def\<close>)
  have get: "arr_get (l_entries (rlog s)) (rel_pos (l_back (rlog s) - 1) (l_size (rlog s))) =
      Inr (log_at (rlog s) (l_back (rlog s) - 1))"
    using log_get_wf[OF Suc.prems(1)] ne pos by simp
  show ?case
  proof (cases "log_pop cb")
    case None
    then show ?thesis using rest[of "udata s"] by (simp add: Let_def)
  next
    case (Some h)
    then show ?thesis
      by (simp add: Let_def get sat_andthen sat_with_udata)
        (rule sat_mono[OF pop_returns[OF Some]], use rest in \<open>auto simp: split: prod.splits\<close>)
  qed
qed

lemma delete_ok:
  assumes "log_wf (rlog s)" "l_front (rlog s) < idx" "idx \<le> l_back (rlog s) + 1"
  shows "sat F (log_delete cb s idx) (\<lambda>s'. log_wf (rlog s')
     \<and> log_list (rlog s') = take (nat (idx - 1 - l_front (rlog s))) (log_list (rlog s))
     \<and> l_front (rlog s') = l_front (rlog s) \<and> l_back (rlog s') = idx - 1
     \<and> log_frame s s')"
proof -
  have "nat (l_back (rlog s) - l_front (rlog s)) - nat (l_back (rlog s) - (idx - 1)) =
      nat (idx - 1 - l_front (rlog s))"
    using assms by linarith
  moreover have "sat F (log_delete_loop cb (nat (l_back (rlog s) - (idx - 1))) s) (\<lambda>s'. log_wf (rlog s')
     \<and> log_list (rlog s') = take (length (log_list (rlog s)) - nat (l_back (rlog s) - (idx - 1))) (log_list (rlog s))
     \<and> l_front (rlog s') = l_front (rlog s)
     \<and> l_back (rlog s') = l_back (rlog s) - int (nat (l_back (rlog s) - (idx - 1)))
     \<and> log_frame s s')"
    by (rule delete_loop_ok) (use assms in auto)
  ultimately show ?thesis using assms by (simp add: log_delete_def sat_guarded)
qed

lemma poll_batch_ok:
  assumes "log_wf (rlog s)" "0 < cnt0" "l_front (rlog s) < l_back (rlog s)"
  shows "sat F (log_poll_batch cb s cnt0) (\<lambda>s'. log_wf (rlog s')
     \<and> log_list (rlog s') = drop (nat cnt0) (log_list (rlog s))
     \<and> l_front (rlog s') = l_front (rlog s) + min cnt0 (l_count (rlog s))
     \<and> l_back (rlog s') = l_back (rlog s) \<and> log_frame s s')"
proof -
  let ?n = "min cnt0 (l_count (rlog s))"
  have "0 \<le> ?n" "?n \<le> l_count (rlog s)" using assms by (auto simp: log_wf_def)
  note front = drop_front_ok[OF assms(1) this]
  have "drop (nat ?n) (log_list (rlog s)) = drop (nat cnt0) (log_list (rlog s))"
    using assms by (auto simp: log_wf_def min_def)
  with front show ?thesis
    unfolding log_poll_batch_eq[OF assms] sat_andthen
    by (auto simp: wp split: option.split intro!: sat_mono[OF poll_batch_returns])
qed

lemma poll_ok:
  assumes "log_wf (rlog s)"
  shows "sat F (log_poll cb s) (\<lambda>(e, s'). log_wf (rlog s') \<and> log_list (rlog s') = tl (log_list (rlog s))
     \<and> l_back (rlog s') = l_back (rlog s) \<and> log_frame s s')"
proof (cases "l_count (rlog s) = 0")
  case True
  with assms show ?thesis by (auto simp: log_poll_def log_count_def log_wf_def log_list_def)
next
  case False
  with assms have "0 \<le> (1::int)" "1 \<le> l_count (rlog s)" by (auto simp: log_wf_def)
  note front = drop_front_ok[OF assms this]
  have "0 \<le> l_front (rlog s)" using assms by (simp add: log_wf_def)
  with front show ?thesis
    using False log_get_wf[OF assms]
    by (auto simp: log_poll_def log_count_def Let_def wp drop_Suc split: option.split
        intro!: sat_mono[OF poll_returns])
qed

end

interpretation bare_log: log_callbacks "\<lambda>_. False" no_cbs
  by unfold_locales simp_all

end
