(* ===== verification/RaftProps.thy ===== *)
theory RaftProps
  imports RaftLog
begin

text \<open>
  The accessors of raft/src/raft_server_properties.c in the order of the file, and the pair of
  entry readers of raft/src/raft_server.c they need. A peer pointer that may be null is an
  option; a function that follows a pointer returns in \<open>res\<close>. \<open>rstate\<close> values are compared as the
  C code compares the enum.
\<close>

definition raft_set_election_timeout :: "'u raft_server \<Rightarrow> int \<Rightarrow> 'u raft_server" where
  "raft_set_election_timeout s millisec = s\<lparr>election_timeout := millisec\<rparr>"

definition raft_set_request_timeout :: "'u raft_server \<Rightarrow> int \<Rightarrow> 'u raft_server" where
  "raft_set_request_timeout s millisec = s\<lparr>request_timeout := millisec\<rparr>"

definition raft_set_nack_timeout :: "'u raft_server \<Rightarrow> int \<Rightarrow> 'u raft_server" where
  "raft_set_nack_timeout s millisec = s\<lparr>nack_timeout := millisec\<rparr>"

definition raft_set_log_target :: "'u raft_server \<Rightarrow> int \<Rightarrow> 'u raft_server" where
  "raft_set_log_target s target = s\<lparr>log_target := target\<rparr>"

definition raft_get_nodeid :: "'u raft_server \<Rightarrow> int res" where
  "raft_get_nodeid s =
     (case node s of None \<Rightarrow> Inr (- 1)
      | Some p \<Rightarrow> andthen (deref s p) (\<lambda>n. Inr (raft_node_get_id n)))"

definition raft_get_election_timeout :: "'u raft_server \<Rightarrow> int" where
  "raft_get_election_timeout s = election_timeout s"

definition raft_get_request_timeout :: "'u raft_server \<Rightarrow> int" where
  "raft_get_request_timeout s = request_timeout s"

definition raft_get_num_nodes :: "'u raft_server \<Rightarrow> int" where
  "raft_get_num_nodes s = num_nodes s"

definition raft_get_num_voting_nodes :: "'u raft_server \<Rightarrow> int res" where
  "raft_get_num_voting_nodes s =
     foldres (\<lambda>p num. andthen (deref s p) (\<lambda>n. Inr (if raft_node_is_voting n then num + 1 else num)))
       (nodes s) 0"

definition raft_get_timeout_elapsed :: "'u raft_server \<Rightarrow> int" where
  "raft_get_timeout_elapsed s = timeout_elapsed s"

definition raft_get_log_count :: "'u raft_server \<Rightarrow> int" where
  "raft_get_log_count s = log_count (rlog s)"

definition raft_get_voted_for :: "'u raft_server \<Rightarrow> int" where
  "raft_get_voted_for s = voted_for s"

definition raft_set_current_term :: "'u raft_cbs \<Rightarrow> 'u raft_server \<Rightarrow> int \<Rightarrow> 'u raft_server res" where
  "raft_set_current_term cb s term =
     (if current_term s < term then
        (let s1 = s\<lparr>current_term := term, voted_for := - 1\<rparr> in
         case persist_term cb of
           None \<Rightarrow> Inr s1
         | Some f \<Rightarrow> andthen (with_udata s1 (f s1 term)) (\<lambda>(_, s2). Inr s2))
      else Inr s)"

definition raft_get_current_term :: "'u raft_server \<Rightarrow> int" where
  "raft_get_current_term s = current_term s"

definition raft_get_current_idx :: "'u raft_server \<Rightarrow> int" where
  "raft_get_current_idx s = log_get_current_idx (rlog s)"

definition raft_set_commit_idx :: "'u raft_server \<Rightarrow> int \<Rightarrow> 'u raft_server res" where
  "raft_set_commit_idx s idx =
     guarded (commit_idx s \<le> idx) Assert_failed
       (guarded (idx \<le> raft_get_current_idx s) Assert_failed
         (Inr (s\<lparr>commit_idx := idx\<rparr>)))"

definition raft_set_last_applied_idx :: "'u raft_server \<Rightarrow> int \<Rightarrow> 'u raft_server" where
  "raft_set_last_applied_idx s idx = s\<lparr>last_applied_idx := idx\<rparr>"

definition raft_get_last_applied_idx :: "'u raft_server \<Rightarrow> int" where
  "raft_get_last_applied_idx s = last_applied_idx s"

definition raft_get_commit_idx :: "'u raft_server \<Rightarrow> int" where
  "raft_get_commit_idx s = commit_idx s"

definition raft_set_state :: "'u raft_server \<Rightarrow> raft_state_e \<Rightarrow> 'u raft_server" where
  "raft_set_state s st =
     (let s1 = (if st = RAFT_STATE_LEADER then s\<lparr>current_leader := node s\<rparr> else s) in
      s1\<lparr>rstate := st\<rparr>)"

definition raft_get_state :: "'u raft_server \<Rightarrow> raft_state_e" where
  "raft_get_state s = rstate s"

text \<open>The first peer with the given id.\<close>

primrec find_node :: "'u raft_server \<Rightarrow> int \<Rightarrow> node_ptr list \<Rightarrow> node_ptr option res" where
  "find_node s nodeid [] = Inr None"
| "find_node s nodeid (p # ps) =
     andthen (deref s p) (\<lambda>n. if nodeid = raft_node_get_id n then Inr (Some p) else find_node s nodeid ps)"

definition raft_get_node :: "'u raft_server \<Rightarrow> int \<Rightarrow> node_ptr option res" where
  "raft_get_node s nodeid = find_node s nodeid (nodes s)"

definition raft_get_my_node :: "'u raft_server \<Rightarrow> node_ptr option res" where
  "raft_get_my_node s =
     (if nodes s = [] then Inr None
      else andthen (raft_get_nodeid s) (\<lambda>nodeid. find_node s nodeid (nodes s)))"

definition raft_get_node_from_idx :: "'u raft_server \<Rightarrow> int \<Rightarrow> node_ptr res" where
  "raft_get_node_from_idx s idx = arr_get (nodes s) idx"

definition raft_get_current_leader :: "'u raft_server \<Rightarrow> int res" where
  "raft_get_current_leader s =
     (case current_leader s of None \<Rightarrow> Inr (- 1)
      | Some p \<Rightarrow> andthen (deref s p) (\<lambda>n. Inr (raft_node_get_id n)))"

definition raft_get_current_leader_node :: "'u raft_server \<Rightarrow> node_ptr option" where
  "raft_get_current_leader_node s = current_leader s"

definition raft_get_udata :: "'u raft_server \<Rightarrow> 'u" where
  "raft_get_udata s = udata s"

definition raft_is_follower :: "'u raft_server \<Rightarrow> bool" where
  "raft_is_follower s \<longleftrightarrow> raft_get_state s = RAFT_STATE_FOLLOWER"

definition raft_is_leader :: "'u raft_server \<Rightarrow> bool" where
  "raft_is_leader s \<longleftrightarrow> raft_get_state s = RAFT_STATE_LEADER"

definition raft_is_candidate :: "'u raft_server \<Rightarrow> bool" where
  "raft_is_candidate s \<longleftrightarrow> raft_get_state s = RAFT_STATE_CANDIDATE"

definition raft_get_entry_from_idx :: "'u raft_server \<Rightarrow> int \<Rightarrow> raft_entry option res" where
  "raft_get_entry_from_idx s etyidx = log_get_at_idx (rlog s) etyidx"

definition raft_get_entries_from_idx :: "'u raft_server \<Rightarrow> int \<Rightarrow> raft_entry list res" where
  "raft_get_entries_from_idx s idx = log_get_from_idx (rlog s) idx"

definition raft_get_last_log_term :: "'u raft_server \<Rightarrow> int res" where
  "raft_get_last_log_term s =
     (let current_idx = raft_get_current_idx s in
      if 0 < current_idx
      then andthen (raft_get_entry_from_idx s current_idx)
             (\<lambda>ety. case ety of None \<Rightarrow> Inr 0 | Some e \<Rightarrow> Inr (s32 (e_term e)))
      else Inr 0)"

lemmas prop_defs =
  raft_get_current_term_def raft_get_current_idx_def log_get_current_idx_def
  raft_get_last_applied_idx_def raft_get_commit_idx_def raft_get_state_def raft_is_follower_def
  raft_is_leader_def raft_is_candidate_def raft_set_last_applied_idx_def raft_get_num_nodes_def
  raft_get_voted_for_def

end
