(* ===== verification/RaftServer.thy ===== *)
theory RaftServer
  imports RaftProps
begin

text \<open>
  The Raft state machine of raft/src/raft_server.c, one definition per function. A function that
  returns an \<open>int\<close> and changes the server returns the pair; a handler that fills a response
  structure returns it as well. The callback table is the argument \<open>cb\<close>, the value of a call
  of \<open>rand()\<close> is the argument \<open>rnd\<close>. A loop over the peer array is a fold over \<open>nodes\<close>, which the
  bodies of these loops do not change. Comparing an \<open>unsigned\<close> entry term with an \<open>int\<close> converts the
  \<open>int\<close>, hence the \<open>u32\<close>; storing it in an \<open>int\<close> is \<open>s32\<close>.
\<close>

definition raft_new :: "'u \<Rightarrow> 'u raft_server" where
  "raft_new u =
     \<lparr>current_term = 0, voted_for = - 1, rlog = log_new, commit_idx = 0, last_applied_idx = 0,
      rstate = RAFT_STATE_FOLLOWER, timeout_elapsed = 0, log_base = 0, last_compacted_idx = 0,
      node_heap = Map.empty, heap_next = 0, nodes = [], election_timeout = 1000,
      request_timeout = 200, nack_timeout = 0, log_target = 10000, preferred_leader = False,
      current_leader = None, udata = u, node = None, voting_cfg_change_log_idx = - 1,
      multi_inflight = False\<rparr>"

definition raft_set_multi_inflight :: "'u raft_server \<Rightarrow> 'u raft_server" where
  "raft_set_multi_inflight s = s\<lparr>multi_inflight := True\<rparr>"

definition raft_unset_multi_inflight :: "'u raft_server \<Rightarrow> 'u raft_server" where
  "raft_unset_multi_inflight s = s\<lparr>multi_inflight := False\<rparr>"

definition raft_clear :: "'u raft_server \<Rightarrow> 'u raft_server" where
  "raft_clear s =
     (raft_set_state (s\<lparr>current_term := 0, voted_for := - 1, timeout_elapsed := 0,
        voting_cfg_change_log_idx := - 1\<rparr>) RAFT_STATE_FOLLOWER)
     \<lparr>current_leader := None, commit_idx := 0, log_base := 0, last_applied_idx := 0, nodes := [],
      node := None, preferred_leader := False, rlog := log_clear (rlog s)\<rparr>"

definition raft_set_preferred_leader :: "'u raft_server \<Rightarrow> 'u raft_server" where
  "raft_set_preferred_leader s = s\<lparr>preferred_leader := True\<rparr>"

definition raft_unset_preferred_leader :: "'u raft_server \<Rightarrow> 'u raft_server" where
  "raft_unset_preferred_leader s = s\<lparr>preferred_leader := False\<rparr>"

definition raft_vote_for_nodeid :: "'u raft_cbs \<Rightarrow> 'u raft_server \<Rightarrow> int \<Rightarrow> 'u raft_server res" where
  "raft_vote_for_nodeid cb s nodeid =
     (let s1 = s\<lparr>voted_for := nodeid\<rparr> in
      case persist_vote cb of
        None \<Rightarrow> Inr s1
      | Some f \<Rightarrow> andthen (with_udata s1 (f s1 nodeid)) (\<lambda>(_, s2). Inr s2))"

definition raft_vote :: "'u raft_cbs \<Rightarrow> 'u raft_server \<Rightarrow> node_ptr option \<Rightarrow> 'u raft_server res" where
  "raft_vote cb s q =
     (case q of None \<Rightarrow> raft_vote_for_nodeid cb s (- 1)
      | Some p \<Rightarrow> andthen (deref s p) (\<lambda>n. raft_vote_for_nodeid cb s (raft_node_get_id n)))"

definition raft_send_requestvote :: "'u raft_cbs \<Rightarrow> 'u raft_server \<Rightarrow> node_ptr \<Rightarrow> 'u raft_server res" where
  "raft_send_requestvote cb s p =
     guarded (Some p \<noteq> node s) Assert_failed
       (andthen (raft_get_last_log_term s) (\<lambda>last_term.
        andthen (raft_get_nodeid s) (\<lambda>nodeid.
        let rv = \<lparr>rv_term = current_term s, rv_candidate_id = nodeid,
                  rv_last_log_idx = raft_get_current_idx s, rv_last_log_term = last_term\<rparr> in
        case send_requestvote cb of
          None \<Rightarrow> Inr s
        | Some f \<Rightarrow> andthen (with_udata s (f s p rv)) (\<lambda>(_, s1). Inr s1))))"

text \<open>The message built for a peer whose next index is \<open>nxt\<close>.\<close>

definition make_appendentries :: "'u raft_server \<Rightarrow> int \<Rightarrow> msg_appendentries res" where
  "make_appendentries s nxt =
     andthen (raft_get_entries_from_idx s nxt) (\<lambda>entries.
       let ae = \<lparr>ae_term = current_term s, ae_prev_log_idx = 0, ae_prev_log_term = 0,
                 ae_leader_commit = raft_get_commit_idx s, ae_entries = entries\<rparr> in
       if 1 < nxt then
         andthen (raft_get_entry_from_idx s (nxt - 1)) (\<lambda>prev_ety.
           Inr (ae\<lparr>ae_prev_log_term := (case prev_ety of None \<Rightarrow> - 1 | Some e \<Rightarrow> s32 (e_term e)),
                   ae_prev_log_idx := nxt - 1\<rparr>))
       else Inr ae)"

definition raft_send_appendentries ::
  "'u raft_cbs \<Rightarrow> 'u raft_server \<Rightarrow> node_ptr \<Rightarrow> (int \<times> 'u raft_server) res" where
  "raft_send_appendentries cb s p =
     guarded (Some p \<noteq> node s) Assert_failed
       (case send_appendentries cb of
          None \<Rightarrow> Inr (0, s)
        | Some f \<Rightarrow>
            andthen (deref s p) (\<lambda>n.
            andthen (make_appendentries s (raft_node_get_next_idx n)) (\<lambda>ae.
            andthen (with_udata s (f s p ae)) (\<lambda>(sent, s1).
            andthen
              (if multi_inflight s1 then
                 andthen (upd_node s1 p (\<lambda>n. raft_node_set_next_idx n (raft_node_get_next_idx n + sent)))
                   (\<lambda>s2. if sent = 0 then upd_node s2 p (\<lambda>n. raft_node_set_elapsed n 0) else Inr s2)
               else upd_node s1 p (\<lambda>n. raft_node_set_elapsed n 0))
              (\<lambda>s3. Inr (sent, s3))))))"

definition raft_send_appendentries_all :: "'u raft_cbs \<Rightarrow> 'u raft_server \<Rightarrow> 'u raft_server res" where
  "raft_send_appendentries_all cb s =
     foldres (\<lambda>p s. if node s \<noteq> Some p
                    then andthen (raft_send_appendentries cb s p) (\<lambda>(_, s1). Inr s1) else Inr s)
       (nodes s) (s\<lparr>timeout_elapsed := 0\<rparr>)"

definition raft_become_leader :: "'u raft_cbs \<Rightarrow> 'u raft_server \<Rightarrow> 'u raft_server res" where
  "raft_become_leader cb s =
     foldres
       (\<lambda>p s. if node s = Some p then Inr s
              else andthen (deref s p) (\<lambda>n.
                if \<not> raft_node_is_voting n then Inr s
                else andthen (upd_node s p (\<lambda>n. raft_node_set_next_idx n (raft_get_current_idx s + 1)))
                  (\<lambda>s1. andthen (upd_node s1 p (\<lambda>n. raft_node_set_match_idx n 0))
                  (\<lambda>s2. andthen (raft_send_appendentries cb s2 p) (\<lambda>(_, s3). Inr s3)))))
       (nodes s) (raft_set_state s RAFT_STATE_LEADER)"

definition raft_become_candidate :: "'u raft_cbs \<Rightarrow> int \<Rightarrow> 'u raft_server \<Rightarrow> 'u raft_server res" where
  "raft_become_candidate cb rnd s =
     andthen (raft_set_current_term cb s (raft_get_current_term s + 1)) (\<lambda>s1.
     andthen (foldres (\<lambda>p s. upd_node s p (\<lambda>n. raft_node_vote_for_me n False)) (nodes s1) s1) (\<lambda>s2.
     andthen (raft_vote cb s2 (node s2)) (\<lambda>s3.
     let s4 = raft_set_state (s3\<lparr>current_leader := None\<rparr>) RAFT_STATE_CANDIDATE in
     guarded (election_timeout s4 \<noteq> 0) Undefined_behaviour
       (foldres
          (\<lambda>p s. if node s = Some p then Inr s
                 else andthen (deref s p) (\<lambda>n.
                   if raft_node_is_voting n then raft_send_requestvote cb s p else Inr s))
          (nodes s4) (s4\<lparr>timeout_elapsed := c_rem rnd (election_timeout s4)\<rparr>)))))"

definition raft_election_start :: "'u raft_cbs \<Rightarrow> int \<Rightarrow> 'u raft_server \<Rightarrow> 'u raft_server res" where
  "raft_election_start cb rnd s = raft_become_candidate cb rnd s"

definition raft_become_follower :: "'u raft_server \<Rightarrow> 'u raft_server" where
  "raft_become_follower s = raft_set_state s RAFT_STATE_FOLLOWER"

definition compact_log :: "'u raft_cbs \<Rightarrow> 'u raft_server \<Rightarrow> 'u raft_server res" where
  "compact_log cb s =
     (let target = log_base s in
      if target \<le> last_compacted_idx s + 2 * log_target s then Inr s
      else let target = last_compacted_idx s + log_target s in
        andthen (log_poll_batch cb s (target - last_compacted_idx s))
          (\<lambda>s1. Inr (s1\<lparr>last_compacted_idx := target\<rparr>)))"

definition raft_checkpoint :: "'u raft_server \<Rightarrow> int \<Rightarrow> 'u raft_server" where
  "raft_checkpoint s log_index =
     (let log_index = log_index + 1 in
      if log_index > last_applied_idx s then s\<lparr>log_base := last_applied_idx s\<rparr>
      else s\<lparr>log_base := log_index\<rparr>)"

definition raft_append_entry ::
  "'u raft_cbs \<Rightarrow> 'u raft_server \<Rightarrow> raft_entry \<Rightarrow> (int \<times> raft_entry \<times> 'u raft_server) res" where
  "raft_append_entry cb s ety = log_append_entry cb s ety"

definition raft_append_entry_batch ::
  "'u raft_cbs \<Rightarrow> 'u raft_server \<Rightarrow> raft_entry list \<Rightarrow> (int \<times> raft_entry list \<times> 'u raft_server) res" where
  "raft_append_entry_batch cb s etys = log_append_batch cb s etys"

definition raft_apply_entry :: "'u raft_cbs \<Rightarrow> 'u raft_server \<Rightarrow> (int \<times> 'u raft_server) res" where
  "raft_apply_entry cb s =
     (if last_applied_idx s = commit_idx s then Inr (- 1, s)
      else let log_idx = last_applied_idx s + 1 in
        andthen (raft_get_entry_from_idx s log_idx) (\<lambda>ety.
          case ety of None \<Rightarrow> Inr (- 1, s)
          | Some ety \<Rightarrow>
              let s1 = s\<lparr>last_applied_idx := last_applied_idx s + 1\<rparr> in
              andthen
                (case applylog cb of None \<Rightarrow> Inr (0, s1) | Some f \<Rightarrow> f s1 ety (log_idx - 1))
                (\<lambda>(e, s2).
                   if applylog cb \<noteq> None \<and> RAFT_ERR_SHUTDOWN = e then Inr (RAFT_ERR_SHUTDOWN, s2)
                   else if log_idx = voting_cfg_change_log_idx s2
                   then Inr (0, s2\<lparr>voting_cfg_change_log_idx := - 1\<rparr>)
                   else Inr (0, s2))))"

text \<open>The apply loop of \<open>raft_periodic\<close> and \<open>raft_recv_appendentries_response\<close>. Each round that
  does not stop the loop raises \<open>last_applied_idx\<close>, so the distance to the commit index bounds the
  number of rounds; the flag says whether the loop was left because an entry was missing.\<close>

primrec apply_loop :: "'u raft_cbs \<Rightarrow> nat \<Rightarrow> 'u raft_server \<Rightarrow> (bool \<times> 'u raft_server) res" where
  "apply_loop cb 0 s = (if last_applied_idx s < commit_idx s then Inl Out_of_fuel else Inr (False, s))"
| "apply_loop cb (Suc n) s =
     (if last_applied_idx s < commit_idx s then
        andthen (raft_apply_entry cb s) (\<lambda>(e, s1).
          if e = - 1 then Inr (True, s1) else apply_loop cb n s1)
      else Inr (False, s))"

definition apply_pending :: "'u raft_cbs \<Rightarrow> 'u raft_server \<Rightarrow> (bool \<times> 'u raft_server) res" where
  "apply_pending cb s = apply_loop cb (nat (commit_idx s - last_applied_idx s)) s"

text \<open>The loop of \<open>raft_apply_all\<close> stops for \<open>RAFT_ERR_SHUTDOWN\<close> only: when the next entry is not in
  the log it never ends.\<close>

primrec apply_all_loop :: "'u raft_cbs \<Rightarrow> nat \<Rightarrow> 'u raft_server \<Rightarrow> (int \<times> 'u raft_server) res" where
  "apply_all_loop cb 0 s = (if last_applied_idx s < commit_idx s then Inl Out_of_fuel else Inr (0, s))"
| "apply_all_loop cb (Suc n) s =
     (if raft_get_last_applied_idx s < raft_get_commit_idx s then
        andthen (raft_apply_entry cb s) (\<lambda>(e, s1).
          if RAFT_ERR_SHUTDOWN = e then Inr (RAFT_ERR_SHUTDOWN, s1) else apply_all_loop cb n s1)
      else Inr (0, s))"

definition raft_apply_all :: "'u raft_cbs \<Rightarrow> 'u raft_server \<Rightarrow> (int \<times> 'u raft_server) res" where
  "raft_apply_all cb s = apply_all_loop cb (nat (commit_idx s - last_applied_idx s)) s"

definition raft_periodic :: "'u raft_cbs \<Rightarrow> int \<Rightarrow> 'u raft_server \<Rightarrow> int \<Rightarrow> (int \<times> 'u raft_server) res" where
  "raft_periodic cb rnd s msec =
     (let s0 = s\<lparr>timeout_elapsed := timeout_elapsed s + msec\<rparr> in
      andthen (raft_get_num_voting_nodes s0) (\<lambda>voting.
      andthen
        (if 1 = voting then
           andthen (raft_get_my_node s0) (\<lambda>q.
           andthen (deref_opt s0 q) (\<lambda>n.
             if raft_node_is_voting n \<and> \<not> raft_is_leader s0 then raft_become_leader cb s0 else Inr s0))
         else Inr s0)
      (\<lambda>s1.
      andthen
        (if rstate s1 = RAFT_STATE_LEADER then
           foldres
             (\<lambda>p s. if node s = Some p then Inr s
                    else andthen (upd_node s p (\<lambda>n. raft_node_set_elapsed n (raft_node_get_elapsed n + msec)))
                      (\<lambda>s. andthen (deref s p) (\<lambda>n.
                        if raft_node_get_elapsed n \<ge> request_timeout s
                        then andthen (raft_send_appendentries cb s p) (\<lambda>(_, s). Inr s)
                        else if raft_node_get_next_idx n \<le> raft_get_current_idx s
                        then andthen (raft_send_appendentries cb s p) (\<lambda>(_, s). Inr s)
                        else Inr s)))
             (nodes s1) (s1\<lparr>timeout_elapsed := 0\<rparr>)
         else if election_timeout s1 \<le> timeout_elapsed s1 then
           andthen (deref_opt s1 (node s1)) (\<lambda>n.
             if raft_node_is_voting n \<and> 1 < num_nodes s1 then raft_election_start cb rnd s1 else Inr s1)
         else Inr s1)
      (\<lambda>s2.
      andthen (apply_pending cb s2) (\<lambda>(stopped, s3).
        if stopped then Inr (- 1, s3)
        else andthen (compact_log cb s3) (\<lambda>s4. Inr (0, s4)))))))"

definition raft_msg_entry_response_committed :: "'u raft_server \<Rightarrow> msg_entry_response \<Rightarrow> int res" where
  "raft_msg_entry_response_committed s r =
     andthen (raft_get_entry_from_idx s (er_idx r)) (\<lambda>ety.
       case ety of None \<Rightarrow> Inr 0
       | Some e \<Rightarrow> if u32 (er_term r) \<noteq> e_term e then Inr (- 1)
                   else Inr (if er_idx r \<le> raft_get_commit_idx s then 1 else 0))"

definition raft_last_applied_ety :: "'u raft_server \<Rightarrow> raft_entry option res" where
  "raft_last_applied_ety s =
     (if raft_get_last_applied_idx s = 0 then Inr None
      else log_get_at_idx (rlog s) (raft_get_last_applied_idx s))"

subsection \<open>Membership\<close>

text \<open>\<open>malloc\<close> never reuses an address that is still referenced; a fresh address is \<open>heap_next\<close>.\<close>

definition raft_add_node ::
  "'u raft_server \<Rightarrow> int \<Rightarrow> int \<Rightarrow> bool \<Rightarrow> (node_ptr \<times> 'u raft_server) res" where
  "raft_add_node s ud i is_self =
     andthen (raft_get_node s i) (\<lambda>q.
       case q of
         Some p \<Rightarrow> andthen (upd_node s p (\<lambda>n. raft_node_set_voting n True)) (\<lambda>s1. Inr (p, s1))
       | None \<Rightarrow>
           let p = heap_next s;
               s1 = s\<lparr>node_heap := (node_heap s)(p \<mapsto> raft_node_new ud i), heap_next := p + 1,
                      nodes := nodes s @ [p]\<rparr>;
               s2 = (if is_self then s1\<lparr>node := Some p\<rparr> else s1)
           in Inr (p, s2))"

definition raft_add_non_voting_node ::
  "'u raft_server \<Rightarrow> int \<Rightarrow> int \<Rightarrow> bool \<Rightarrow> (node_ptr \<times> 'u raft_server) res" where
  "raft_add_non_voting_node s ud i is_self =
     andthen (raft_add_node s ud i is_self) (\<lambda>(p, s1).
     andthen (upd_node s1 p (\<lambda>n. raft_node_set_voting n False)) (\<lambda>s2.
     andthen (upd_node s2 p (\<lambda>n. raft_node_set_next_idx n (voting_cfg_change_log_idx s2))) (\<lambda>s3.
     andthen (upd_node s3 p (\<lambda>n. raft_node_set_match_idx n 0)) (\<lambda>s4. Inr (p, s4)))))"

text \<open>The new array has one place less than the old one, so removing a peer that is not in the
  array writes past its end (every address is in the array at most once). The pointers \<open>node\<close> and \<open>current_leader\<close> are left as they are.\<close>

definition raft_remove_node :: "'u raft_server \<Rightarrow> node_ptr option \<Rightarrow> 'u raft_server res" where
  "raft_remove_node s q =
     (let new_array = filter (\<lambda>p. Some p \<noteq> q) (nodes s) in
      guarded (int (length new_array) = num_nodes s - 1) Out_of_bounds
        (Inr (s\<lparr>nodes := new_array,
                node_heap := (case q of None \<Rightarrow> node_heap s | Some p \<Rightarrow> (node_heap s)(p := None))\<rparr>)))"

definition raft_get_nvotes_for_me :: "'u raft_server \<Rightarrow> int res" where
  "raft_get_nvotes_for_me s =
     andthen
       (foldres
          (\<lambda>p votes. if node s = Some p then Inr votes
                     else andthen (deref s p) (\<lambda>n.
                       Inr (if raft_node_is_voting n \<and> raft_node_has_vote_for_me n then votes + 1 else votes)))
          (nodes s) 0)
       (\<lambda>votes. andthen (raft_get_nodeid s) (\<lambda>nodeid.
          Inr (if voted_for s = nodeid then votes + 1 else votes)))"

subsection \<open>Elections\<close>

definition raft_already_voted :: "'u raft_server \<Rightarrow> bool" where
  "raft_already_voted s \<longleftrightarrow> voted_for s \<noteq> - 1"

definition should_grant_vote :: "'u raft_server \<Rightarrow> msg_requestvote \<Rightarrow> bool res" where
  "should_grant_vote s vr =
     (if rv_term vr < raft_get_current_term s then Inr False
      else if raft_already_voted s then Inr False
      else let current_idx = raft_get_current_idx s in
        if 0 = current_idx then Inr True
        else andthen (raft_get_entry_from_idx s current_idx) (\<lambda>e.
          case e of None \<Rightarrow> Inl Null_deref
          | Some e \<Rightarrow>
              if e_term e < u32 (rv_last_log_term vr) then Inr True
              else if u32 (rv_last_log_term vr) = e_term e \<and> current_idx \<le> rv_last_log_idx vr
              then Inr True else Inr False))"

definition raft_recv_requestvote ::
  "'u raft_cbs \<Rightarrow> 'u raft_server \<Rightarrow> msg_requestvote \<Rightarrow> (msg_requestvote_response \<times> 'u raft_server) res" where
  "raft_recv_requestvote cb s vr =
     andthen
       (if raft_get_current_term s < rv_term vr
        then andthen (raft_set_current_term cb s (rv_term vr)) (\<lambda>s1. Inr (raft_become_follower s1))
        else Inr s)
     (\<lambda>s1. andthen (should_grant_vote s1 vr) (\<lambda>grant.
       if grant then
         guarded (\<not> (raft_is_leader s1 \<or> raft_is_candidate s1)) Assert_failed
           (andthen (raft_vote_for_nodeid cb s1 (rv_candidate_id vr)) (\<lambda>s2.
              let s3 = s2\<lparr>current_leader := None, timeout_elapsed := 0\<rparr> in
              Inr (\<lparr>rvr_term = raft_get_current_term s3, rvr_vote_granted = 1\<rparr>, s3)))
       else Inr (\<lparr>rvr_term = raft_get_current_term s1, rvr_vote_granted = 0\<rparr>, s1)))"

definition raft_votes_is_majority :: "int \<Rightarrow> int \<Rightarrow> bool" where
  "raft_votes_is_majority n nvotes \<longleftrightarrow> \<not> n < nvotes \<and> c_div n 2 + 1 \<le> nvotes"

definition raft_recv_requestvote_response ::
  "'u raft_cbs \<Rightarrow> 'u raft_server \<Rightarrow> node_ptr option \<Rightarrow> msg_requestvote_response \<Rightarrow> 'u raft_server res" where
  "raft_recv_requestvote_response cb s q r =
     (if \<not> raft_is_candidate s then Inr s
      else if raft_get_current_term s < rvr_term r
      then andthen (raft_set_current_term cb s (rvr_term r)) (\<lambda>s1. Inr (raft_become_follower s1))
      else if raft_get_current_term s \<noteq> rvr_term r then Inr s
      else if 1 = rvr_vote_granted r then
        andthen
          (case q of None \<Rightarrow> Inr s | Some p \<Rightarrow> upd_node s p (\<lambda>n. raft_node_vote_for_me n True))
          (\<lambda>s1. andthen (raft_get_nvotes_for_me s1) (\<lambda>votes.
            if raft_votes_is_majority (num_nodes s1) votes then raft_become_leader cb s1 else Inr s1))
      else Inr s)"

subsection \<open>Appending entries on a follower\<close>

text \<open>A pending voting change at or after a position that is deleted is forgotten.\<close>

definition cfg_rollback :: "'u raft_server \<Rightarrow> int \<Rightarrow> 'u raft_server" where
  "cfg_rollback s idx =
     (if voting_cfg_change_log_idx s \<noteq> - 1 \<and> voting_cfg_change_log_idx s \<ge> idx
      then s\<lparr>voting_cfg_change_log_idx := - 1\<rparr> else s)"

text \<open>Line 431 passes the server to \<open>log_delete\<close>, which expects the log: the fields of the server
  are then read as those of a log.\<close>

definition ae_check_term ::
  "'u raft_cbs \<Rightarrow> 'u raft_server \<Rightarrow> msg_appendentries \<Rightarrow> (int \<times> bool \<times> 'u raft_server) res" where
  "ae_check_term cb s ae =
     (if raft_is_candidate s \<and> current_term s = ae_term ae
      then Inr (current_term s, True, raft_become_follower s)
      else if current_term s < ae_term ae
      then andthen (raft_set_current_term cb s (ae_term ae)) (\<lambda>s1.
           let s2 = raft_become_follower s1 in
           andthen (deref_opt s2 (node s2)) (\<lambda>n.
             guarded (raft_node_is_voting n) Undefined_behaviour (Inr (ae_term ae, True, s2))))
      else if ae_term ae < current_term s then Inr (current_term s, False, s)
      else Inr (current_term s, True, s))"

text \<open>The consistency check on the entry before the new ones; \<open>Some i\<close> refuses the message with
  \<open>i\<close> as the responded index.\<close>

definition ae_check_prev ::
  "'u raft_cbs \<Rightarrow> 'u raft_server \<Rightarrow> msg_appendentries \<Rightarrow> (int option \<times> 'u raft_server) res" where
  "ae_check_prev cb s ae =
     (if 0 < ae_prev_log_idx ae \<and> ae_prev_log_idx ae \<ge> log_base s then
        andthen (raft_get_entry_from_idx s (ae_prev_log_idx ae)) (\<lambda>e.
          case e of None \<Rightarrow> Inr (Some (raft_get_current_idx s), s)
          | Some e \<Rightarrow>
              if raft_get_current_idx s < ae_prev_log_idx ae then Inr (Some (raft_get_current_idx s), s)
              else if e_term e \<noteq> u32 (ae_prev_log_term ae) then
                guarded (commit_idx s < ae_prev_log_idx ae) Assert_failed
                  (andthen (log_delete cb (cfg_rollback s (ae_prev_log_idx ae)) (ae_prev_log_idx ae))
                     (\<lambda>s1. Inr (Some (ae_prev_log_idx ae - 1), s1)))
              else Inr (None, s))
      else Inr (None, s))"

definition ae_heartbeat_truncate ::
  "'u raft_cbs \<Rightarrow> 'u raft_server \<Rightarrow> msg_appendentries \<Rightarrow> 'u raft_server res" where
  "ae_heartbeat_truncate cb s ae =
     (if ae_n_entries ae = 0 \<and> 0 < ae_prev_log_idx ae \<and> ae_prev_log_idx ae + 1 < raft_get_current_idx s
      then guarded (commit_idx s < ae_prev_log_idx ae + 1) Assert_failed
             (log_delete cb (cfg_rollback s (ae_prev_log_idx ae + 1)) (ae_prev_log_idx ae + 1))
      else Inr s)"

text \<open>The scan for the first entry that is missing or in conflict: how many entries were found in
  the log already, the responded index, the server.\<close>

primrec ae_scan ::
  "'u raft_cbs \<Rightarrow> int \<Rightarrow> raft_entry list \<Rightarrow> nat \<Rightarrow> int \<Rightarrow> 'u raft_server \<Rightarrow> (nat \<times> int \<times> 'u raft_server) res" where
  "ae_scan cb prev [] i cur s = Inr (i, cur, s)"
| "ae_scan cb prev (ety # etys) i cur s =
     (let ety_index = prev + 1 + int i in
      andthen (raft_get_entry_from_idx s ety_index) (\<lambda>existing.
        case existing of
          None \<Rightarrow> Inr (i, ety_index, s)
        | Some x \<Rightarrow>
            if e_term x \<noteq> e_term ety then
              guarded (commit_idx s < ety_index) Assert_failed
                (andthen (log_delete cb (cfg_rollback s ety_index) ety_index) (\<lambda>s1. Inr (i, ety_index, s1)))
            else ae_scan cb prev etys (Suc i) ety_index s))"

text \<open>The entries found in the log already are released; the source passes null for the server
  and the user data of this call.\<close>

definition ae_release :: "'u raft_cbs \<Rightarrow> raft_entry list \<Rightarrow> 'u raft_server \<Rightarrow> 'u raft_server res" where
  "ae_release cb etys s =
     foldres (\<lambda>ety s. case log_poll_cb cb of None \<Rightarrow> Inr s
                | Some f \<Rightarrow> andthen (with_udata s (f s ety (- 1))) (\<lambda>(_, s1). Inr s1)) etys s"

primrec ae_note_cfg :: "raft_entry list \<Rightarrow> int \<Rightarrow> int \<Rightarrow> 'u raft_server \<Rightarrow> int \<times> 'u raft_server" where
  "ae_note_cfg [] idx cur s = (cur, s)"
| "ae_note_cfg (ety # etys) idx cur s =
     ae_note_cfg etys (idx + 1) idx
       (if raft_entry_is_voting_cfg_change ety then s\<lparr>voting_cfg_change_log_idx := idx\<rparr> else s)"

definition ae_advance_commit :: "'u raft_server \<Rightarrow> msg_appendentries \<Rightarrow> 'u raft_server res" where
  "ae_advance_commit s ae =
     (if raft_get_commit_idx s < ae_leader_commit ae
      then (let last_log_idx = max (raft_get_current_idx s) 1 in
            raft_set_commit_idx s (min last_log_idx (ae_leader_commit ae)))
      else Inr s)"

definition ae_accept ::
  "'u raft_cbs \<Rightarrow> 'u raft_server \<Rightarrow> node_ptr option \<Rightarrow> msg_appendentries \<Rightarrow> int \<Rightarrow>
     (int \<times> msg_appendentries_response \<times> 'u raft_server) res" where
  "ae_accept cb s q ae rterm =
     andthen (ae_heartbeat_truncate cb s ae) (\<lambda>s1.
     andthen (ae_scan cb (ae_prev_log_idx ae) (ae_entries ae) 0 (ae_prev_log_idx ae) s1) (\<lambda>(i, cur, s2).
     andthen
       (if int i < ae_n_entries ae
        then andthen (raft_append_entry_batch cb s2 (drop i (ae_entries ae))) (\<lambda>(_, etys, s3). Inr (etys, s3))
        else Inr ([], s2))
     (\<lambda>(etys, s3).
     andthen (ae_release cb (take i (ae_entries ae)) s3) (\<lambda>s4.
     let (cur, s5) = ae_note_cfg etys (ae_prev_log_idx ae + 1 + int i) cur s4 in
     andthen (ae_advance_commit s5 ae) (\<lambda>s6.
       Inr (0, \<lparr>aer_term = rterm, aer_success = 1, aer_current_idx = cur,
                aer_first_idx = ae_prev_log_idx ae + 1\<rparr>, s6\<lparr>current_leader := q\<rparr>))))))"

definition raft_recv_appendentries ::
  "'u raft_cbs \<Rightarrow> 'u raft_server \<Rightarrow> node_ptr option \<Rightarrow> msg_appendentries \<Rightarrow>
     (int \<times> msg_appendentries_response \<times> 'u raft_server) res" where
  "raft_recv_appendentries cb s q ae =
     (let s0 = (if \<not> preferred_leader s \<or> ae_n_entries ae > 0 then s\<lparr>timeout_elapsed := 0\<rparr> else s) in
      guarded (ae_prev_log_term ae \<noteq> - 1) (Exited (- 1))
        (andthen (ae_check_term cb s0 ae) (\<lambda>(rterm, ok, s1).
         let refuse = (\<lambda>idx s. Inr (- 1, \<lparr>aer_term = rterm, aer_success = 0, aer_current_idx = idx,
                                          aer_first_idx = 0\<rparr>, s)) in
         if \<not> ok then refuse (raft_get_current_idx s1) s1
         else andthen (ae_check_prev cb s1 ae) (\<lambda>(bad, s2).
           case bad of Some idx \<Rightarrow> refuse idx s2 | None \<Rightarrow> ae_accept cb s2 q ae rterm))))"

subsection \<open>Replication on the leader\<close>

text \<open>Counting the peers that hold the current term's entries up to \<open>point\<close>; the callback
  \<open>setmatch\<close> learns the new match index of the peer that answered.\<close>

definition count_match ::
  "'u raft_cbs \<Rightarrow> node_ptr \<Rightarrow> int \<Rightarrow> 'u raft_server \<Rightarrow> (int \<times> 'u raft_server) res" where
  "count_match cb q point s =
     foldres
       (\<lambda>(i, p) (votes, s).
          if node s = Some p then Inr (votes, s)
          else andthen (deref s p) (\<lambda>n.
            let match = raft_node_get_match_idx n in
            if raft_node_is_voting n \<and> 0 < match then
              andthen (raft_get_entry_from_idx s match) (\<lambda>ety.
                let votes = (case ety of None \<Rightarrow> votes
                             | Some e \<Rightarrow> if e_term e = u32 (current_term s) \<and> point \<le> match
                                         then votes + 1 else votes) in
                if q = p then
                  (case setmatch cb of None \<Rightarrow> Inr (votes, s)
                   | Some f \<Rightarrow> andthen (with_udata s (f s i (match - 1))) (\<lambda>(_, s1). Inr (votes, s1)))
                else Inr (votes, s))
            else Inr (votes, s)))
       (zip [0..num_nodes s - 1] (nodes s)) (1, s)"

text \<open>A refusal moves the next index back and resends; an acceptance may move the commit index.\<close>

definition aer_refused ::
  "'u raft_cbs \<Rightarrow> 'u raft_server \<Rightarrow> node_ptr \<Rightarrow> msg_appendentries_response \<Rightarrow> (int \<times> 'u raft_server) res" where
  "aer_refused cb s p r =
     andthen (upd_node s p (\<lambda>n. raft_node_set_next_idx n (min (aer_current_idx r + 1) (raft_get_current_idx s)))) (\<lambda>s1.
     andthen (deref s1 p) (\<lambda>n.
       guarded (raft_node_get_match_idx n < raft_node_get_next_idx n) Assert_failed
         (andthen (raft_send_appendentries cb s1 p) (\<lambda>(_, s2). Inr (0, s2)))))"

definition aer_accepted ::
  "'u raft_cbs \<Rightarrow> 'u raft_server \<Rightarrow> node_ptr \<Rightarrow> msg_appendentries_response \<Rightarrow> (int \<times> 'u raft_server) res" where
  "aer_accepted cb s p r =
     guarded (aer_current_idx r \<le> raft_get_current_idx s) Assert_failed
       (andthen (upd_node s p (\<lambda>n. raft_node_set_next_idx n (max (aer_current_idx r + 1) (raft_node_get_next_idx n)))) (\<lambda>s1.
        andthen (upd_node s1 p (\<lambda>n. raft_node_set_match_idx n (aer_current_idx r))) (\<lambda>s2.
        andthen (deref s2 p) (\<lambda>n.
        andthen
          (if \<not> raft_node_is_voting n \<and> - 1 = voting_cfg_change_log_idx s2
              \<and> raft_get_current_idx s2 \<le> aer_current_idx r + 1 \<and> \<not> raft_node_has_sufficient_logs n
           then (case node_has_sufficient_logs cb of None \<Rightarrow> Inr s2
                 | Some f \<Rightarrow> andthen (f s2 p) (\<lambda>(e, s3).
                     if e \<noteq> 0 then upd_node s3 p raft_node_set_has_sufficient_logs else Inr s3))
           else Inr s2)
        (\<lambda>s3.
        andthen (count_match cb p (aer_current_idx r) s3) (\<lambda>(votes, s4).
        andthen (raft_get_num_voting_nodes s4) (\<lambda>voting.
        andthen
          (if c_div voting 2 < votes \<and> raft_get_commit_idx s4 < aer_current_idx r
           then raft_set_commit_idx s4 (aer_current_idx r) else Inr s4)
        (\<lambda>s5.
        andthen (deref s5 p) (\<lambda>n.
        andthen (raft_get_entry_from_idx s5 (raft_node_get_next_idx n)) (\<lambda>ety.
        andthen
          (if ety \<noteq> None then andthen (raft_send_appendentries cb s5 p) (\<lambda>(_, s6). Inr s6) else Inr s5)
        (\<lambda>s6.
        andthen (apply_pending cb s6) (\<lambda>(_, s7). Inr (0, s7)))))))))))))"

definition raft_recv_appendentries_response ::
  "'u raft_cbs \<Rightarrow> 'u raft_server \<Rightarrow> node_ptr option \<Rightarrow> msg_appendentries_response \<Rightarrow> (int \<times> 'u raft_server) res" where
  "raft_recv_appendentries_response cb s q r =
     (case q of None \<Rightarrow> Inr (- 1, s)
      | Some p \<Rightarrow> andthen (deref s p) (\<lambda>n.
          if aer_current_idx r \<le> raft_node_get_match_idx n \<and> raft_node_get_match_idx n \<noteq> 0 then Inr (0, s)
          else if \<not> raft_is_leader s then Inr (- 1, s)
          else if current_term s < aer_term r
          then andthen (raft_set_current_term cb s (aer_term r)) (\<lambda>s1. Inr (0, raft_become_follower s1))
          else if current_term s \<noteq> aer_term r then Inr (0, s)
          else if aer_success r = 0 then aer_refused cb s p r
          else aer_accepted cb s p r))"

text \<open>The round over all peers that starts at a random one. Every peer is visited once, so the
  number of peers is enough fuel.\<close>

primrec send_round :: "'u raft_cbs \<Rightarrow> int \<Rightarrow> nat \<Rightarrow> int \<Rightarrow> 'u raft_server \<Rightarrow> 'u raft_server res" where
  "send_round cb start 0 i s = Inl Out_of_fuel"
| "send_round cb start (Suc n) i s =
     andthen (arr_get (nodes s) i) (\<lambda>p.
     andthen
       (if node s = Some p then Inr s
        else andthen (deref s p) (\<lambda>n.
          if \<not> raft_node_is_voting n then Inr s
          else andthen (raft_send_appendentries cb s p) (\<lambda>(_, s1). Inr s1)))
       (\<lambda>s1. let i' = c_rem (i + 1) (num_nodes s1) in
             if i' \<noteq> start then send_round cb start n i' s1 else Inr s1))"

definition send_to_peers :: "'u raft_cbs \<Rightarrow> int \<Rightarrow> 'u raft_server \<Rightarrow> 'u raft_server res" where
  "send_to_peers cb rnd s =
     guarded (num_nodes s \<noteq> 0) Undefined_behaviour
       (let start = c_rem rnd (num_nodes s) in send_round cb start (length (nodes s)) start s)"

text \<open>With a single peer the entry is committed at once.\<close>

definition commit_alone :: "'u raft_server \<Rightarrow> 'u raft_server" where
  "commit_alone s = (if 1 = num_nodes s then s\<lparr>commit_idx := raft_get_current_idx s\<rparr> else s)"

text \<open>The local entry of \<open>raft_recv_entry\<close> leaves its packet pointer uninitialised; its value is the
  argument \<open>junk\<close>. A null response pointer is the flag \<open>want\<close>.\<close>

definition raft_recv_entry ::
  "'u raft_cbs \<Rightarrow> int \<Rightarrow> nat \<Rightarrow> 'u raft_server \<Rightarrow> raft_entry \<Rightarrow> bool \<Rightarrow>
     (int \<times> msg_entry_response option \<times> 'u raft_server) res" where
  "raft_recv_entry cb rnd junk s e want =
     (if raft_entry_is_voting_cfg_change e \<and> - 1 \<noteq> voting_cfg_change_log_idx s
      then Inr (RAFT_ERR_ONE_VOTING_CHANGE_ONLY, None, s)
      else if \<not> raft_is_leader s then Inr (RAFT_ERR_NOT_LEADER, None, s)
      else
        let ety = \<lparr>e_term = u32 (current_term s), e_id = e_id e, e_pkt = junk, e_type = e_type e,
                   e_buf = e_buf e, e_len = e_len e\<rparr> in
        andthen (raft_append_entry cb s ety) (\<lambda>(_, _, s1).
        andthen (send_to_peers cb rnd s1) (\<lambda>s2.
        let s3 = commit_alone s2;
            r = (if want then Some \<lparr>er_id = e_id e, er_term = current_term s3,
                                     er_idx = raft_get_current_idx s3\<rparr> else None);
            s4 = (if raft_entry_is_voting_cfg_change e
                  then s3\<lparr>voting_cfg_change_log_idx := raft_get_current_idx s3\<rparr> else s3)
        in Inr (0, r, s4))))"

text \<open>Stamping the batch with the term and looking for voting changes: the stamped entries and the
  new pending change, or \<open>None\<close> when there would be two.\<close>

primrec batch_stamp :: "int \<Rightarrow> int \<Rightarrow> int \<Rightarrow> raft_entry list \<Rightarrow> (raft_entry list \<times> int) option" where
  "batch_stamp term idx detected [] = Some ([], detected)"
| "batch_stamp term idx detected (e # es) =
     (let e1 = e\<lparr>e_term := u32 term\<rparr> in
      if raft_entry_is_voting_cfg_change e1 \<and> detected \<noteq> - 1 then None
      else let d = (if raft_entry_is_voting_cfg_change e1 then idx else detected) in
        case batch_stamp term (idx + 1) d es of None \<Rightarrow> None
        | Some (es1, d1) \<Rightarrow> Some (e1 # es1, d1))"

text \<open>All responses of a batch are filled from the first entry, as the loop does not advance it; the
  offer callback may have rewritten its id.\<close>

definition raft_recv_entry_batch ::
  "'u raft_cbs \<Rightarrow> int \<Rightarrow> 'u raft_server \<Rightarrow> raft_entry list \<Rightarrow> bool \<Rightarrow>
     (int \<times> msg_entry_response list \<times> 'u raft_server) res" where
  "raft_recv_entry_batch cb rnd s es want =
     (if \<not> raft_is_leader s then Inr (RAFT_ERR_NOT_LEADER, [], s)
      else case batch_stamp (current_term s) (raft_get_current_idx s + 1) (voting_cfg_change_log_idx s) es of
        None \<Rightarrow> Inr (RAFT_ERR_ONE_VOTING_CHANGE_ONLY, [], s)
      | Some (es1, d) \<Rightarrow>
          andthen (raft_append_entry_batch cb (s\<lparr>voting_cfg_change_log_idx := d\<rparr>) es1) (\<lambda>(_, es2, s1).
          andthen (send_to_peers cb rnd s1) (\<lambda>s2.
          let s3 = commit_alone s2;
              rs = (if want then map (\<lambda>_. \<lparr>er_id = e_id (hd es2), er_term = current_term s3,
                                             er_idx = raft_get_current_idx s3\<rparr>) es2 else [])
          in Inr (0, rs, s3))))"

end
