(* ===== verification/RaftInv.thy ===== *)
theory RaftInv
  imports RaftServer
begin

text \<open>
  The invariant of one Raft server and what every handler promises about the step it takes.
  \<open>raft_inv\<close> orders the indices of the server (compacted, applied, committed, last) over a
  well-formed log. \<open>evolves s s'\<close> is the promise: terms never decrease, a vote cast in a term is not
  changed within that term, the commit and apply indices never decrease, and an entry that was
  committed stays what it was. The locale \<open>raft_callbacks\<close> is the contract of the callback table
  under which every operation of raft/src/raft_server.c keeps the invariant and the promise.
\<close>

definition raft_inv :: "'u raft_server \<Rightarrow> bool" where
  "raft_inv s \<longleftrightarrow> log_wf (rlog s) \<and> 0 < log_target s
     \<and> l_front (rlog s) \<le> last_compacted_idx s \<and> l_front (rlog s) \<le> last_applied_idx s
     \<and> last_applied_idx s \<le> commit_idx s \<and> commit_idx s \<le> l_back (rlog s)
     \<and> log_base s \<le> last_applied_idx s"

text \<open>The logs agree on the positions before \<open>k\<close> that the second one still has.\<close>

definition agree :: "log_private \<Rightarrow> log_private \<Rightarrow> int \<Rightarrow> bool" where
  "agree l l' k \<longleftrightarrow> (\<forall>i\<in>{l_front l'..<k}. log_at l' i = log_at l i)"

definition evolves :: "'u raft_server \<Rightarrow> 'u raft_server \<Rightarrow> bool" where
  "evolves s s' \<longleftrightarrow> current_term s \<le> current_term s'
     \<and> (current_term s = current_term s' \<longrightarrow> voted_for s = - 1 \<or> voted_for s' = voted_for s)
     \<and> commit_idx s \<le> commit_idx s' \<and> last_applied_idx s \<le> last_applied_idx s'
     \<and> l_front (rlog s) \<le> l_front (rlog s') \<and> agree (rlog s) (rlog s') (commit_idx s)"

definition good :: "'u raft_server \<Rightarrow> 'u raft_server \<Rightarrow> bool" where
  "good s s' \<longleftrightarrow> raft_inv s' \<and> evolves s s'"

text \<open>Steps that touch neither the core state nor the log.\<close>

definition same :: "'u raft_server \<Rightarrow> 'u raft_server \<Rightarrow> bool" where
  "same s s' \<longleftrightarrow> core s' = core s \<and> rlog s' = rlog s"

lemma agree_refl [simp]: "agree l l k"
  by (simp add: agree_def)

lemma agree_mono: "agree l l' k \<Longrightarrow> j \<le> k \<Longrightarrow> agree l l' j"
  by (simp add: agree_def)

lemma agree_trans:
  "agree l1 l2 k \<Longrightarrow> agree l2 l3 k \<Longrightarrow> l_front l2 \<le> l_front l3 \<Longrightarrow> agree l1 l3 k"
  by (simp add: agree_def)

lemma evolves_refl [simp]: "evolves s s"
  by (simp add: evolves_def)

lemma evolves_trans: "evolves s1 s2 \<Longrightarrow> evolves s2 s3 \<Longrightarrow> evolves s1 s3"
  by (auto simp: evolves_def intro: agree_trans agree_mono)

lemma good_refl: "raft_inv s \<Longrightarrow> good s s"
  by (simp add: good_def)

lemma good_trans: "good s1 s2 \<Longrightarrow> good s2 s3 \<Longrightarrow> good s1 s3"
  by (auto simp: good_def intro: evolves_trans)

lemma good_inv: "good s s' \<Longrightarrow> raft_inv s'"
  by (simp add: good_def)

lemma same_refl [simp]: "same s s"
  by (simp add: same_def)

lemma same_trans: "same s1 s2 \<Longrightarrow> same s2 s3 \<Longrightarrow> same s1 s3"
  by (simp add: same_def)

lemma same_upd [simp]:
  "same s (s'\<lparr>udata := u\<rparr>) = same s s'" "same s (s'\<lparr>node_heap := h\<rparr>) = same s s'"
  "same s (s'\<lparr>heap_next := k\<rparr>) = same s s'" "same s (s'\<lparr>nodes := ns\<rparr>) = same s s'"
  "same s (s'\<lparr>node := q\<rparr>) = same s s'" "same s (s'\<lparr>timeout_elapsed := i\<rparr>) = same s s'"
  "same s (s'\<lparr>current_leader := q\<rparr>) = same s s'" "same s (s'\<lparr>voting_cfg_change_log_idx := i\<rparr>) = same s s'"
  by (simp_all add: same_def)

lemma same_upd_left [simp]:
  "same (s\<lparr>udata := u\<rparr>) s' = same s s'" "same (s\<lparr>node_heap := h\<rparr>) s' = same s s'"
  "same (s\<lparr>voting_cfg_change_log_idx := i\<rparr>) s' = same s s'"
  "same (s\<lparr>timeout_elapsed := i\<rparr>) s' = same s s'"
  by (simp_all add: same_def)

lemma same_good: "raft_inv s \<Longrightarrow> same s s' \<Longrightarrow> good s s'"
  by (auto simp: same_def core_eq_iff good_def raft_inv_def evolves_def)

lemma good_same: "good s1 s2 \<Longrightarrow> same s2 s3 \<Longrightarrow> good s1 s3"
  by (meson good_inv good_trans same_good)

lemma good_upd [simp]:
  "good s (s'\<lparr>udata := u\<rparr>) = good s s'" "good s (s'\<lparr>node_heap := h\<rparr>) = good s s'"
  "good s (s'\<lparr>nodes := ns\<rparr>) = good s s'" "good s (s'\<lparr>node := q\<rparr>) = good s s'"
  "good s (s'\<lparr>timeout_elapsed := i\<rparr>) = good s s'" "good s (s'\<lparr>current_leader := q\<rparr>) = good s s'"
  "good s (s'\<lparr>voting_cfg_change_log_idx := i\<rparr>) = good s s'"
  by (simp_all add: good_def raft_inv_def evolves_def)

lemma raft_inv_upd [simp]:
  "raft_inv (s\<lparr>udata := u\<rparr>) = raft_inv s" "raft_inv (s\<lparr>node_heap := h\<rparr>) = raft_inv s"
  "raft_inv (s\<lparr>nodes := ns\<rparr>) = raft_inv s" "raft_inv (s\<lparr>node := q\<rparr>) = raft_inv s"
  "raft_inv (s\<lparr>timeout_elapsed := i\<rparr>) = raft_inv s" "raft_inv (s\<lparr>current_leader := q\<rparr>) = raft_inv s"
  "raft_inv (s\<lparr>voting_cfg_change_log_idx := i\<rparr>) = raft_inv s"
  by (simp_all add: raft_inv_def)

lemma holdsI: "(\<And>x. m = Inr x \<Longrightarrow> Q x) \<Longrightarrow> holds m Q"
  by (cases m) auto

lemma holds_bindI: "(\<And>x. m = Inr x \<Longrightarrow> holds (f x) Q) \<Longrightarrow> holds (andthen m f) Q"
  by (cases m) auto

lemma holds_triv [simp]: "holds m (\<lambda>_. True)" "holds m' (\<lambda>(x, y). True)"
  by (cases m; simp) (cases m'; auto)

text \<open>Sequencing and looping of steps that keep the promise.\<close>

lemma good_seq:
  assumes "holds m (good s)" "\<And>s'. good s s' \<Longrightarrow> holds (f s') (good s')"
  shows "holds (andthen m f) (good s)"
  unfolding sat_andthen
  by (rule sat_mono[OF assms(1)], rule sat_mono[OF assms(2)]) (auto intro: good_trans)

lemma good_bind:
  "holds m (good s) \<Longrightarrow> (\<And>s'. good s s' \<Longrightarrow> holds (f s') Q) \<Longrightarrow> holds (andthen m f) Q"
  by (cases m) auto

lemma good_bind_pair:
  "holds m (\<lambda>(x, s'). good s s') \<Longrightarrow> (\<And>x s'. good s s' \<Longrightarrow> holds (f (x, s')) Q) \<Longrightarrow> holds (andthen m f) Q"
  by (cases m) auto

lemma good_bind_triple:
  "holds m (\<lambda>(x, y, s'). good s s') \<Longrightarrow> (\<And>x y s'. good s s' \<Longrightarrow> holds (f (x, y, s')) Q) \<Longrightarrow>
     holds (andthen m f) Q"
  by (cases m) auto

lemma good_after: "good s1 s2 \<Longrightarrow> holds m (good s2) \<Longrightarrow> holds m (good s1)"
  by (erule sat_mono) (rule good_trans)

lemma good_after_pair:
  "good s1 s2 \<Longrightarrow> holds m (\<lambda>(x, s'). good s2 s') \<Longrightarrow> holds m (\<lambda>(x, s'). good s1 s')"
  by (erule sat_mono) (auto intro: good_trans)

lemma good_after_triple:
  "good s1 s2 \<Longrightarrow> holds m (\<lambda>(x, y, s'). good s2 s') \<Longrightarrow> holds m (\<lambda>(x, y, s'). good s1 s')"
  by (erule sat_mono) (auto intro: good_trans)

lemma same_fold:
  assumes "\<And>p s. holds (f p s) (same s)"
  shows "holds (foldres f ps s) (same s)"
  by (rule sat_foldres[where I = "same s"])
    (auto intro: sat_mono[OF assms] same_trans)

lemma good_fold:
  assumes "\<And>p s. raft_inv s \<Longrightarrow> holds (f p s) (good s)" "raft_inv s"
  shows "holds (foldres f ps s) (good s)"
  by (rule sat_foldres[where I = "good s"])
    (auto intro: sat_mono[OF assms(1)] good_trans good_inv good_refl assms(2))

subsection \<open>How the log operations act on the positions\<close>

lemma log_at_list:
  "l_front l \<le> i \<Longrightarrow> i < l_back l \<Longrightarrow> log_at l i = log_list l ! nat (i - l_front l)"
  by (subst log_list_nth) auto

lemma agree_append:
  assumes "log_list l' = log_list l @ c" "l_front l' = l_front l" "l_back l \<le> l_back l'" "k \<le> l_back l"
  shows "agree l l' k"
  using assms by (auto simp: agree_def log_at_list nth_append)

lemma agree_take:
  assumes "log_list l' = take n (log_list l)" "l_front l' = l_front l" "l_back l' \<le> l_back l" "k \<le> l_back l'"
  shows "agree l l' k"
proof -
  have "nat (l_back l' - l_front l') \<le> n"
    using arg_cong[OF assms(1), of length] by simp
  with assms show ?thesis by (auto simp: agree_def log_at_list)
qed

lemma agree_drop:
  assumes "log_list l' = drop (nat n) (log_list l)" "l_front l' = l_front l + m"
    "0 \<le> m" "l_front l + m \<le> l_back l" "m = min n (l_back l - l_front l)" "l_back l' = l_back l" "k \<le> l_back l"
  shows "agree l l' k"
proof -
  have "nat n + nat (i - (l_front l + m)) = nat (i - l_front l)" if "l_front l + m \<le> i" "i < k" for i
    using that assms by linarith
  with assms show ?thesis by (auto simp: agree_def log_at_list)
qed

subsection \<open>Steps on the core state\<close>

lemma good_term:
  assumes "raft_inv s" "current_term s < t"
  shows "good s (s\<lparr>current_term := t, voted_for := v\<rparr>)"
  using assms by (simp add: good_def raft_inv_def evolves_def)

lemma good_vote:
  assumes "raft_inv s" "voted_for s = - 1"
  shows "good s (s\<lparr>voted_for := v\<rparr>)"
  using assms by (simp add: good_def raft_inv_def evolves_def)

lemma good_state [simp]: "raft_inv s \<Longrightarrow> good s (raft_set_state s st)"
  by (simp add: good_def raft_inv_def evolves_def raft_set_state_def)

lemma good_become_follower [simp]: "raft_inv s \<Longrightarrow> good s (raft_become_follower s)"
  by (simp add: raft_become_follower_def)

lemma good_commit:
  assumes "raft_inv s" "commit_idx s \<le> i" "i \<le> l_back (rlog s)"
  shows "good s (s\<lparr>commit_idx := i\<rparr>)"
  using assms by (simp add: good_def raft_inv_def evolves_def)

lemma set_commit_good: "raft_inv s \<Longrightarrow> holds (raft_set_commit_idx s i) (good s)"
  by (simp add: raft_set_commit_idx_def wp prop_defs good_commit)

lemma commit_alone_good: "raft_inv s \<Longrightarrow> good s (commit_alone s)"
  by (auto simp: commit_alone_def prop_defs good_refl raft_inv_def intro!: good_commit)

lemma checkpoint_good: "raft_inv s \<Longrightarrow> good s (raft_checkpoint s i)"
  by (simp add: raft_checkpoint_def good_def raft_inv_def evolves_def)

text \<open>Appending, deleting and polling as the callback contract describes them.\<close>

lemma append_good:
  assumes "raft_inv s" "core s' = core s" "log_wf (rlog s')" "log_list (rlog s') = log_list (rlog s) @ c"
    "l_front (rlog s') = l_front (rlog s)" "l_back (rlog s) \<le> l_back (rlog s')"
  shows "good s s'"
  using assms agree_append[OF assms(4,5,6), of "commit_idx s"]
  by (simp add: good_def raft_inv_def evolves_def core_eq_iff)

lemma delete_good:
  assumes "raft_inv s" "log_frame s s'" "log_wf (rlog s')" "log_list (rlog s') = take n (log_list (rlog s))"
    "l_front (rlog s') = l_front (rlog s)" "l_back (rlog s') \<le> l_back (rlog s)" "commit_idx s \<le> l_back (rlog s')"
  shows "good s s'"
  using assms agree_take[OF assms(4-7)] log_frame_eqs[OF assms(2)]
  by (simp add: good_def raft_inv_def evolves_def)

subsection \<open>Steps that send\<close>

lemma same_upd_node: "holds (upd_node s p f) (same s)"
  by (simp add: wp split: option.split)

lemma same_send_requestvote: "holds (raft_send_requestvote cb s p) (same s)"
  by (auto simp: raft_send_requestvote_def wp Let_def split: option.split intro!: holdsI)

lemma same_send_appendentries: "holds (raft_send_appendentries cb s p) (\<lambda>(e, s'). same s s')"
  by (auto simp: raft_send_appendentries_def wp Let_def split: option.split intro!: holdsI)

lemma same_send_drop: "holds (andthen (raft_send_appendentries cb s p) (\<lambda>(_, s'). Inr s')) (same s)"
  unfolding sat_andthen by (rule sat_mono[OF same_send_appendentries]) auto

lemma same_seq:
  assumes "holds m (same s)" "\<And>s'. holds (f s') (same s')"
  shows "holds (andthen m f) (same s)"
  unfolding sat_andthen
  by (rule sat_mono[OF assms(1)], rule sat_mono[OF assms(2)]) (auto intro: same_trans)

lemma same_deref: "(\<And>n. holds (f n) (same s)) \<Longrightarrow> holds (andthen (deref s p) f) (same s)"
  by (auto simp: wp split: option.split)

lemma good_become_leader:
  assumes "raft_inv s"
  shows "holds (raft_become_leader cb s) (good s)"
proof -
  let ?s = "raft_set_state s RAFT_STATE_LEADER"
  have "holds (raft_become_leader cb s) (same ?s)"
    unfolding raft_become_leader_def
    by (rule same_fold)
      (auto intro!: same_deref same_seq same_upd_node same_send_drop)
  then show ?thesis
    by (rule sat_mono) (meson assms good_inv good_state good_trans same_good)
qed

lemma same_send_round: "holds (send_round cb start n i s) (same s)"
proof (induction n arbitrary: i s)
  case 0
  then show ?case by simp
next
  case (Suc n)
  have "holds (let i' = c_rem (i + 1) (num_nodes s1) in
      if i' \<noteq> start then send_round cb start n i' s1 else Inr s1) (same s1)" for s1
    using Suc by (simp add: Let_def)
  then have "holds (andthen
       (if node s = Some p then Inr s
        else andthen (deref s p) (\<lambda>n.
          if \<not> raft_node_is_voting n then Inr s
          else andthen (raft_send_appendentries cb s p) (\<lambda>(_, s1). Inr s1)))
       (\<lambda>s1. let i' = c_rem (i + 1) (num_nodes s1) in
             if i' \<noteq> start then send_round cb start n i' s1 else Inr s1)) (same s)" for p
    by (intro same_seq) (auto intro!: same_deref same_send_drop)
  then show ?case
    unfolding send_round.simps sat_andthen[of _ "arr_get (nodes s) i"] by (auto intro: holdsI)
qed

lemma same_send_to_peers: "holds (send_to_peers cb rnd s) (same s)"
  by (auto simp: send_to_peers_def wp Let_def intro: same_send_round)

lemma with_udata_Inr: "with_udata s m = Inr (e, s') \<Longrightarrow> \<exists>u. s' = s\<lparr>udata := u\<rparr>"
  by (auto simp: with_udata_def andthen_Inr_iff)

lemma holds_ifI: "(b \<Longrightarrow> holds m Q) \<Longrightarrow> (\<not> b \<Longrightarrow> holds n Q) \<Longrightarrow> holds (if b then m else n) Q"
  by simp

lemma holds_optionI:
  "(x = None \<Longrightarrow> holds m Q) \<Longrightarrow> (\<And>y. x = Some y \<Longrightarrow> holds (f y) Q) \<Longrightarrow>
     holds (case x of None \<Rightarrow> m | Some y \<Rightarrow> f y) Q"
  by (cases x) simp_all

lemma same_count_match: "holds (count_match cb q point s) (\<lambda>(v, s'). same s s')"
  unfolding count_match_def
proof (rule sat_foldres[where I = "\<lambda>(v, s'). same s s'"], goal_cases)
  case (1 x y)
  obtain i p where "x = (i, p)" by fastforce
  moreover obtain v s1 where "y = (v, s1)" by fastforce
  moreover have "same s s1" using 1(2) calculation by simp
  ultimately show ?case
    unfolding Let_def
    by (simp only: prod.case)
      (intro holds_ifI holds_bindI holds_optionI; clarsimp dest!: with_udata_Inr)
qed simp

lemma same_refused: "holds (aer_refused cb s p r) (\<lambda>(e, s'). same s s')"
proof -
  have send: "holds (andthen (raft_send_appendentries cb s1 p) (\<lambda>(_, s2). Inr (0 :: int, s2))) (\<lambda>(e, s'). same s s')"
    if "same s s1" for s1
    unfolding sat_andthen by (rule sat_mono[OF same_send_appendentries]) (auto intro: same_trans[OF that])
  show ?thesis
    unfolding aer_refused_def
    by (auto simp: upd_node_def deref_def sat_guarded split: option.split intro!: send)
qed

lemma same_add_node: "holds (raft_add_node s ud i self) (\<lambda>(p, s'). same s s')"
  by (auto simp: raft_add_node_def wp Let_def split: option.split intro!: holdsI)

lemma same_remove_node: "holds (raft_remove_node s q) (same s)"
  by (simp add: raft_remove_node_def wp Let_def)

lemma same_add_non_voting_node: "holds (raft_add_non_voting_node s ud i self) (\<lambda>(p, s'). same s s')"
  unfolding raft_add_non_voting_node_def sat_andthen[of _ "raft_add_node _ _ _ _"]
  by (rule sat_mono[OF same_add_node]) (auto simp: wp split: option.split)

lemma raft_new_inv: "raft_inv (raft_new u)"
  by (simp add: raft_inv_def raft_new_def) (simp add: log_new_def)

subsection \<open>One step of a server\<close>

text \<open>The calls a server may receive: the timer, the five messages and requests, a checkpoint
  notification, a membership change. A call that ends in a fault stops the process, so it is
  no step.\<close>

inductive raft_step :: "'u raft_cbs \<Rightarrow> 'u raft_server \<Rightarrow> 'u raft_server \<Rightarrow> bool" for cb where
  step_periodic: "raft_periodic cb rnd s msec = Inr (e, s') \<Longrightarrow> raft_step cb s s'"
| step_appendentries: "raft_recv_appendentries cb s q ae = Inr (e, r, s') \<Longrightarrow> raft_step cb s s'"
| step_appendentries_response:
    "raft_recv_appendentries_response cb s q aer = Inr (e, s') \<Longrightarrow> raft_step cb s s'"
| step_requestvote: "raft_recv_requestvote cb s rv = Inr (r, s') \<Longrightarrow> raft_step cb s s'"
| step_requestvote_response: "raft_recv_requestvote_response cb s q rvr = Inr s' \<Longrightarrow> raft_step cb s s'"
| step_entry: "raft_recv_entry cb rnd junk s ety want = Inr (e, r, s') \<Longrightarrow> raft_step cb s s'"
| step_entry_batch:
    "raft_recv_entry_batch cb rnd s es want = Inr (e, rs, s') \<Longrightarrow> es \<noteq> [] \<Longrightarrow> raft_step cb s s'"
| step_apply_all: "raft_apply_all cb s = Inr (e, s') \<Longrightarrow> raft_step cb s s'"
| step_checkpoint: "raft_step cb s (raft_checkpoint s i)"
| step_add_node: "raft_add_node s ud i self = Inr (p, s') \<Longrightarrow> raft_step cb s s'"
| step_add_non_voting_node: "raft_add_non_voting_node s ud i self = Inr (p, s') \<Longrightarrow> raft_step cb s s'"
| step_remove_node: "raft_remove_node s q = Inr s' \<Longrightarrow> raft_step cb s s'"

subsection \<open>The callback contract and the handlers\<close>

locale raft_callbacks = log_callbacks "\<lambda>_. True" cb for cb :: "'u raft_cbs" +
  assumes apply_good: "applylog cb = Some f \<Longrightarrow> raft_inv s \<Longrightarrow>
      holds (f s e i) (\<lambda>(r, s'). good s s' \<and> commit_idx s' = commit_idx s \<and> last_applied_idx s' = last_applied_idx s)"
    and sufficient_good: "node_has_sufficient_logs cb = Some g \<Longrightarrow> raft_inv s \<Longrightarrow>
      holds (g s p) (\<lambda>(r, s'). good s s')"
begin

lemma set_term_higher:
  assumes "raft_inv s" "current_term s < t"
  shows "holds (raft_set_current_term cb s t)
     (\<lambda>s'. good s s' \<and> voted_for s' = - 1 \<and> current_term s' = t \<and> rlog s' = rlog s)"
proof -
  let ?s = "s\<lparr>current_term := t, voted_for := - 1\<rparr>"
  have "good s (?s\<lparr>udata := u\<rparr>)" for u
    by (rule good_same[OF good_term[OF assms, of "- 1"]]) simp
  then show ?thesis
    using assms good_term[OF assms]
    by (auto simp: raft_set_current_term_def wp Let_def split: option.split intro!: holdsI)
qed

lemma set_term_good:
  assumes "raft_inv s"
  shows "holds (raft_set_current_term cb s t) (good s)"
proof (cases "current_term s < t")
  case True
  then show ?thesis by (rule sat_mono[OF set_term_higher[OF assms]]) auto
next
  case False
  with assms show ?thesis by (simp add: raft_set_current_term_def good_refl)
qed

lemma vote_good:
  assumes "raft_inv s" "voted_for s = - 1"
  shows "holds (raft_vote_for_nodeid cb s i) (good s)"
proof -
  have "good s (s\<lparr>voted_for := i, udata := u\<rparr>)" for u
    by (rule good_same[OF good_vote[OF assms, of i]]) simp
  then show ?thesis
    using good_vote[OF assms]
    by (auto simp: raft_vote_for_nodeid_def wp Let_def split: option.split intro!: holdsI)
qed

lemma become_candidate_good:
  assumes "raft_inv s"
  shows "holds (raft_become_candidate cb rnd s) (good s)"
  unfolding raft_become_candidate_def sat_andthen
proof (rule sat_mono[OF set_term_higher[OF assms]], goal_cases)
  case 1
  then show ?case by (simp add: prop_defs)
next
  case (2 s1)
  have "holds (foldres (\<lambda>p s. upd_node s p (\<lambda>n. raft_node_vote_for_me n False)) (nodes s1) s1) (same s1)"
    by (rule same_fold) (rule same_upd_node)
  then show ?case
  proof (rule sat_mono, goal_cases)
    case (1 s2)
    with 2 have s2: "good s s2" "raft_inv s2" "voted_for s2 = - 1"
      by (auto intro: good_same good_inv) (simp add: same_def core_eq_iff)
    have "holds (raft_vote cb s2 (node s2)) (good s2)"
      using vote_good[OF s2(2,3)] by (auto simp: raft_vote_def wp split: option.split)
    then show ?case
    proof (rule sat_mono, goal_cases)
      case (1 s3)
      let ?s4 = "raft_set_state (s3\<lparr>current_leader := None\<rparr>) RAFT_STATE_CANDIDATE"
      let ?s5 = "?s4\<lparr>timeout_elapsed := c_rem rnd (election_timeout ?s4)\<rparr>"
      have "good s3 ?s5"
        using 1 by (simp add: good_def raft_inv_def evolves_def raft_set_state_def)
      with 1 s2 have s5: "good s ?s5" by (meson good_trans)
      have "holds (foldres
          (\<lambda>p s. if node s = Some p then Inr s
                 else andthen (deref s p) (\<lambda>n.
                   if raft_node_is_voting n then raft_send_requestvote cb s p else Inr s))
          (nodes ?s4) ?s5) (same ?s5)"
        by (rule same_fold) (auto intro!: same_deref same_send_requestvote)
      then show ?case
        unfolding Let_def sat_guarded
        by (auto elim!: sat_mono intro: good_trans[OF s5] same_good good_inv[OF s5])
    qed
  qed
qed

lemma compact_good:
  assumes "raft_inv s"
  shows "holds (compact_log cb s) (good s)"
proof (cases "log_base s \<le> last_compacted_idx s + 2 * log_target s")
  case True
  with assms show ?thesis by (simp add: compact_log_def good_refl)
next
  case False
  let ?l = "rlog s"
  have wf: "log_wf ?l" and t: "0 < log_target s" and lt: "l_front ?l < l_back ?l"
    and cnt: "l_count ?l = l_back ?l - l_front ?l"
    using assms False by (auto simp: raft_inv_def log_wf_def)
  show ?thesis
    using False unfolding compact_log_def
    apply (simp add: sat_andthen)
  proof (rule sat_mono[OF poll_batch_ok[OF wf t lt]], goal_cases)
    case (1 s1)
    then have "agree ?l (rlog s1) (commit_idx s)"
      by (intro agree_drop[where n = "log_target s" and m = "min (log_target s) (l_count ?l)"])
        (use assms lt t cnt in \<open>auto simp: raft_inv_def\<close>)
    moreover have "min (log_target s) (l_count ?l) \<le> log_target s" by simp
    moreover have "0 \<le> min (log_target s) (l_count ?l)" using t lt cnt by simp
    moreover note 1 assms False
    moreover have "log_frame s s1" using 1 by simp
    note log_frame_eqs[OF this]
    ultimately show ?case
      by (auto simp: good_def raft_inv_def evolves_def)
  qed
qed

lemma apply_entry_good:
  assumes "raft_inv s"
  shows "holds (raft_apply_entry cb s) (\<lambda>(e, s'). good s s')"
proof (cases "last_applied_idx s = commit_idx s")
  case True
  with assms show ?thesis by (simp add: raft_apply_entry_def good_refl)
next
  case False
  let ?s1 = "s\<lparr>last_applied_idx := last_applied_idx s + 1\<rparr>"
  have s1: "good s ?s1"
    using assms False by (auto simp: good_def raft_inv_def evolves_def)
  have app: "holds (case applylog cb of None \<Rightarrow> Inr (0, ?s1) | Some f \<Rightarrow> f ?s1 e i) (\<lambda>(r, s2). good s s2)" for e i
  proof (cases "applylog cb")
    case None
    with s1 show ?thesis by simp
  next
    case (Some f)
    have "holds (f ?s1 e i) (\<lambda>(r, s'). good ?s1 s')"
      by (rule sat_mono[OF apply_good[OF Some good_inv[OF s1]]]) auto
    with Some show ?thesis by (simp add: good_after_pair[OF s1])
  qed
  have rest: "holds (andthen (case applylog cb of None \<Rightarrow> Inr (0, ?s1) | Some f \<Rightarrow> f ?s1 ety i)
      (\<lambda>(e, s2). if applylog cb \<noteq> None \<and> RAFT_ERR_SHUTDOWN = e then Inr (RAFT_ERR_SHUTDOWN, s2)
         else if j = voting_cfg_change_log_idx s2 then Inr (0, s2\<lparr>voting_cfg_change_log_idx := - 1\<rparr>)
         else Inr (0, s2))) (\<lambda>(e, s'). good s s')" for ety i j
    unfolding sat_andthen by (rule sat_mono[OF app]) auto
  show ?thesis
    using False assms rest unfolding raft_apply_entry_def Let_def if_not_P[OF False]
    by (intro holds_bindI) (simp add: good_refl split: option.split)
qed

lemma apply_loop_good:
  assumes "raft_inv s"
  shows "holds (apply_loop cb n s) (\<lambda>(b, s'). good s s')"
  using assms
proof (induction n arbitrary: s)
  case 0
  then show ?case by (simp add: good_refl)
next
  case (Suc n)
  then show ?case
    by (auto simp: wp good_refl intro!: sat_mono[OF apply_entry_good]
        intro: good_after_pair good_inv)
qed

lemma apply_pending_good: "raft_inv s \<Longrightarrow> holds (apply_pending cb s) (\<lambda>(b, s'). good s s')"
  by (simp add: apply_pending_def apply_loop_good)

lemma apply_all_good: "raft_inv s \<Longrightarrow> holds (raft_apply_all cb s) (\<lambda>(e, s'). good s s')"
proof -
  have "raft_inv s \<Longrightarrow> holds (apply_all_loop cb n s) (\<lambda>(e, s'). good s s')" for n
  proof (induction n arbitrary: s)
    case 0
    then show ?case by (simp add: good_refl)
  next
    case (Suc n)
    then show ?case
      by (auto simp: wp good_refl intro!: sat_mono[OF apply_entry_good]
          intro: good_after_pair good_inv)
  qed
  then show "raft_inv s \<Longrightarrow> ?thesis" by (simp add: raft_apply_all_def)
qed

lemma step_down_good:
  assumes "raft_inv s"
  shows "holds (andthen (raft_set_current_term cb s t) (\<lambda>s1. Inr (raft_become_follower s1))) (good s)"
  by (rule good_seq[OF set_term_good[OF assms]]) (simp add: good_inv)

lemma should_grant_unvoted: "should_grant_vote s vr = Inr True \<Longrightarrow> voted_for s = - 1"
  by (auto simp: should_grant_vote_def raft_already_voted_def split: if_splits)

lemma recv_requestvote_good:
  assumes "raft_inv s"
  shows "holds (raft_recv_requestvote cb s vr) (\<lambda>(r, s'). good s s')"
proof -
  have first: "holds (if raft_get_current_term s < rv_term vr
        then andthen (raft_set_current_term cb s (rv_term vr)) (\<lambda>s1. Inr (raft_become_follower s1))
        else Inr s) (good s)"
    using assms step_down_good[OF assms] by (auto simp: good_refl)
  have grant: "holds (andthen (raft_vote_for_nodeid cb s1 c) (\<lambda>s2.
              let s3 = s2\<lparr>current_leader := None, timeout_elapsed := 0\<rparr> in
              Inr (\<lparr>rvr_term = raft_get_current_term s3, rvr_vote_granted = 1\<rparr>, s3))) (\<lambda>(r, s'). good s s')"
    if "good s s1" "voted_for s1 = - 1" for s1 c
    unfolding sat_andthen
    by (rule sat_mono[OF vote_good[OF good_inv[OF that(1)] that(2)]])
      (use that in \<open>auto simp: Let_def intro: good_trans\<close>)
  show ?thesis
    unfolding raft_recv_requestvote_def
  proof (rule holds_bindI, rule holds_bindI, goal_cases)
    case (1 s1 g)
    then have "good s s1" using first by simp
    with 1 show ?case
      by (cases g) (auto simp: sat_guarded intro!: grant dest: should_grant_unvoted)
  qed
qed

lemma recv_requestvote_response_good:
  assumes "raft_inv s"
  shows "holds (raft_recv_requestvote_response cb s q r) (good s)"
proof -
  have first: "holds (case q of None \<Rightarrow> Inr s | Some p \<Rightarrow> upd_node s p (\<lambda>n. raft_node_vote_for_me n True)) (good s)"
    using assms by (auto simp: good_refl split: option.split intro!: sat_mono[OF same_upd_node] same_good)
  have "holds (andthen (raft_get_nvotes_for_me s1) (\<lambda>votes.
      if raft_votes_is_majority (num_nodes s1) votes then raft_become_leader cb s1 else Inr s1)) (good s1)"
    if "good s s1" for s1
    using good_become_leader[OF good_inv[OF that]] good_refl[OF good_inv[OF that]]
    by (intro holds_bindI) simp
  note rest = good_seq[OF first this]
  show ?thesis
    unfolding raft_recv_requestvote_response_def
    using assms step_down_good[OF assms] rest by (auto simp: good_refl)
qed

lemma log_delete_good:
  assumes "raft_inv s" "commit_idx s < idx"
  shows "holds (log_delete cb s idx) (good s)"
proof (cases "idx \<le> l_back (rlog s) + 1")
  case True
  then have "holds (log_delete cb s idx) (\<lambda>s'. log_wf (rlog s')
     \<and> log_list (rlog s') = take (nat (idx - 1 - l_front (rlog s))) (log_list (rlog s))
     \<and> l_front (rlog s') = l_front (rlog s) \<and> l_back (rlog s') = idx - 1 \<and> log_frame s s')"
    by (intro delete_ok) (use assms in \<open>auto simp: raft_inv_def\<close>)
  then show ?thesis
    by (rule sat_mono) (use assms True in \<open>auto intro!: delete_good\<close>)
next
  case False
  then show ?thesis by (simp add: log_delete_def sat_guarded)
qed

lemma rollback_delete_good:
  assumes "raft_inv s"
  shows "holds (guarded (commit_idx s < idx) Assert_failed (log_delete cb (cfg_rollback s idx) idx)) (good s)"
proof -
  have "good s (cfg_rollback s idx)" "commit_idx (cfg_rollback s idx) = commit_idx s"
    using assms by (simp_all add: cfg_rollback_def good_refl)
  then show ?thesis
    by (auto simp: sat_guarded intro!: good_after[OF _ log_delete_good] intro: good_inv)
qed

lemma append_entry_good:
  assumes "raft_inv s"
  shows "holds (raft_append_entry cb s e) (\<lambda>(r, e', s'). good s s')"
  unfolding raft_append_entry_def
  by (rule sat_mono[OF append_entry_ok]) (use assms in \<open>auto simp: raft_inv_def intro!: append_good\<close>)

lemma append_batch_good:
  assumes "raft_inv s" "es \<noteq> []"
  shows "holds (raft_append_entry_batch cb s es) (\<lambda>(r, es', s'). good s s')"
  unfolding raft_append_entry_batch_def
  by (rule sat_mono[OF append_batch_ok]) (use assms in \<open>auto simp: raft_inv_def intro!: append_good\<close>)

lemma ae_check_term_good:
  assumes "raft_inv s"
  shows "holds (ae_check_term cb s ae) (\<lambda>(t, ok, s'). good s s')"
proof -
  have "holds (andthen (raft_set_current_term cb s t) (\<lambda>s1.
           let s2 = raft_become_follower s1 in
           andthen (deref_opt s2 (node s2)) (\<lambda>n.
             guarded (raft_node_is_voting n) Undefined_behaviour (Inr (t, True, s2)))))
     (\<lambda>(t, ok, s'). good s s')" for t
    unfolding sat_andthen[of _ "raft_set_current_term cb s t"]
    by (rule sat_mono[OF set_term_good[OF assms]])
      (auto simp: wp Let_def split: option.split intro: good_trans good_become_follower good_inv)
  with assms show ?thesis by (auto simp: ae_check_term_def good_refl)
qed

lemma ae_check_prev_good:
  assumes "raft_inv s"
  shows "holds (ae_check_prev cb s ae) (\<lambda>(bad, s'). good s s')"
proof -
  have "holds (guarded (commit_idx s < i) Assert_failed
      (andthen (log_delete cb (cfg_rollback s i) i) (\<lambda>s1. Inr (Some (i - 1), s1)))) (\<lambda>(bad, s'). good s s')" for i
    using rollback_delete_good[OF assms, of i] by (auto simp: wp)
  with assms show ?thesis
    unfolding ae_check_prev_def
    by (auto simp: good_refl intro!: holds_bindI split: option.split)
qed

lemma ae_truncate_good:
  assumes "raft_inv s"
  shows "holds (ae_heartbeat_truncate cb s ae) (good s)"
  using assms rollback_delete_good[OF assms, of "ae_prev_log_idx ae + 1"]
  by (simp add: ae_heartbeat_truncate_def good_refl)

lemma ae_scan_good:
  assumes "raft_inv s"
  shows "holds (ae_scan cb prev etys i cur s) (\<lambda>(i', cur', s'). good s s')"
proof (induction etys arbitrary: i cur)
  case Nil
  with assms show ?case by (simp add: good_refl)
next
  case (Cons ety etys)
  have "holds (guarded (commit_idx s < k) Assert_failed
      (andthen (log_delete cb (cfg_rollback s k) k) (\<lambda>s1. Inr (i, k, s1)))) (\<lambda>(i', cur', s'). good s s')" for k
    using rollback_delete_good[OF assms, of k] by (auto simp: wp)
  with Cons assms show ?case
    unfolding ae_scan.simps Let_def
    by (intro holds_bindI) (simp add: good_refl split: option.split)
qed

lemma same_release: "holds (ae_release cb etys s) (same s)"
  unfolding ae_release_def
  by (rule same_fold) (auto simp: wp split: option.split intro!: holdsI)

lemma release_bind:
  assumes "good s s3" "\<And>s4. good s s4 \<Longrightarrow> holds (f s4) Q"
  shows "holds (andthen (ae_release cb old s3) f) Q"
  unfolding sat_andthen
  by (rule sat_mono[OF same_release]) (auto intro: assms(2) good_same[OF assms(1)])

lemma same_note_cfg: "same s (snd (ae_note_cfg etys idx cur s))"
proof (induction etys arbitrary: idx cur s)
  case Nil
  then show ?case by simp
next
  case (Cons ety etys)
  then show ?case
    using Cons.IH[where s = "s\<lparr>voting_cfg_change_log_idx := idx\<rparr>", unfolded same_upd_left] by simp
qed

lemma ae_commit_good: "raft_inv s \<Longrightarrow> holds (ae_advance_commit s ae) (good s)"
  by (simp add: ae_advance_commit_def Let_def set_commit_good good_refl)

lemma ae_accept_good:
  assumes "raft_inv s"
  shows "holds (ae_accept cb s q ae t) (\<lambda>(e, r, s'). good s s')"
  unfolding ae_accept_def
proof (rule holds_bindI)
  fix s1
  assume "ae_heartbeat_truncate cb s ae = Inr s1"
  then have s1: "good s s1" using ae_truncate_good[OF assms] by (simp add: holds_iff)
  have tail: "holds (let (cur, s5) = ae_note_cfg etys k cur s4 in
      andthen (ae_advance_commit s5 ae) (\<lambda>s6.
        Inr (0, \<lparr>aer_term = t, aer_success = 1, aer_current_idx = cur,
                aer_first_idx = ae_prev_log_idx ae + 1\<rparr>, s6\<lparr>current_leader := q\<rparr>))) (\<lambda>(e, r, s'). good s s')"
    if "good s s4" for s4 etys k cur
  proof -
    obtain cur' s5 where n: "ae_note_cfg etys k cur s4 = (cur', s5)" by fastforce
    then have s5: "good s s5" using same_note_cfg[of s4 etys k cur] that by (auto intro: good_same)
    show ?thesis
      unfolding n Let_def prod.case sat_andthen
      by (rule sat_mono[OF ae_commit_good[OF good_inv[OF s5]]]) (auto intro: good_trans[OF s5])
  qed
  have append: "holds (if int i < ae_n_entries ae
        then andthen (raft_append_entry_batch cb s2 (drop i (ae_entries ae))) (\<lambda>(_, etys, s3). Inr (etys, s3))
        else Inr ([], s2)) (\<lambda>(etys, s3). good s s3)" if "good s s2" for s2 i
    using that
    by (auto simp: sat_andthen ae_n_entries_def good_inv
        intro!: sat_mono[OF append_batch_good] intro: good_trans)
  show "holds (andthen (ae_scan cb (ae_prev_log_idx ae) (ae_entries ae) 0 (ae_prev_log_idx ae) s1)
      (\<lambda>(i, cur, s2). andthen
       (if int i < ae_n_entries ae
        then andthen (raft_append_entry_batch cb s2 (drop i (ae_entries ae))) (\<lambda>(_, etys, s3). Inr (etys, s3))
        else Inr ([], s2))
       (\<lambda>(etys, s3). andthen (ae_release cb (take i (ae_entries ae)) s3) (\<lambda>s4.
          let (cur, s5) = ae_note_cfg etys (ae_prev_log_idx ae + 1 + int i) cur s4 in
          andthen (ae_advance_commit s5 ae) (\<lambda>s6.
            Inr (0, \<lparr>aer_term = t, aer_success = 1, aer_current_idx = cur,
                aer_first_idx = ae_prev_log_idx ae + 1\<rparr>, s6\<lparr>current_leader := q\<rparr>))))))
      (\<lambda>(e, r, s'). good s s')"
    unfolding sat_andthen[of _ "ae_scan _ _ _ _ _ _"]
  proof (rule sat_mono[OF ae_scan_good[OF good_inv[OF s1]]], clarify, goal_cases)
    case (1 i cur s2)
    then have "good s s2" using s1 by (auto intro: good_trans)
    then show ?case
      unfolding sat_andthen[of _ "if _ then _ else _"]
      by (rule sat_mono[OF append], clarify) (erule release_bind, rule tail)
  qed
qed

lemma recv_appendentries_good:
  assumes "raft_inv s"
  shows "holds (raft_recv_appendentries cb s q ae) (\<lambda>(e, r, s'). good s s')"
proof -
  let ?s0 = "if \<not> preferred_leader s \<or> ae_n_entries ae > 0 then s\<lparr>timeout_elapsed := 0\<rparr> else s"
  have s0: "good s ?s0" using assms by (simp add: good_refl)
  show ?thesis
  proof (cases "ae_prev_log_term ae = - 1")
    case True
    then show ?thesis by (simp add: raft_recv_appendentries_def guarded_def Let_def)
  next
    case False
    show ?thesis
      unfolding raft_recv_appendentries_def Let_def sat_guarded if_P[OF False]
  proof (rule holds_bindI, clarify, goal_cases)
    case (1 t ok s1)
    then have "good ?s0 s1" using ae_check_term_good[OF good_inv[OF s0], of ae] by (simp add: holds_iff)
    then have s1: "good s s1" by (rule good_trans[OF s0])
    have "holds (andthen (ae_check_prev cb s1 ae) (\<lambda>(bad, s2).
        case bad of None \<Rightarrow> ae_accept cb s2 q ae t
        | Some idx \<Rightarrow> Inr (- 1, \<lparr>aer_term = t, aer_success = 0, aer_current_idx = idx, aer_first_idx = 0\<rparr>, s2)))
        (\<lambda>(e, r, s'). good s s')"
      unfolding sat_andthen
    proof (rule sat_mono[OF ae_check_prev_good[OF good_inv[OF s1]]], clarify, goal_cases)
      case (1 bad s2)
      then have s2: "good s s2" by (intro good_trans[OF s1])
      with good_after_triple[OF s2 ae_accept_good[OF good_inv[OF s2]]] show ?case
        by (cases bad) simp_all
    qed
    with s1 show ?case by simp
  qed
  qed
qed

lemma sufficient_step_good:
  assumes "good s s2"
  shows "holds (case node_has_sufficient_logs cb of None \<Rightarrow> Inr s2
       | Some f \<Rightarrow> andthen (f s2 p) (\<lambda>(e, s3).
           if e \<noteq> 0 then upd_node s3 p raft_node_set_has_sufficient_logs else Inr s3)) (good s)"
proof (cases "node_has_sufficient_logs cb")
  case None
  with assms show ?thesis by simp
next
  case (Some g)
  have "holds (upd_node s3 p raft_node_set_has_sufficient_logs) (good s)" if "good s2 s3" for s3
    using good_trans[OF assms that] by (auto simp: sat_upd_node split: option.split)
  with Some show ?thesis
    by (auto simp: sat_andthen intro!: sat_mono[OF sufficient_good[OF Some good_inv[OF assms]]]
        intro: good_trans[OF assms])
qed

lemma count_match_good: "good s s3 \<Longrightarrow> holds (count_match cb p i s3) (\<lambda>(v, s'). good s s')"
  by (rule sat_mono[OF same_count_match]) (auto intro: good_same)

lemma commit_step_good:
  "good s s4 \<Longrightarrow> holds (if b then raft_set_commit_idx s4 i else Inr s4) (good s)"
  by (simp add: good_after set_commit_good good_inv)

lemma send_step_good:
  "good s s5 \<Longrightarrow> holds (if b then andthen (raft_send_appendentries cb s5 p) (\<lambda>(_, s6). Inr s6) else Inr s5) (good s)"
  by (auto intro!: sat_mono[OF same_send_drop] intro: good_same)

lemma apply_step_good: "good s s6 \<Longrightarrow> holds (apply_pending cb s6) (\<lambda>(b, s'). good s s')"
  by (rule good_after_pair[OF _ apply_pending_good]) (auto intro: good_inv)

lemma upd_node_good: "good s s1 \<Longrightarrow> holds (upd_node s1 p f) (good s)"
  by (auto simp: sat_upd_node split: option.split)

lemma aer_accepted_good:
  assumes "raft_inv s"
  shows "holds (aer_accepted cb s p r) (\<lambda>(e, s'). good s s')"
proof (cases "aer_current_idx r \<le> raft_get_current_idx s")
  case False
  then show ?thesis by (simp add: aer_accepted_def sat_guarded)
next
  case True
  note refl = good_refl[OF assms]
  show ?thesis
    unfolding aer_accepted_def sat_guarded if_P[OF True]
    apply (rule good_bind[OF upd_node_good[OF refl]])
    apply (rule good_bind, erule upd_node_good)
    apply (rule holds_bindI)
    apply (rule good_bind[where s = s])
     apply (simp add: sufficient_step_good)
    apply (rule good_bind_pair, erule count_match_good)
    apply (unfold prod.case)
    apply (rule holds_bindI)
    apply (rule good_bind, erule commit_step_good)
    apply (rule holds_bindI)
    apply (rule holds_bindI)
    apply (rule good_bind, erule send_step_good)
    apply (rule good_bind_pair, erule apply_step_good)
    apply simp
    done
qed

lemma recv_appendentries_response_good:
  assumes "raft_inv s"
  shows "holds (raft_recv_appendentries_response cb s q r) (\<lambda>(e, s'). good s s')"
proof -
  have "holds (andthen (raft_set_current_term cb s t) (\<lambda>s1. Inr (0 :: int, raft_become_follower s1))) (\<lambda>(e, s'). good s s')" for t
    by (rule good_bind[OF set_term_good[OF assms]]) (simp, meson good_trans good_become_follower good_inv)
  moreover have "holds (aer_refused cb s p r) (\<lambda>(e, s'). good s s')" for p
    by (rule sat_mono[OF same_refused]) (auto intro: same_good[OF assms])
  ultimately show ?thesis
    using assms aer_accepted_good[OF assms] unfolding raft_recv_appendentries_response_def
    by (cases q) (simp_all add: good_refl holds_bindI)
qed

lemma send_to_peers_good: "good s s1 \<Longrightarrow> holds (send_to_peers cb rnd s1) (good s)"
  by (rule sat_mono[OF same_send_to_peers]) (auto intro: good_same)

lemma commit_alone_after: "good s s1 \<Longrightarrow> good s (commit_alone s1)"
  by (meson commit_alone_good good_inv good_trans)

lemma recv_entry_good:
  assumes "raft_inv s"
  shows "holds (raft_recv_entry cb rnd junk s e want) (\<lambda>(err, r, s'). good s s')"
proof -
  have "holds (andthen (raft_append_entry cb s ety) (\<lambda>(_, _, s1).
        andthen (send_to_peers cb rnd s1) (\<lambda>s2.
        let s3 = commit_alone s2;
            r = (if want then Some \<lparr>er_id = e_id e, er_term = current_term s3,
                                     er_idx = raft_get_current_idx s3\<rparr> else None);
            s4 = (if raft_entry_is_voting_cfg_change e
                  then s3\<lparr>voting_cfg_change_log_idx := raft_get_current_idx s3\<rparr> else s3)
        in Inr (0 :: int, r, s4)))) (\<lambda>(err, r, s'). good s s')" for ety
    apply (rule good_bind_triple[OF append_entry_good[OF assms]])
    apply (unfold prod.case)
    apply (rule good_bind, erule send_to_peers_good)
    apply (simp add: Let_def commit_alone_after)
    done
  with assms show ?thesis by (simp add: raft_recv_entry_def Let_def good_refl)
qed

lemma recv_entry_batch_good:
  assumes "raft_inv s" "es \<noteq> []"
  shows "holds (raft_recv_entry_batch cb rnd s es want) (\<lambda>(err, r, s'). good s s')"
proof -
  have ne: "es1 \<noteq> []" if "batch_stamp t i d es = Some (es1, d1)" for t i d es1 d1
    using that assms(2) by (cases es) (auto simp: Let_def split: if_splits option.splits)
  have "holds (andthen (raft_append_entry_batch cb (s\<lparr>voting_cfg_change_log_idx := d\<rparr>) es1) (\<lambda>(_, es2, s1).
          andthen (send_to_peers cb rnd s1) (\<lambda>s2.
          let s3 = commit_alone s2;
              rs = (if want then map (\<lambda>_. \<lparr>er_id = e_id (hd es2), er_term = current_term s3,
                                             er_idx = raft_get_current_idx s3\<rparr>) es2 else [])
          in Inr (0 :: int, rs, s3)))) (\<lambda>(err, r, s'). good s s')" if "es1 \<noteq> []" for d es1
    apply (rule good_bind_triple[where s = s])
     apply (rule good_after_triple[OF _ append_batch_good])
       apply (simp_all add: good_refl assms that)
    apply (rule good_bind, erule send_to_peers_good)
    apply (simp add: Let_def commit_alone_after)
    done
  with assms ne show ?thesis
    unfolding raft_recv_entry_batch_def
    by (auto simp: good_refl split: option.split prod.split)
qed

lemma leader_round_good:
  assumes "good s s1"
  shows "holds (foldres
     (\<lambda>p s. if node s = Some p then Inr s
            else andthen (upd_node s p (\<lambda>n. raft_node_set_elapsed n (raft_node_get_elapsed n + msec)))
              (\<lambda>s. andthen (deref s p) (\<lambda>n.
                if raft_node_get_elapsed n \<ge> request_timeout s
                then andthen (raft_send_appendentries cb s p) (\<lambda>(_, s). Inr s)
                else if raft_node_get_next_idx n \<le> raft_get_current_idx s
                then andthen (raft_send_appendentries cb s p) (\<lambda>(_, s). Inr s)
                else Inr s))) ps s1) (good s)"
proof -
  have "holds (foldres
     (\<lambda>p s. if node s = Some p then Inr s
            else andthen (upd_node s p (\<lambda>n. raft_node_set_elapsed n (raft_node_get_elapsed n + msec)))
              (\<lambda>s. andthen (deref s p) (\<lambda>n.
                if raft_node_get_elapsed n \<ge> request_timeout s
                then andthen (raft_send_appendentries cb s p) (\<lambda>(_, s). Inr s)
                else if raft_node_get_next_idx n \<le> raft_get_current_idx s
                then andthen (raft_send_appendentries cb s p) (\<lambda>(_, s). Inr s)
                else Inr s))) ps s1) (same s1)"
    by (rule same_fold) (intro holds_ifI same_seq same_upd_node same_deref same_send_drop; simp)
  then show ?thesis by (rule sat_mono) (rule good_same[OF assms])
qed

lemma election_step_good:
  assumes "good s s1"
  shows "holds (if b then andthen (deref_opt s1 q) (\<lambda>n.
      if raft_node_is_voting n \<and> c then raft_election_start cb rnd s1 else Inr s1) else Inr s1) (good s)"
  unfolding raft_election_start_def
  by (intro holds_ifI holds_bindI good_after[OF assms become_candidate_good] good_inv[OF assms])
    (simp_all add: assms)

lemma periodic_good:
  assumes "raft_inv s"
  shows "holds (raft_periodic cb rnd s msec) (\<lambda>(e, s'). good s s')"
proof -
  let ?s0 = "s\<lparr>timeout_elapsed := timeout_elapsed s + msec\<rparr>"
  have s0: "good s ?s0" using assms by (simp add: good_refl)
  have alone: "holds (if 1 = v then andthen (raft_get_my_node ?s0) (\<lambda>q.
      andthen (deref_opt ?s0 q) (\<lambda>n.
        if raft_node_is_voting n \<and> \<not> raft_is_leader ?s0 then raft_become_leader cb ?s0 else Inr ?s0))
      else Inr ?s0) (good s)" for v
    by (intro holds_ifI holds_bindI good_after[OF s0 good_become_leader] good_inv[OF s0])
      (simp_all add: good_refl[OF assms])
  have finish: "holds (if b then Inr (- 1 :: int, s3) else andthen (compact_log cb s3) (\<lambda>s4. Inr (0, s4)))
      (\<lambda>(e, s'). good s s')" if "good s s3" for s3 b
    by (intro holds_ifI good_bind[OF good_after[OF that compact_good]] good_inv[OF that])
      (simp_all add: that)
  have act: "holds (if rstate s1 = RAFT_STATE_LEADER then foldres
             (\<lambda>p s. if node s = Some p then Inr s
                    else andthen (upd_node s p (\<lambda>n. raft_node_set_elapsed n (raft_node_get_elapsed n + msec)))
                      (\<lambda>s. andthen (deref s p) (\<lambda>n.
                        if raft_node_get_elapsed n \<ge> request_timeout s
                        then andthen (raft_send_appendentries cb s p) (\<lambda>(_, s). Inr s)
                        else if raft_node_get_next_idx n \<le> raft_get_current_idx s
                        then andthen (raft_send_appendentries cb s p) (\<lambda>(_, s). Inr s)
                        else Inr s)))
             (nodes s1) (s1\<lparr>timeout_elapsed := 0\<rparr>)
         else if election_timeout s1 \<le> timeout_elapsed s1 then
           andthen (deref_opt s1 (node s1)) (\<lambda>n.
             if raft_node_is_voting n \<and> 1 < num_nodes s1 then raft_election_start cb rnd s1 else Inr s1)
         else Inr s1) (good s)" if "good s s1" for s1
    by (rule holds_ifI, rule leader_round_good, simp add: that, rule election_step_good, rule that)
  show ?thesis
    unfolding raft_periodic_def Let_def
    apply (rule holds_bindI)
    apply (rule good_bind[OF alone])
    apply (rule good_bind, erule act)
    apply (rule good_bind_pair, erule apply_step_good)
    apply (unfold prod.case)
    apply (erule finish)
    done
qed

lemma step_good:
  assumes "raft_step cb s s'" "raft_inv s"
  shows "good s s'"
  using assms
proof (induction rule: raft_step.induct)
  case (step_periodic rnd s msec e s')
  then show ?case using periodic_good[of s rnd msec] by simp
next
  case (step_appendentries s q ae e r s')
  then show ?case using recv_appendentries_good[of s q ae] by simp
next
  case (step_appendentries_response s q aer e s')
  then show ?case using recv_appendentries_response_good[of s q aer] by simp
next
  case (step_requestvote s rv r s')
  then show ?case using recv_requestvote_good[of s rv] by simp
next
  case (step_requestvote_response s q rvr s')
  then show ?case using recv_requestvote_response_good[of s q rvr] by simp
next
  case (step_entry rnd junk s ety want e r s')
  then show ?case using recv_entry_good[of s rnd junk ety want] by simp
next
  case (step_entry_batch rnd s es want e rs s')
  then show ?case using recv_entry_batch_good[of s es rnd want] by simp
next
  case (step_apply_all s e s')
  then show ?case using apply_all_good[of s] by simp
next
  case (step_checkpoint s i)
  then show ?case by (rule checkpoint_good)
next
  case (step_add_node s ud i self p s')
  then show ?case using same_add_node[of s ud i self] by (simp add: same_good)
next
  case (step_add_non_voting_node s ud i self p s')
  then show ?case using same_add_non_voting_node[of s ud i self] by (simp add: same_good)
next
  case (step_remove_node s q s')
  then show ?case using same_remove_node[of s q] by (simp add: same_good)
qed

lemma run_good:
  assumes "(raft_step cb)\<^sup>*\<^sup>* s s'" "raft_inv s"
  shows "good s s'"
  using assms
proof (induction rule: rtranclp_induct)
  case base
  then show ?case by (rule good_refl)
next
  case (step s1 s2)
  then show ?case by (meson good_inv good_trans step_good)
qed

end

interpretation bare_raft: raft_callbacks no_cbs
  by unfold_locales simp_all

end
