(* ===== verification/RaftMatch.thy ===== *)
theory RaftMatch
  imports RaftInv
begin

text \<open>
  The effect of an accepted \<open>AppendEntries\<close> message on the log of a follower: up to the previous
  index nothing changes, and from there on the log carries the terms of the message.
\<close>

text \<open>\<open>keeps k s s'\<close>: the log of \<open>s'\<close> is well-formed, starts where that of \<open>s\<close> starts, reaches
  at least position \<open>k\<close> and agrees with it before \<open>k\<close>.\<close>

definition keeps :: "int \<Rightarrow> 'u raft_server \<Rightarrow> 'u raft_server \<Rightarrow> bool" where
  "keeps k s s' \<longleftrightarrow> log_wf (rlog s') \<and> l_front (rlog s') = l_front (rlog s) \<and> k \<le> l_back (rlog s')
     \<and> agree (rlog s) (rlog s') k"

lemma keeps_refl: "log_wf (rlog s) \<Longrightarrow> k \<le> l_back (rlog s) \<Longrightarrow> keeps k s s"
  by (simp add: keeps_def)

lemma keeps_trans: "keeps k s1 s2 \<Longrightarrow> keeps k s2 s3 \<Longrightarrow> keeps k s1 s3"
  by (auto simp: keeps_def intro: agree_trans)

lemma keeps_mono: "keeps k s s' \<Longrightarrow> j \<le> k \<Longrightarrow> keeps j s s'"
  by (auto simp: keeps_def intro: agree_mono)

lemma keeps_rlog: "rlog s2 = rlog s1 \<Longrightarrow> keeps k s s2 = keeps k s s1"
  by (simp add: keeps_def)

lemma keeps_rlog_left: "rlog s2 = rlog s1 \<Longrightarrow> keeps k s2 s = keeps k s1 s"
  by (simp add: keeps_def)

lemma rollback_rlog [simp]: "rlog (cfg_rollback s i) = rlog s"
  by (simp add: cfg_rollback_def)

lemma entry_lookup:
  assumes "log_wf (rlog s)" "l_front (rlog s) < i"
  shows "raft_get_entry_from_idx s i =
     Inr (if i \<le> l_back (rlog s) then Some (log_at (rlog s) (i - 1)) else None)"
  using log_get_at_idx_ok[OF assms(1), of i] log_at_list[of "rlog s" "i - 1"] assms(2)
  by (simp add: raft_get_entry_from_idx_def)

text \<open>The log of \<open>s'\<close> is that of \<open>s\<close> before \<open>prev\<close> and has the terms of the entries \<open>etys\<close> from there.\<close>

definition carries :: "'u raft_server \<Rightarrow> 'u raft_server \<Rightarrow> int \<Rightarrow> raft_entry list \<Rightarrow> bool" where
  "carries s s' prev etys \<longleftrightarrow> keeps prev s s' \<and> prev + int (length etys) \<le> l_back (rlog s')
     \<and> (\<forall>j<length etys. e_term (log_at (rlog s') (prev + int j)) = e_term (etys ! j))"

lemma keeps_at: "keeps k s s' \<Longrightarrow> l_front (rlog s) \<le> i \<Longrightarrow> i < k \<Longrightarrow> log_at (rlog s') i = log_at (rlog s) i"
  by (simp add: keeps_def agree_def)

lemma same_rlog: "same s s' \<Longrightarrow> rlog s' = rlog s"
  by (simp add: same_def)

lemma advance_commit_rlog: "holds (ae_advance_commit s ae) (\<lambda>s'. rlog s' = rlog s)"
  by (simp add: ae_advance_commit_def raft_set_commit_idx_def wp Let_def)

lemma set_term_frame:
  "holds (raft_set_current_term cb s t) (\<lambda>s'. rlog s' = rlog s \<and> log_base s' = log_base s)"
  by (auto simp: raft_set_current_term_def wp Let_def split: option.split intro!: holdsI)

lemma check_term_frame:
  "holds (ae_check_term cb s ae) (\<lambda>(t, ok, s'). rlog s' = rlog s \<and> log_base s' = log_base s)"
proof -
  have "holds (andthen (raft_set_current_term cb s t) (\<lambda>s1.
      let s2 = raft_become_follower s1 in
      andthen (deref_opt s2 (node s2)) (\<lambda>n.
        guarded (raft_node_is_voting n) Undefined_behaviour (Inr (t, True, s2)))))
     (\<lambda>(t, ok, s'). rlog s' = rlog s \<and> log_base s' = log_base s)" for t
    unfolding sat_andthen[of _ "raft_set_current_term cb s t"]
    by (rule sat_mono[OF set_term_frame])
      (auto simp: wp Let_def raft_become_follower_def raft_set_state_def split: option.split)
  then show ?thesis
    by (simp add: ae_check_term_def raft_become_follower_def raft_set_state_def)
qed

text \<open>The previous index is accepted only if it is in the log with the leader's term, or at most
  the base of the log.\<close>

lemma check_prev_accepts:
  assumes "log_wf (rlog s)" "l_front (rlog s) < ae_prev_log_idx ae \<or> ae_prev_log_idx ae \<le> 0"
  shows "holds (ae_check_prev cb s ae) (\<lambda>(bad, s'). bad = None \<longrightarrow> s' = s
     \<and> (0 < ae_prev_log_idx ae \<and> log_base s \<le> ae_prev_log_idx ae \<longrightarrow> ae_prev_log_idx ae \<le> l_back (rlog s)
        \<and> e_term (log_at (rlog s) (ae_prev_log_idx ae - 1)) = u32 (ae_prev_log_term ae)))"
proof (cases "0 < ae_prev_log_idx ae \<and> log_base s \<le> ae_prev_log_idx ae")
  case True
  then have "l_front (rlog s) < ae_prev_log_idx ae" using assms(2) by auto
  note get = entry_lookup[OF assms(1) this]
  show ?thesis
    using True unfolding ae_check_prev_def
    by (simp add: get) (auto simp: sat_guarded sat_andthen prop_defs intro!: holdsI)
next
  case False
  then show ?thesis by (auto simp: ae_check_prev_def)
qed

context raft_callbacks
begin

lemma delete_keeps:
  assumes "log_wf (rlog s)" "l_front (rlog s) < idx" "idx \<le> l_back (rlog s) + 1"
  shows "holds (log_delete cb s idx) (\<lambda>s'. keeps (idx - 1) s s' \<and> l_back (rlog s') = idx - 1)"
  by (rule sat_mono[OF delete_ok[OF assms]])
    (use assms in \<open>auto simp: keeps_def intro!: agree_take\<close>)

lemma rollback_delete_keeps:
  assumes "log_wf (rlog s)" "l_front (rlog s) < idx" "idx \<le> l_back (rlog s) + 1"
  shows "holds (guarded b e (log_delete cb (cfg_rollback s idx) idx))
     (\<lambda>s'. keeps (idx - 1) s s' \<and> l_back (rlog s') = idx - 1)"
proof -
  have "holds (log_delete cb (cfg_rollback s idx) idx)
      (\<lambda>s'. keeps (idx - 1) (cfg_rollback s idx) s' \<and> l_back (rlog s') = idx - 1)"
    by (rule delete_keeps) (use assms in simp_all)
  then show ?thesis by (simp add: sat_guarded keeps_rlog_left[of "cfg_rollback s idx" s])
qed

lemma truncate_keeps:
  assumes "log_wf (rlog s)" "l_front (rlog s) \<le> ae_prev_log_idx ae" "ae_prev_log_idx ae \<le> l_back (rlog s)"
  shows "holds (ae_heartbeat_truncate cb s ae) (keeps (ae_prev_log_idx ae) s)"
proof -
  have "holds (guarded b e (log_delete cb (cfg_rollback s (ae_prev_log_idx ae + 1)) (ae_prev_log_idx ae + 1)))
      (keeps (ae_prev_log_idx ae) s)" if "ae_prev_log_idx ae + 1 < l_back (rlog s)" for b e
    by (rule sat_mono[OF rollback_delete_keeps]) (use assms that in simp_all)
  with assms show ?thesis
    by (simp add: ae_heartbeat_truncate_def prop_defs keeps_refl)
qed

lemma scan_keeps:
  assumes "log_wf (rlog s)" "l_front (rlog s) \<le> prev" "prev + int i \<le> l_back (rlog s)"
  shows "holds (ae_scan cb prev etys i cur s) (\<lambda>(i', cur', s'). i \<le> i' \<and> i' \<le> i + length etys
     \<and> keeps (prev + int i') s s' \<and> (i' < i + length etys \<longrightarrow> l_back (rlog s') = prev + int i')
     \<and> (\<forall>j<i' - i. e_term (log_at (rlog s) (prev + int (i + j))) = e_term (etys ! j)))"
  using assms(3)
proof (induction etys arbitrary: i cur)
  case Nil
  with assms show ?case by (simp add: keeps_refl)
next
  case (Cons ety etys)
  let ?k = "prev + 1 + int i"
  have get: "raft_get_entry_from_idx s ?k =
      Inr (if ?k \<le> l_back (rlog s) then Some (log_at (rlog s) (?k - 1)) else None)"
    by (rule entry_lookup) (use assms in simp_all)
  show ?case
  proof (cases "?k \<le> l_back (rlog s)")
    case False
    with Cons.prems assms show ?thesis by (simp add: get keeps_refl)
  next
    case True
    have rest: "holds (ae_scan cb prev etys (Suc i) ?k s) (\<lambda>(i', cur', s'). Suc i \<le> i' \<and> i' \<le> Suc i + length etys
        \<and> keeps (prev + int i') s s' \<and> (i' < Suc i + length etys \<longrightarrow> l_back (rlog s') = prev + int i')
        \<and> (\<forall>j<i' - Suc i. e_term (log_at (rlog s) (prev + int (Suc i + j))) = e_term (etys ! j)))"
      by (rule Cons.IH) (use True in simp)
    have del: "holds (guarded b e (log_delete cb (cfg_rollback s ?k) ?k))
        (\<lambda>s'. keeps (?k - 1) s s' \<and> l_back (rlog s') = ?k - 1)" for b e
      by (rule rollback_delete_keeps) (use assms Cons.prems True in simp_all)
    show ?thesis
    proof (cases "e_term (log_at (rlog s) (?k - 1)) = e_term ety")
      case False
      with True del[of "commit_idx s < ?k" Assert_failed] show ?thesis
        by (auto simp: get Let_def sat_andthen sat_guarded elim!: sat_mono)
    next
      case same: True
      have "(\<forall>j<i' - i. e_term (log_at (rlog s) (prev + int (i + j))) = e_term ((ety # etys) ! j))"
        if "Suc i \<le> i'" "\<forall>j<i' - Suc i. e_term (log_at (rlog s) (prev + int (Suc i + j))) = e_term (etys ! j)" for i'
      proof (intro allI impI)
        fix j
        assume "j < i' - i"
        with that same show "e_term (log_at (rlog s) (prev + int (i + j))) = e_term ((ety # etys) ! j)"
          by (cases j) auto
      qed
      with True same show ?thesis
        by (simp add: get) (rule sat_mono[OF rest], auto)
    qed
  qed
qed

lemma append_rest_match:
  assumes "log_wf (rlog s)" "l_front (rlog s) \<le> prev" "l_back (rlog s) = prev + int i" "i < length etys"
  shows "holds (raft_append_entry_batch cb s (drop i etys)) (\<lambda>(r, es, s'). keeps (prev + int i) s s'
     \<and> l_back (rlog s') = prev + int (length etys)
     \<and> (\<forall>j. i \<le> j \<and> j < length etys \<longrightarrow> e_term (log_at (rlog s') (prev + int j)) = e_term (etys ! j)))"
proof -
  have "holds (log_append_batch cb s (drop i etys)) (\<lambda>(r, c', s').
     log_wf (rlog s') \<and> log_list (rlog s') = log_list (rlog s) @ c' \<and> map e_term c' = map e_term (drop i etys)
     \<and> l_front (rlog s') = l_front (rlog s) \<and> l_back (rlog s') = l_back (rlog s) + int (length (drop i etys))
     \<and> core s' = core s)"
    by (rule append_batch_ok) (use assms in simp_all)
  then show ?thesis
    unfolding raft_append_entry_batch_def
  proof (rule sat_mono, clarify, goal_cases)
    case (1 r c' s')
    have bk: "l_back (rlog s') = prev + int (length etys)" using 1 assms by (simp add: of_nat_diff)
    have terms: "map e_term c' = map e_term (drop i etys)" using 1 by simp
    have len: "length c' = length etys - i" using map_eq_imp_length_eq[OF terms] by simp
    have "e_term (log_at (rlog s') (prev + int j)) = e_term (etys ! j)" if "i \<le> j" "j < length etys" for j
    proof -
      have n: "nat (prev + int j - l_front (rlog s)) = nat (l_back (rlog s) - l_front (rlog s)) + (j - i)"
        using assms that by linarith
      have "log_at (rlog s') (prev + int j) = c' ! (j - i)"
        using 1 bk assms that n by (subst log_at_list) (auto simp: nth_append)
      moreover have "e_term (c' ! (j - i)) = e_term (etys ! j)"
        using arg_cong[OF terms, of "\<lambda>ts. ts ! (j - i)"] len that by simp
      ultimately show ?thesis by simp
    qed
    moreover have "keeps (prev + int i) s s'"
      unfolding keeps_def using 1 assms bk by (auto intro!: agree_append)
    ultimately show ?case using bk by auto
  qed
qed

lemma rest_carries:
  assumes "keeps prev s s1" "l_front (rlog s1) \<le> prev" "keeps (prev + int i) s1 s2" "i \<le> length etys"
    "i < length etys \<Longrightarrow> l_back (rlog s2) = prev + int i"
    "\<And>j. j < i \<Longrightarrow> e_term (log_at (rlog s1) (prev + int j)) = e_term (etys ! j)"
  shows "holds (if i < length etys
      then andthen (raft_append_entry_batch cb s2 (drop i etys)) (\<lambda>(_, es, s3). Inr (es, s3))
      else Inr ([], s2)) (\<lambda>(es, s3). carries s s3 prev etys)"
proof (cases "i < length etys")
  case False
  then have "i = length etys" using assms(4) by simp
  with assms keeps_at[OF assms(3)] keeps_trans[OF assms(1) keeps_mono[OF assms(3)]] show ?thesis
    by (auto simp: carries_def keeps_def)
next
  case True
  have "holds (raft_append_entry_batch cb s2 (drop i etys)) (\<lambda>(r, es, s'). keeps (prev + int i) s2 s'
     \<and> l_back (rlog s') = prev + int (length etys)
     \<and> (\<forall>j. i \<le> j \<and> j < length etys \<longrightarrow> e_term (log_at (rlog s') (prev + int j)) = e_term (etys ! j)))"
    by (rule append_rest_match) (use assms True in \<open>auto simp: keeps_def\<close>)
  then have "holds (raft_append_entry_batch cb s2 (drop i etys)) (\<lambda>(r, es, s3). carries s s3 prev etys)"
  proof (rule sat_mono, clarify, goal_cases)
    case (1 r es s3)
    then have "keeps (prev + int i) s2 s3" by simp
    from keeps_trans[OF assms(3) this] have k: "keeps (prev + int i) s1 s3" .
    have "e_term (log_at (rlog s3) (prev + int j)) = e_term (etys ! j)" if "j < length etys" for j
      using that 1 assms(2,6) keeps_at[OF k, of "prev + int j"] by (cases "j < i") auto
    with 1 keeps_trans[OF assms(1) keeps_mono[OF k]] show ?case by (simp add: carries_def)
  qed
  with True show ?thesis by (auto simp: sat_andthen elim: sat_mono)
qed

lemma accept_carries:
  assumes "log_wf (rlog s)" "l_front (rlog s) \<le> ae_prev_log_idx ae" "ae_prev_log_idx ae \<le> l_back (rlog s)"
  shows "holds (ae_accept cb s q ae t) (\<lambda>(e, r, s'). carries s s' (ae_prev_log_idx ae) (ae_entries ae))"
proof -
  let ?prev = "ae_prev_log_idx ae" and ?etys = "ae_entries ae"
  have tail: "holds (andthen (ae_release cb old s3) (\<lambda>s4.
      let (cur, s5) = ae_note_cfg es k cur s4 in
      andthen (ae_advance_commit s5 ae) (\<lambda>s6.
       Inr (0 :: int, \<lparr>aer_term = t, aer_success = 1, aer_current_idx = cur,
                aer_first_idx = ?prev + 1\<rparr>, s6\<lparr>current_leader := q\<rparr>))))
      (\<lambda>(e, r, s'). carries s s' ?prev ?etys)" if "carries s s3 ?prev ?etys" for old s3 es k cur
    unfolding sat_andthen[of _ "ae_release cb old s3"]
  proof (rule sat_mono[OF same_release], goal_cases)
    case (1 s4)
    obtain cur' s5 where n: "ae_note_cfg es k cur s4 = (cur', s5)" by fastforce
    then have "rlog s5 = rlog s3" using same_note_cfg[of s4 es k cur] 1 by (simp add: same_def)
    then show ?case
      unfolding n Let_def prod.case sat_andthen
      by (intro sat_mono[OF advance_commit_rlog])
        (use that in \<open>auto simp: carries_def keeps_def\<close>)
  qed
  show ?thesis
    unfolding ae_accept_def sat_andthen[of _ "ae_heartbeat_truncate cb s ae"]
  proof (rule sat_mono[OF truncate_keeps[OF assms]], goal_cases)
    case (1 s1)
    note s01 = 1(2)
    from 1 have s1: "log_wf (rlog s1)" "l_front (rlog s1) \<le> ?prev" "?prev + int 0 \<le> l_back (rlog s1)"
      using assms by (simp_all add: keeps_def)
    show ?case
      unfolding sat_andthen[of _ "ae_scan cb ?prev ?etys 0 ?prev s1"]
    proof (rule sat_mono[OF scan_keeps[OF s1]], clarify, goal_cases)
      case (1 i cur s2)
      have s2: "keeps (?prev + int i) s1 s2" "i \<le> length ?etys" "i < length ?etys \<Longrightarrow> l_back (rlog s2) = ?prev + int i"
        and terms: "\<And>j. j < i \<Longrightarrow> e_term (log_at (rlog s1) (?prev + int j)) = e_term (?etys ! j)"
        using 1 by auto
      have step: "holds (if int i < ae_n_entries ae
          then andthen (raft_append_entry_batch cb s2 (drop i ?etys)) (\<lambda>(_, etys, s3). Inr (etys, s3))
          else Inr ([], s2)) (\<lambda>(etys, s3). carries s s3 ?prev ?etys)"
        using rest_carries[OF s01 s1(2) s2 terms] by (simp add: ae_n_entries_def)
      show ?case
        unfolding sat_andthen[of _ "if int i < ae_n_entries ae then _ else _"]
        by (rule sat_mono[OF step], clarify) (erule tail)
    qed
  qed
qed

lemma recv_appendentries_carries:
  assumes "raft_inv s" "l_front (rlog s) < ae_prev_log_idx ae \<or> l_front (rlog s) = 0 \<and> ae_prev_log_idx ae = 0"
  shows "holds (raft_recv_appendentries cb s q ae) (\<lambda>(e, r, s'). aer_success r = 1 \<longrightarrow>
     carries s s' (ae_prev_log_idx ae) (ae_entries ae)
     \<and> (0 < ae_prev_log_idx ae \<and> log_base s \<le> ae_prev_log_idx ae \<longrightarrow>
          e_term (log_at (rlog s) (ae_prev_log_idx ae - 1)) = u32 (ae_prev_log_term ae)))"
    (is "holds _ ?Q")
proof (cases "ae_prev_log_term ae = - 1")
  case True
  then show ?thesis by (simp add: raft_recv_appendentries_def guarded_def Let_def)
next
  case False
  let ?s0 = "if \<not> preferred_leader s \<or> ae_n_entries ae > 0 then s\<lparr>timeout_elapsed := 0\<rparr> else s"
  show ?thesis
    unfolding raft_recv_appendentries_def Let_def sat_guarded if_P[OF False]
      sat_andthen[of _ "ae_check_term cb ?s0 ae"]
  proof (rule sat_mono[OF check_term_frame], clarify, goal_cases)
    case (1 t ok s1)
    then have s1: "rlog s1 = rlog s" "log_base s1 = log_base s" by (simp_all split: if_splits)
    have wf: "log_wf (rlog s1)" using assms s1 by (simp add: raft_inv_def)
    have "holds (andthen (ae_check_prev cb s1 ae) (\<lambda>(bad, s2).
        case bad of None \<Rightarrow> ae_accept cb s2 q ae t
        | Some idx \<Rightarrow> Inr (- 1, \<lparr>aer_term = t, aer_success = 0, aer_current_idx = idx, aer_first_idx = 0\<rparr>, s2))) ?Q"
      unfolding sat_andthen
    proof (rule sat_mono[OF check_prev_accepts[OF wf]], goal_cases)
      case 1
      then show ?case using assms s1 by auto
    next
      case (2 x)
      then obtain bad s2 where x: "x = (bad, s2)" by fastforce
      show ?case
      proof (cases bad)
        case (Some i)
        then show ?thesis by (simp add: x)
      next
        case None
        with 2 x have s2: "s2 = s1" and ok: "0 < ae_prev_log_idx ae \<and> log_base s1 \<le> ae_prev_log_idx ae \<longrightarrow>
            ae_prev_log_idx ae \<le> l_back (rlog s1)
            \<and> e_term (log_at (rlog s1) (ae_prev_log_idx ae - 1)) = u32 (ae_prev_log_term ae)"
          by simp_all
        have le: "ae_prev_log_idx ae \<le> l_back (rlog s1)"
          using ok s1 assms by (auto simp: raft_inv_def log_wf_def)
        have "holds (ae_accept cb s1 q ae t) (\<lambda>(e, r, s'). carries s1 s' (ae_prev_log_idx ae) (ae_entries ae))"
          by (rule accept_carries) (use wf le assms s1 in auto)
        then show ?thesis
          unfolding x None s2 prod.case option.case
          by (rule sat_mono) (use ok s1 in \<open>auto simp: carries_def keeps_def\<close>)
      qed
    qed
    then show ?case by simp
  qed
qed

end

end
