(* ===== verification/RaftCommit.thy ===== *)
theory RaftCommit
  imports RaftInv
begin

text \<open>
  The commit rule of a leader: an answer to \<open>AppendEntries\<close> moves the commit index only to the
  answered index, and only if a majority of the voting peers, the leader included, holds
  entries of the current term at least that far.
\<close>

text \<open>The peer \<open>p\<close> is another voting peer whose known match index reaches \<open>point\<close> and is the
  index of an entry of the current term.\<close>

definition supports :: "'u raft_server \<Rightarrow> int \<Rightarrow> node_ptr \<Rightarrow> bool" where
  "supports s point p \<longleftrightarrow> node s \<noteq> Some p \<and>
     (case node_heap s p of None \<Rightarrow> False
      | Some n \<Rightarrow> raft_node_is_voting n \<and> 0 < match_idx n \<and> point \<le> match_idx n \<and>
          (case raft_get_entry_from_idx s (match_idx n) of
             Inr (Some e) \<Rightarrow> e_term e = u32 (current_term s) | _ \<Rightarrow> False))"

definition voting_peer :: "'u raft_server \<Rightarrow> node_ptr \<Rightarrow> bool" where
  "voting_peer s p = (case node_heap s p of None \<Rightarrow> False | Some n \<Rightarrow> raft_node_is_voting n)"

lemma voting_peer_udata [simp]: "voting_peer (s\<lparr>udata := u\<rparr>) = voting_peer s"
  by (simp add: voting_peer_def fun_eq_iff)

lemma supports_udata [simp]: "supports (s\<lparr>udata := u\<rparr>) = supports s"
  by (intro ext) (auto simp: supports_def raft_get_entry_from_idx_def split: option.split sum.split)

lemma c_div_2: "c_div (int n) 2 = int (n div 2)"
  by (cases "n = 0") (simp_all add: c_div_def zdiv_int)

lemma num_voting_fold:
  "holds (foldres (\<lambda>p num. andthen (deref s p) (\<lambda>n. Inr (if raft_node_is_voting n then num + 1 else num))) ps k)
     (\<lambda>v. v = k + int (length (filter (voting_peer s) ps)))"
proof (induction ps arbitrary: k)
  case Nil
  then show ?case by simp
next
  case (Cons p ps)
  show ?case
  proof (cases "node_heap s p")
    case None
    then show ?thesis by (simp add: deref_def)
  next
    case (Some n)
    show ?thesis
      using Cons[of "k + 1"] Cons[of k] Some
      by (cases "raft_node_is_voting n") (simp_all add: deref_def voting_peer_def algebra_simps)
  qed
qed

lemma num_voting_count:
  "holds (raft_get_num_voting_nodes s) (\<lambda>v. v = int (length (filter (voting_peer s) (nodes s))))"
  using num_voting_fold[of s "nodes s" 0] by (simp add: raft_get_num_voting_nodes_def)

text \<open>One round of the counting loop.\<close>

lemma count_body:
  fixes s :: "'u raft_server"
  shows "holds (if node s = Some p then Inr (votes, s)
      else andthen (deref s p) (\<lambda>n.
        let match = raft_node_get_match_idx n in
        if raft_node_is_voting n \<and> 0 < match then
          andthen (raft_get_entry_from_idx s match) (\<lambda>ety.
            let votes = (case ety of None \<Rightarrow> votes
                         | Some e \<Rightarrow> if e_term e = u32 (current_term s) \<and> point \<le> match
                                     then votes + 1 else votes) in
            if q = p then
              (case setmatch cb of None \<Rightarrow> Inr (votes, s)
               | Some f \<Rightarrow> andthen (with_udata s (f s i (match - 1))) (\<lambda>(_, s1). Inr (votes, s1)))
            else Inr (votes, s))
        else Inr (votes, s)))
     (\<lambda>(v, s'). v = (votes :: int) + (if supports s point p then 1 else 0) \<and> (\<exists>u. s' = s\<lparr>udata := u\<rparr>))"
proof -
  have id: "\<exists>u. s = s\<lparr>udata := u\<rparr>" by (rule exI[of _ "udata s"]) simp
  show ?thesis
  proof (cases "node_heap s p")
    case None
    with id show ?thesis by (simp add: supports_def deref_def)
  next
    case (Some n)
    show ?thesis
    proof (cases "raft_get_entry_from_idx s (match_idx n)")
      case (Inl a)
      with Some id show ?thesis by (simp add: supports_def deref_def node_access_defs Let_def)
    next
      case (Inr ety)
      have fin: "holds (if q = p then
              (case setmatch cb of None \<Rightarrow> Inr (v, s)
               | Some f \<Rightarrow> andthen (with_udata s (f s i j)) (\<lambda>(_, s1). Inr (v, s1)))
            else Inr (v, s)) (\<lambda>(v', s'). v' = v \<and> (\<exists>u. s' = s\<lparr>udata := u\<rparr>))" for v :: int and j
        using id by (cases "setmatch cb") (auto simp: holds_iff andthen_Inr_iff dest: with_udata_Inr)
      show ?thesis
      proof (cases "node s = Some p \<or> \<not> raft_node_is_voting n \<or> match_idx n \<le> 0")
        case True
        with Some id show ?thesis by (auto simp: supports_def deref_def node_access_defs Let_def)
      next
        case False
        then have c: "node s \<noteq> Some p" "raft_node_is_voting n" "0 < match_idx n" by auto
        show ?thesis
          apply (simp add: c Some Inr deref_def node_access_defs Let_def split del: if_split)
          apply (rule sat_mono[OF fin])
          apply (auto simp: supports_def c Some Inr split: option.splits)
          done
      qed
    qed
  qed
qed

lemma count_fold:
  "holds (foldres
       (\<lambda>(i, p) (votes, s).
          if node s = Some p then Inr (votes, s)
          else andthen (deref s p) (\<lambda>n.
            let match = raft_node_get_match_idx n in
            if raft_node_is_voting n \<and> 0 < match then
              andthen (raft_get_entry_from_idx s match) (\<lambda>ety.
                let votes = (case ety of None \<Rightarrow> votes
                             | Some e \<Rightarrow> if e_term e = u32 (current_term s) \<and> point \<le> match
                                         then votes + 1 else votes) in
                if q = p then
                  (case setmatch cb of None \<Rightarrow> Inr (votes, s)
                   | Some f \<Rightarrow> andthen (with_udata s (f s i (match - 1))) (\<lambda>(_, s1). Inr (votes, s1)))
                else Inr (votes, s))
            else Inr (votes, s)))
       xs (votes, s)) (\<lambda>(v, s'). v = votes + int (length (filter (supports s point) (map snd xs)))
          \<and> (\<exists>u. s' = s\<lparr>udata := u\<rparr>))"
proof (induction xs arbitrary: votes s)
  case Nil
  show ?case by (simp) (rule exI[of _ "udata s"], simp)
next
  case (Cons x xs)
  obtain i p where x: "x = (i, p)" by fastforce
  show ?case
    unfolding x foldres.simps sat_andthen prod.case
  proof (rule sat_mono[OF count_body], clarify, goal_cases)
    case (1 a b u)
    show ?case
      by (rule sat_mono[OF Cons.IH]) auto
  qed
qed

lemma count_match_count:
  "holds (count_match cb q point s) (\<lambda>(v, s'). v = 1 + int (length (filter (supports s point) (nodes s)))
     \<and> (\<exists>u. s' = s\<lparr>udata := u\<rparr>))"
proof -
  have "map snd (zip [0..num_nodes s - 1] (nodes s)) = nodes s"
    by (simp add: num_nodes_def)
  with count_fold[of point q cb "zip [0..num_nodes s - 1] (nodes s)" 1 s] show ?thesis
    unfolding count_match_def by (simp only:)
qed

text \<open>The server after the answer of peer \<open>p\<close> with index \<open>i\<close> has been recorded.\<close>

definition acked :: "'u raft_server \<Rightarrow> node_ptr \<Rightarrow> int \<Rightarrow> 'u raft_server" where
  "acked s p i =
     (case node_heap s p of None \<Rightarrow> s
      | Some n \<Rightarrow> s\<lparr>node_heap := (node_heap s)(p \<mapsto>
          raft_node_set_match_idx (raft_node_set_next_idx n (max (i + 1) (raft_node_get_next_idx n))) i)\<rparr>)"

definition majority_supports :: "'u raft_server \<Rightarrow> int \<Rightarrow> bool" where
  "majority_supports s i \<longleftrightarrow>
     length (filter (voting_peer s) (nodes s)) div 2 < 1 + length (filter (supports s i) (nodes s))"

lemma send_drop_commit: "holds (andthen (raft_send_appendentries cb s p) (\<lambda>(_, s'). Inr s')) (\<lambda>s'. commit_idx s' = commit_idx s)"
  by (rule sat_mono[OF same_send_drop]) (simp add: same_def core_eq_iff)

context raft_callbacks
begin

lemma apply_entry_commit:
  assumes "raft_inv s"
  shows "holds (raft_apply_entry cb s) (\<lambda>(e, s'). commit_idx s' = commit_idx s)"
proof (cases "last_applied_idx s = commit_idx s")
  case True
  then show ?thesis by (simp add: raft_apply_entry_def)
next
  case False
  let ?s1 = "s\<lparr>last_applied_idx := last_applied_idx s + 1\<rparr>"
  have inv: "raft_inv ?s1" using assms False by (auto simp: raft_inv_def)
  have app: "holds (case applylog cb of None \<Rightarrow> Inr (0, ?s1) | Some f \<Rightarrow> f ?s1 e i) (\<lambda>(r, s2). commit_idx s2 = commit_idx s)" for e i
  proof (cases "applylog cb")
    case (Some f)
    have "holds (f ?s1 e i) (\<lambda>(r, s2). commit_idx s2 = commit_idx s)"
      by (rule sat_mono[OF apply_good[OF Some inv]]) auto
    with Some show ?thesis by simp
  qed simp
  have rest: "holds (andthen (case applylog cb of None \<Rightarrow> Inr (0, ?s1) | Some f \<Rightarrow> f ?s1 ety i)
      (\<lambda>(e, s2). if applylog cb \<noteq> None \<and> RAFT_ERR_SHUTDOWN = e then Inr (RAFT_ERR_SHUTDOWN, s2)
         else if j = voting_cfg_change_log_idx s2 then Inr (0, s2\<lparr>voting_cfg_change_log_idx := - 1\<rparr>)
         else Inr (0, s2))) (\<lambda>(e, s'). commit_idx s' = commit_idx s)" for ety i j
    unfolding sat_andthen by (rule sat_mono[OF app]) auto
  show ?thesis
    using False rest unfolding raft_apply_entry_def Let_def if_not_P[OF False]
    by (intro holds_bindI) (simp split: option.split)
qed

lemma apply_loop_commit:
  "raft_inv s \<Longrightarrow> holds (apply_loop cb n s) (\<lambda>(b, s'). commit_idx s' = commit_idx s)"
proof (induction n arbitrary: s)
  case 0
  then show ?case by simp
next
  case (Suc n)
  have "holds (raft_apply_entry cb s) (\<lambda>(e, s'). raft_inv s' \<and> commit_idx s' = commit_idx s)"
    using apply_entry_good[OF Suc.prems] apply_entry_commit[OF Suc.prems]
    by (auto simp: holds_iff intro: good_inv)
  then have "holds (andthen (raft_apply_entry cb s) (\<lambda>(e, s1). if e = - 1 then Inr (True, s1) else apply_loop cb n s1))
      (\<lambda>(b, s'). commit_idx s' = commit_idx s)"
    unfolding sat_andthen
  proof (rule sat_mono, clarify, goal_cases)
    case (1 e s1)
    then show ?case using Suc.IH[of s1] by auto
  qed
  then show ?case by simp
qed

lemma accepted_commit:
  assumes "raft_inv s" "node_heap s p = Some n" "raft_node_is_voting n"
  shows "holds (aer_accepted cb s p r) (\<lambda>(e, s'). commit_idx s' = commit_idx s \<or>
     commit_idx s' = aer_current_idx r \<and> majority_supports (acked s p (aer_current_idx r)) (aer_current_idx r))"
proof (cases "aer_current_idx r \<le> raft_get_current_idx s")
  case False
  then show ?thesis by (simp add: aer_accepted_def sat_guarded)
next
  case True
  let ?i = "aer_current_idx r" and ?s = "acked s p (aer_current_idx r)"
  let ?Q = "\<lambda>c. c = commit_idx s \<or> c = ?i \<and> majority_supports ?s ?i"
  have s: "raft_inv ?s" "commit_idx ?s = commit_idx s" "nodes ?s = nodes s"
    using assms by (simp_all add: acked_def)
  obtain m where m: "node_heap ?s p = Some m" "raft_node_is_voting m"
    using assms by (simp add: acked_def node_access_defs)
  have fin: "holds (andthen (deref s5 p) (\<lambda>n.
        andthen (raft_get_entry_from_idx s5 (raft_node_get_next_idx n)) (\<lambda>ety.
        andthen (if ety \<noteq> None then andthen (raft_send_appendentries cb s5 p) (\<lambda>(_, s6). Inr s6) else Inr s5)
        (\<lambda>s6. andthen (apply_pending cb s6) (\<lambda>(_, s7). Inr (0 :: int, s7))))))
      (\<lambda>(e, s'). ?Q (commit_idx s'))" if "good s s5" "?Q (commit_idx s5)" for s5
  proof (rule holds_bindI, rule holds_bindI, rule holds_bindI, goal_cases)
    case (1 n ety s6)
    then have s6: "good s s6" "commit_idx s6 = commit_idx s5"
      using send_step_good[OF that(1), of "ety \<noteq> None"] send_drop_commit[of cb s5 p]
      by (auto simp: holds_iff split: if_splits)
    show ?case
      unfolding apply_pending_def sat_andthen
      by (rule sat_mono[OF apply_loop_commit[OF good_inv[OF s6(1)]]]) (use that s6 in auto)
  qed
  have commit: "holds (andthen (count_match cb p ?i ?s) (\<lambda>(votes, s4).
        andthen (raft_get_num_voting_nodes s4) (\<lambda>voting.
        andthen (if c_div voting 2 < votes \<and> raft_get_commit_idx s4 < ?i
           then raft_set_commit_idx s4 ?i else Inr s4) f))) Q"
    if "\<And>s5. good s s5 \<Longrightarrow> ?Q (commit_idx s5) \<Longrightarrow> holds (f s5) Q"
    for f :: "'u raft_server \<Rightarrow> (int \<times> 'u raft_server) res" and Q
    unfolding sat_andthen[of _ "count_match _ _ _ _"]
  proof (rule sat_mono[OF count_match_count], clarify, goal_cases)
    case (1 v s4 u)
    have g: "good s (?s\<lparr>udata := u\<rparr>)" using assms(1) by (simp add: acked_def good_refl split: option.split)
    show ?case
      unfolding sat_andthen[of _ "raft_get_num_voting_nodes _"]
    proof (rule sat_mono[OF num_voting_count], goal_cases)
      case (1 voting)
      have "majority_supports ?s ?i" if "c_div voting 2 < 1 + int (length (filter (supports ?s ?i) (nodes ?s)))"
        using that 1(2) by (simp add: majority_supports_def c_div_2)
      then show ?case
        using good_after[OF g set_commit_good[OF good_inv[OF g], of ?i]] g s
        by (auto simp: sat_andthen raft_set_commit_idx_def guarded_def intro!: that)
    qed
  qed
  have first: "aer_accepted cb s p r = andthen (count_match cb p ?i ?s) (\<lambda>(votes, s4).
        andthen (raft_get_num_voting_nodes s4) (\<lambda>voting.
        andthen (if c_div voting 2 < votes \<and> raft_get_commit_idx s4 < ?i
           then raft_set_commit_idx s4 ?i else Inr s4) (\<lambda>s5.
        andthen (deref s5 p) (\<lambda>n.
        andthen (raft_get_entry_from_idx s5 (raft_node_get_next_idx n)) (\<lambda>ety.
        andthen (if ety \<noteq> None then andthen (raft_send_appendentries cb s5 p) (\<lambda>(_, s6). Inr s6) else Inr s5)
        (\<lambda>s6. andthen (apply_pending cb s6) (\<lambda>(_, s7). Inr (0, s7))))))))"
    unfolding aer_accepted_def guarded_def if_P[OF True]
    using assms(2,3) by (simp add: acked_def upd_node_def deref_def node_access_defs split del: if_split)
  show ?thesis
    unfolding first by (rule commit) (rule fin)
qed

end

end
