(* ===== verification/RaftClaims.thy ===== *)
theory RaftClaims
  imports RaftMatch RaftCommit
begin

text \<open>
  The properties of the Raft library: what its log promises to the server, and what the
  server's handlers promise about the steps they take. The statements about the log quantify
  over callback tables that keep the contract \<open>log_callbacks\<close>, those about the server over tables
  with \<open>raft_callbacks\<close>; the witnesses use the table of a server without callbacks.
\<close>

subsection \<open>The log\<close>

text \<open>C17. Appending a batch. Whatever the capacity of the circular buffer and wherever its entries
  wrap around, \<open>log_append_batch\<close> ends in no fault other than those of its callback, and the abstract
  log afterwards is the old one followed by the entries of the batch, with the terms they had.
  Nothing else of the server that matters to the protocol changes.\<close>

theorem log_append_batch_refines:
  assumes "log_callbacks F cb" "log_wf (rlog s)" "c \<noteq> []"
  shows "sat F (log_append_batch cb s c) (\<lambda>(r, c', s').
     log_wf (rlog s') \<and> log_list (rlog s') = log_list (rlog s) @ c' \<and> map e_term c' = map e_term c
     \<and> l_front (rlog s') = l_front (rlog s) \<and> l_back (rlog s') = l_back (rlog s) + int (length c)
     \<and> core s' = core s)"
  by (rule log_callbacks.append_batch_ok[OF assms])

theorem log_append_batch_refines_witness:
  "log_callbacks (\<lambda>_. False) (no_cbs :: unit raft_cbs) \<and> log_wf (rlog (raft_new ())) \<and> [zero_entry] \<noteq> []
   \<and> runs (log_append_batch no_cbs (raft_new ()) [zero_entry]) (\<lambda>(r, c', s').
     log_wf (rlog s') \<and> log_list (rlog s') = log_list (rlog (raft_new ())) @ c' \<and> map e_term c' = map e_term [zero_entry]
     \<and> l_front (rlog s') = l_front (rlog (raft_new ())) \<and> l_back (rlog s') = l_back (rlog (raft_new ())) + int (length [zero_entry])
     \<and> core s' = core (raft_new ()))"
proof (intro conjI)
  show cb: "log_callbacks (\<lambda>_. False) (no_cbs :: unit raft_cbs)" by (rule bare_log.log_callbacks_axioms)
  show wf: "log_wf (rlog (raft_new ()))" by (simp add: raft_new_def)
  show ne: "[zero_entry] \<noteq> []" by simp
  show "runs (log_append_batch no_cbs (raft_new ()) [zero_entry]) (\<lambda>(r, c', s').
     log_wf (rlog s') \<and> log_list (rlog s') = log_list (rlog (raft_new ())) @ c' \<and> map e_term c' = map e_term [zero_entry]
     \<and> l_front (rlog s') = l_front (rlog (raft_new ())) \<and> l_back (rlog s') = l_back (rlog (raft_new ())) + int (length [zero_entry])
     \<and> core s' = core (raft_new ()))"
    by (rule log_append_batch_refines[OF cb wf ne])
qed


text \<open>A server with two entries of terms 1 and 2 in its log.\<close>

definition two_entries :: "unit raft_server" where
  "two_entries = (raft_new ())\<lparr>rlog := log_new\<lparr>l_count := 2, l_back := 2,
     l_entries := [zero_entry\<lparr>e_term := 1\<rparr>, zero_entry\<lparr>e_term := 2\<rparr>] @ replicate 8 zero_entry\<rparr>\<rparr>"

lemma two_entries_wf: "log_wf (rlog two_entries)" "l_front (rlog two_entries) = 0" "l_back (rlog two_entries) = 2"
  "raft_inv two_entries"
  by (simp_all add: two_entries_def log_wf_def log_new_def INITIAL_CAPACITY_def raft_inv_def raft_new_def)






text \<open>C20. Reading for replication. \<open>log_get_from_idx\<close> at an index of the log returns at least one entry, and
  what it returns is a prefix of the entries from that index on; at any other index it returns none.
  So a message never carries stale slots of the buffer.\<close>

theorem log_get_from_idx_prefix:
  assumes "log_wf l"
  shows "runs (log_get_from_idx l idx) (\<lambda>es.
     if l_front l < idx \<and> idx \<le> l_back l
     then es \<noteq> [] \<and> es = take (length es) (drop (nat (idx - 1 - l_front l)) (log_list l)) else es = [])"
proof (cases "l_front l < idx \<and> idx \<le> l_back l")
  case False
  then show ?thesis using log_get_from_idx_outside[of idx l] by auto
next
  case True
  then obtain n where n: "0 < n" "idx - 1 + n \<le> l_back l"
    "log_get_from_idx l idx = Inr (map (log_at l) [idx - 1..idx - 1 + n - 1])"
    using log_get_from_idx_ok[OF assms] by blast
  have "take (nat n) (drop (nat (idx - 1 - l_front l)) (log_list l)) = map (log_at l) [idx - 1..idx - 1 + n - 1]"
    by (rule log_list_take_drop) (use True n in auto)
  with True n show ?thesis by simp
qed

theorem log_get_from_idx_prefix_witness:
  "log_wf (rlog two_entries) \<and> runs (log_get_from_idx (rlog two_entries) 2) (\<lambda>es.
     if l_front (rlog two_entries) < 2 \<and> 2 \<le> l_back (rlog two_entries)
     then es \<noteq> [] \<and> es = take (length es) (drop (nat (2 - 1 - l_front (rlog two_entries))) (log_list (rlog two_entries))) else es = [])"
  using log_get_from_idx_prefix[OF two_entries_wf(1), of 2] two_entries_wf(1) by (rule conjI[rotated])




end
