(* ===== verification/RaftServerClaims.thy ===== *)
theory RaftServerClaims
  imports RaftMatch RaftCommit
begin

text \<open>
  The properties of the Raft server: what holds in every run, what each handler decides, and
  where the code departs from the protocol.
\<close>

subsection \<open>Every run\<close>





subsection \<open>Replication\<close>





text \<open>A leader of term 2 with three voting peers and two entries.\<close>

definition leader3 :: "unit raft_server" where
  "leader3 = (raft_new ())\<lparr>current_term := 2, voted_for := 0, rstate := RAFT_STATE_LEADER,
     rlog := log_new\<lparr>l_count := 2, l_back := 2,
       l_entries := [zero_entry\<lparr>e_term := 1\<rparr>, zero_entry\<lparr>e_term := 2\<rparr>] @ replicate 8 zero_entry\<rparr>,
     node_heap := [0 \<mapsto> raft_node_new 0 0, 1 \<mapsto> raft_node_new 0 1, 2 \<mapsto> raft_node_new 0 2],
     heap_next := 3, nodes := [0, 1, 2], node := Some 0\<rparr>"




subsection \<open>Votes\<close>










subsection \<open>Loops\<close>

text \<open>What a round does with one peer.\<close>

definition send_one :: "'u raft_cbs \<Rightarrow> node_ptr \<Rightarrow> 'u raft_server \<Rightarrow> 'u raft_server res" where
  "send_one cb p s =
     (if node s = Some p then Inr s
      else andthen (deref s p) (\<lambda>n.
        if \<not> raft_node_is_voting n then Inr s
        else andthen (raft_send_appendentries cb s p) (\<lambda>(_, s1). Inr s1)))"

lemma send_nodes: "holds (raft_send_appendentries cb s p) (\<lambda>(e, s'). nodes s' = nodes s)"
  by (auto simp: raft_send_appendentries_def wp Let_def split: option.split intro!: holdsI)

lemma send_one_nodes: "send_one cb p s = Inr s' \<Longrightarrow> nodes s' = nodes s"
  using send_nodes[of cb s p] by (auto simp: send_one_def andthen_Inr_iff holds_iff split: if_splits)

lemma send_round_fold:
  assumes "nodes s = ns" "0 < n" "n \<le> length ns" "k < length ns"
  shows "send_round cb (int k) n (int ((k + (length ns - n)) mod length ns)) s =
     foldres (send_one cb) (drop (length ns - n) (rotate k ns)) s"
  using assms
proof (induction n arbitrary: s)
  case 0
  then show ?case by simp
next
  case (Suc n)
  let ?L = "length ns" and ?i = "(k + (length ns - Suc n)) mod length ns"
  have L: "0 < ?L" using Suc.prems(4) by linarith
  have idx: "?L - Suc n < ?L" using L by simp
  have "rotate k ns ! (?L - Suc n) = ns ! ?i" by (rule nth_rotate[OF idx])
  moreover have "?i < ?L" using L by simp
  ultimately have get: "arr_get (nodes s) (int ?i) = Inr (rotate k ns ! (?L - Suc n))"
    using Suc.prems(1) by (simp only: arr_get_def) simp
  have "Suc (?L - Suc n) = ?L - n" using Suc.prems(3) by simp
  then have "drop (?L - Suc n) (rotate k ns) = rotate k ns ! (?L - Suc n) # drop (?L - n) (rotate k ns)"
    using Cons_nth_drop_Suc[of "?L - Suc n" "rotate k ns"] idx by simp
  moreover have next_i: "c_rem (int ?i + 1) (int ?L) = int ((k + (?L - n)) mod ?L)"
  proof -
    have "c_rem (int ?i + 1) (int ?L) = int ((?i + 1) mod ?L)"
      using L by (simp add: zmod_int add.commute)
    also have "(?i + 1) mod ?L = (k + (?L - Suc n) + 1) mod ?L" by (rule mod_add_left_eq)
    also have "k + (?L - Suc n) + 1 = k + (?L - n)" using Suc.prems(3) by simp
    finally show ?thesis .
  qed
  moreover have last: "int ((k + (?L - n)) mod ?L) = int k \<longleftrightarrow> n = 0"
  proof (cases "n = 0")
    case True
    then show ?thesis using Suc.prems by simp
  next
    case False
    then have "0 < ?L - n" "?L - n < ?L" using Suc.prems by auto
    then have "(k + (?L - n)) mod ?L \<noteq> k"
      using Suc.prems(4) by (cases "k + (?L - n) < ?L") (auto simp: mod_if)
    with False show ?thesis by simp
  qed
  ultimately show ?case
    using Suc L get
    by (cases "send_one cb (rotate k ns ! (?L - Suc n)) s")
      (auto simp: send_one_def [symmetric] num_nodes_def Let_def dest: send_one_nodes)
qed

text \<open>C22. The round that a leader makes over its peers after an entry, starting at a random one, visits
  every peer exactly once: it is the plain loop over the rotated peer array. In particular its
  fuel, the number of peers, is enough.\<close>

theorem send_to_peers_visits_all:
  assumes "nodes s \<noteq> []" "0 \<le> rnd"
  shows "send_to_peers cb rnd s = foldres (send_one cb) (rotate (nat rnd) (nodes s)) s"
proof -
  let ?L = "length (nodes s)"
  have L: "0 < ?L" using assms by simp
  have k: "c_rem rnd (int ?L) = int (nat rnd mod ?L)"
    using assms L by (simp add: zmod_int)
  have "send_round cb (int (nat rnd mod ?L)) ?L (int ((nat rnd mod ?L + (?L - ?L)) mod ?L)) s =
      foldres (send_one cb) (drop (?L - ?L) (rotate (nat rnd mod ?L) (nodes s))) s"
    by (rule send_round_fold) (use L in simp_all)
  then have "send_round cb (int (nat rnd mod ?L)) ?L (int (nat rnd mod ?L)) s =
      foldres (send_one cb) (rotate (nat rnd) (nodes s)) s"
    by (simp add: rotate_conv_mod [symmetric])
  with L k show ?thesis by (simp add: send_to_peers_def num_nodes_def guarded_def Let_def)
qed

theorem send_to_peers_visits_all_witness:
  "nodes leader3 \<noteq> [] \<and> (0::int) \<le> 7
   \<and> send_to_peers no_cbs 7 leader3 = foldres (send_one no_cbs) (rotate (nat 7) (nodes leader3)) leader3"
proof (intro conjI)
  show ne: "nodes leader3 \<noteq> []" by (simp add: leader3_def)
  show "(0::int) \<le> 7" by simp
  then show "send_to_peers no_cbs 7 leader3 = foldres (send_one no_cbs) (rotate (nat 7) (nodes leader3)) leader3"
    by (rule send_to_peers_visits_all[OF ne])
qed









end
