(* ===== verification/RaftScenarios.thy ===== *)
theory RaftScenarios
  imports RaftMatch RaftCommit
begin

















end
