(* ===== verification/CircularLog.thy ===== *)
theory CircularLog
  imports Prelude
begin

text \<open>
  The persistent ring of packet pointers of core/circular_log.h, on the layout of core/pmem_layout.h.
  The cells are a list with one element per entry of the ring. Cell indices are C ints; the sums below
  stay in range for rings of up to \<open>2 ^ 30\<close> cells. A cache flush is recorded as the cell it names.
\<close>

record circular_log =
  cl_head :: int
  cl_tail :: int
  cl_data :: "nat list"

text \<open>A cell is written behind the tail, but the tail is not moved; the result is the new tail, or -1
  when the ring would become full.\<close>

definition ring_offer :: "circular_log \<Rightarrow> nat \<Rightarrow> int \<Rightarrow> int \<Rightarrow> (int \<times> circular_log) res" where
  "ring_offer log ptr tail LOG_ENTRIES =
     andthen (arr_set (cl_data log) tail ptr) (\<lambda>d.
       let tail1 = tail + 1;
           tail2 = (if tail1 = LOG_ENTRIES then 0 else tail1)
       in Inr (if tail2 = cl_head log then - 1 else tail2, log\<lparr>cl_data := d\<rparr>))"

definition ring_poll :: "circular_log \<Rightarrow> int \<Rightarrow> circular_log" where
  "ring_poll log LOG_ENTRIES =
     (let new_head = cl_head log + 1 in
      log\<lparr>cl_head := (if new_head = LOG_ENTRIES then 0 else new_head)\<rparr>)"

definition ring_poll_batch :: "circular_log \<Rightarrow> int \<Rightarrow> int \<Rightarrow> circular_log" where
  "ring_poll_batch log cnt LOG_ENTRIES =
     (let new_head = cl_head log + cnt in
      log\<lparr>cl_head := (if new_head \<ge> LOG_ENTRIES then new_head - LOG_ENTRIES else new_head)\<rparr>)"

definition ring_pop :: "circular_log \<Rightarrow> int \<Rightarrow> circular_log" where
  "ring_pop log LOG_ENTRIES =
     log\<lparr>cl_tail := (if cl_tail log = 0 then LOG_ENTRIES - 1 else cl_tail log - 1)\<rparr>"

text \<open>The walk of \<open>log_persist\<close> from the old tail to the new one, as the cells whose cache lines it
  flushes. The fuel bounds the rounds of the loop.\<close>

primrec ring_walk :: "nat \<Rightarrow> int \<Rightarrow> int \<Rightarrow> int \<Rightarrow> int \<Rightarrow> int list res" where
  "ring_walk 0 blocks old_tail new_tail LOG_ENTRIES =
     (if old_tail \<noteq> new_tail then Inl Out_of_fuel else Inr [])"
| "ring_walk (Suc n) blocks old_tail new_tail LOG_ENTRIES =
     (if old_tail \<noteq> new_tail then
        let old1 = old_tail + 1;
            hit = (blocks + 1 = 8);
            flush1 = (if hit then [old1] else []);
            blocks1 = (if hit then 0 else blocks + 1)
        in andthen
             (if old1 = LOG_ENTRIES
              then andthen (ring_walk n 0 0 new_tail LOG_ENTRIES) (\<lambda>fs. Inr (0 # fs))
              else ring_walk n blocks1 old1 new_tail LOG_ENTRIES)
             (\<lambda>fs. Inr (flush1 @ fs))
      else Inr [])"

definition ring_persist :: "circular_log \<Rightarrow> int \<Rightarrow> int \<Rightarrow> (int list \<times> circular_log) res" where
  "ring_persist log new_tail LOG_ENTRIES =
     andthen (ring_walk (nat LOG_ENTRIES) 0 (cl_tail log) new_tail LOG_ENTRIES)
       (\<lambda>fs. Inr (cl_tail log # fs, log\<lparr>cl_tail := new_tail\<rparr>))"

text \<open>The loop of \<open>__raft_logentry_offer_batch\<close> around \<open>log_offer\<close>: a full ring ends the process.\<close>

primrec ring_offers :: "nat list \<Rightarrow> int \<Rightarrow> int \<Rightarrow> circular_log \<Rightarrow> (int \<times> circular_log) res" where
  "ring_offers [] tail LOG_ENTRIES log = Inr (tail, log)"
| "ring_offers (p # ps) tail LOG_ENTRIES log =
     andthen (ring_offer log p tail LOG_ENTRIES) (\<lambda>(tail1, log1).
       guarded (tail1 \<noteq> - 1) (Exited (- 1)) (ring_offers ps tail1 LOG_ENTRIES log1))"

definition ring_append :: "nat list \<Rightarrow> int \<Rightarrow> circular_log \<Rightarrow> circular_log res" where
  "ring_append ps LOG_ENTRIES log =
     andthen (ring_offers ps (cl_tail log) LOG_ENTRIES log) (\<lambda>(tail, log1).
     andthen (ring_persist log1 tail LOG_ENTRIES) (\<lambda>(_, log2). Inr log2))"

subsection \<open>The queue that a ring represents\<close>

definition ring_wf :: "int \<Rightarrow> circular_log \<Rightarrow> bool" where
  "ring_wf N log \<longleftrightarrow> 0 < N \<and> int (length (cl_data log)) = N
     \<and> 0 \<le> cl_head log \<and> cl_head log < N \<and> 0 \<le> cl_tail log \<and> cl_tail log < N"

definition ring_view :: "int \<Rightarrow> int \<Rightarrow> int \<Rightarrow> nat list \<Rightarrow> nat list" where
  "ring_view N h t d = map (\<lambda>k. d ! nat ((h + int k) mod N)) [0..<nat ((t - h) mod N)]"

definition ring_list :: "int \<Rightarrow> circular_log \<Rightarrow> nat list" where
  "ring_list N log = ring_view N (cl_head log) (cl_tail log) (cl_data log)"

lemma mod_step:
  fixes t h N :: int
  assumes "0 < N" "(t + 1) mod N \<noteq> h mod N"
  shows "(t + 1 - h) mod N = (t - h) mod N + 1"
proof -
  have "(t + 1 - h) mod N = ((t - h) mod N + 1) mod N"
    by (metis diff_add_eq mod_add_left_eq)
  moreover have "(t + 1 - h) mod N \<noteq> 0"
    using assms by (metis mod_eq_dvd_iff dvd_eq_mod_eq_0)
  moreover have "(t - h) mod N + 1 \<le> N" using assms(1) pos_mod_bound[of N "t - h"] by linarith
  ultimately show ?thesis
    using assms(1) pos_mod_sign[of N "t - h"] by (cases "(t - h) mod N + 1 = N") auto
qed

text \<open>Cells before the write position are not touched by a write.\<close>

lemma ring_view_write:
  assumes "0 < N" "0 \<le> t" "t < N" "(t' - h) mod N \<le> (t - h) mod N"
  shows "ring_view N h t' (d[nat t := p]) = ring_view N h t' d"
proof -
  have "(h + int k) mod N \<noteq> t" if "k < nat ((t' - h) mod N)" for k
  proof
    assume "(h + int k) mod N = t"
    then have "(t - h) mod N = int k mod N"
      by (metis add_diff_cancel_left' mod_diff_left_eq)
    moreover have "int k < N" using that assms(1) pos_mod_bound[of N "t' - h"] by linarith
    ultimately show False using that assms(4) by simp
  qed
  then show ?thesis
    using assms(1,2) unfolding ring_view_def
    by (intro map_cong) (simp_all add: nth_list_update_neq nat_eq_iff2)
qed

lemma ring_view_snoc:
  assumes "0 < N" "0 \<le> t" "t < N" "0 \<le> h" "h < N" "(t + 1) mod N \<noteq> h" "int (length d) = N"
  shows "ring_view N h ((t + 1) mod N) (d[nat t := p]) = ring_view N h t d @ [p]"
proof -
  have len: "nat (((t + 1) mod N - h) mod N) = Suc (nat ((t - h) mod N))"
    using mod_step[of N t h] assms pos_mod_sign[of N "t - h"] by (simp add: mod_diff_left_eq algebra_simps Suc_nat_eq_nat_zadd1)
  have "(h + int (nat ((t - h) mod N))) mod N = t"
    using assms(1-3) by (simp add: mod_add_right_eq)
  then have "d[nat t := p] ! nat ((h + int (nat ((t - h) mod N))) mod N) = p"
    using assms by simp
  then have "ring_view N h ((t + 1) mod N) (d[nat t := p]) = ring_view N h t (d[nat t := p]) @ [p]"
    by (simp add: ring_view_def len)
  then show ?thesis using ring_view_write[of N t t h d p] assms(1-3) by simp
qed

lemma ring_next: "0 \<le> t \<Longrightarrow> t < N \<Longrightarrow> (if t + 1 = N then 0 else t + 1) = (t + 1) mod (N :: int)"
  by auto

lemma ring_offer_room:
  assumes "ring_wf N log" "0 \<le> t" "t < N" "(t + 1) mod N \<noteq> cl_head log"
  shows "ring_offer log p t N = Inr ((t + 1) mod N, log\<lparr>cl_data := (cl_data log)[nat t := p]\<rparr>)"
  using assms by (simp add: ring_offer_def ring_wf_def Let_def ring_next[OF assms(2,3)])

lemma ring_offer_full:
  assumes "ring_wf N log" "0 \<le> t" "t < N" "(t + 1) mod N = cl_head log"
  shows "ring_offer log p t N = Inr (- 1, log\<lparr>cl_data := (cl_data log)[nat t := p]\<rparr>)"
  using assms by (simp add: ring_offer_def ring_wf_def Let_def ring_next[OF assms(2,3)])

lemma ring_full_iff:
  assumes "ring_wf N log" "0 \<le> t" "t < N"
  shows "(t + 1) mod N = cl_head log \<longleftrightarrow> (t - cl_head log) mod N + 1 = N"
proof
  assume "(t + 1) mod N = cl_head log"
  then have "t - cl_head log = - 1 \<or> t - cl_head log = N - 1"
    using assms by (cases "t + 1 = N") (auto simp: ring_wf_def)
  moreover have "(- 1) mod N = N - 1" using assms(1) zmod_minus1[of N] by (simp add: ring_wf_def)
  ultimately show "(t - cl_head log) mod N + 1 = N" using assms(1) by (auto simp: ring_wf_def)
next
  assume full: "(t - cl_head log) mod N + 1 = N"
  show "(t + 1) mod N = cl_head log"
  proof (rule ccontr)
    assume "(t + 1) mod N \<noteq> cl_head log"
    then have "(t + 1 - cl_head log) mod N = N"
      using full mod_step[of N t "cl_head log"] assms(1) by (simp add: ring_wf_def)
    then show False using assms(1) pos_mod_bound[of N "t + 1 - cl_head log"] by (simp add: ring_wf_def)
  qed
qed

text \<open>A run of offers either fits and extends the view by the offered pointers, leaving every earlier
  view alone, or ends the process.\<close>

lemma ring_offers_room:
  assumes "ring_wf N log" "0 \<le> t" "t < N" "(t - cl_head log) mod N + int (length ps) < N"
  shows "\<exists>d. ring_offers ps t N log = Inr ((t + int (length ps)) mod N, log\<lparr>cl_data := d\<rparr>)
     \<and> int (length d) = N
     \<and> ring_view N (cl_head log) ((t + int (length ps)) mod N) d = ring_view N (cl_head log) t (cl_data log) @ ps
     \<and> (\<forall>t0. (t0 - cl_head log) mod N \<le> (t - cl_head log) mod N \<longrightarrow>
          ring_view N (cl_head log) t0 d = ring_view N (cl_head log) t0 (cl_data log))"
  using assms
proof (induction ps arbitrary: t log)
  case Nil
  then have "ring_offers [] t N log = Inr ((t + int (length [])) mod N, log\<lparr>cl_data := cl_data log\<rparr>)" by simp
  then show ?case using Nil by (intro exI[of _ "cl_data log"]) (simp add: ring_wf_def)
next
  case (Cons p ps)
  let ?t = "(t + 1) mod N" and ?log = "log\<lparr>cl_data := (cl_data log)[nat t := p]\<rparr>"
  have N: "0 < N" "0 \<le> cl_head log" "cl_head log < N" "int (length (cl_data log)) = N"
    using Cons.prems(1) by (simp_all add: ring_wf_def)
  have room: "?t \<noteq> cl_head log" using ring_full_iff[OF Cons.prems(1-3)] Cons.prems(4) by auto
  have step: "(?t - cl_head log) mod N = (t - cl_head log) mod N + 1"
    using mod_step[of N t "cl_head log"] room N by (simp add: mod_diff_left_eq)
  have t: "0 \<le> ?t" "?t < N" "?t \<noteq> - 1" using N(1) by (simp_all, smt (verit) pos_mod_sign)
  have wf: "ring_wf N ?log" using Cons.prems(1) by (simp add: ring_wf_def)
  have sum: "(?t + int (length ps)) mod N = (t + int (length (p # ps))) mod N"
    using mod_add_left_eq[of "t + 1" N "int (length ps)"] by (simp add: algebra_simps)
  obtain d where d: "ring_offers ps ?t N ?log = Inr ((?t + int (length ps)) mod N, ?log\<lparr>cl_data := d\<rparr>)"
      "int (length d) = N"
      "ring_view N (cl_head log) ((?t + int (length ps)) mod N) d = ring_view N (cl_head log) ?t (cl_data ?log) @ ps"
      "\<And>t0. (t0 - cl_head log) mod N \<le> (?t - cl_head log) mod N \<Longrightarrow>
          ring_view N (cl_head log) t0 d = ring_view N (cl_head log) t0 (cl_data ?log)"
    using Cons.IH[OF wf t(1,2)] Cons.prems(4) step by auto
  have "ring_view N (cl_head log) t0 d = ring_view N (cl_head log) t0 (cl_data log)"
    if "(t0 - cl_head log) mod N \<le> (t - cl_head log) mod N" for t0
    using d(4)[of t0] that step ring_view_write[OF N(1) Cons.prems(2,3) that] by simp
  moreover have "ring_view N (cl_head log) ((t + int (length (p # ps))) mod N) d =
      ring_view N (cl_head log) t (cl_data log) @ p # ps"
    using d(3) ring_view_snoc[OF N(1) Cons.prems(2,3) N(2,3) room N(4)] by (simp add: sum)
  moreover have "ring_offers (p # ps) t N log = Inr ((t + int (length (p # ps))) mod N, log\<lparr>cl_data := d\<rparr>)"
    using d(1) t(3) by (simp add: ring_offer_room[OF Cons.prems(1-3) room] guarded_def sum)
  ultimately show ?case using d(2) by blast
qed

lemma ring_offers_full:
  assumes "ring_wf N log" "0 \<le> t" "t < N" "N \<le> (t - cl_head log) mod N + int (length ps)"
  shows "ring_offers ps t N log = Inl (Exited (- 1))"
  using assms
proof (induction ps arbitrary: t log)
  case Nil
  then have "(t - cl_head log) mod N < N" by (simp add: ring_wf_def)
  with Nil show ?case by simp
next
  case (Cons p ps)
  show ?case
  proof (cases "(t + 1) mod N = cl_head log")
    case True
    then show ?thesis by (simp add: ring_offer_full[OF Cons.prems(1-3)] guarded_def)
  next
    case False
    have N: "0 < N" "0 \<le> cl_head log" "cl_head log < N" using Cons.prems(1) by (simp_all add: ring_wf_def)
    have "((t + 1) mod N - cl_head log) mod N = (t - cl_head log) mod N + 1"
      using mod_step[of N t "cl_head log"] False N by (simp add: mod_diff_left_eq)
    then have "ring_offers ps ((t + 1) mod N) N (log\<lparr>cl_data := (cl_data log)[nat t := p]\<rparr>) = Inl (Exited (- 1))"
      using Cons.IH[of "log\<lparr>cl_data := (cl_data log)[nat t := p]\<rparr>" "(t + 1) mod N"] Cons.prems N
      by (simp add: ring_wf_def)
    moreover have "(t + 1) mod N \<noteq> - 1" using N(1) pos_mod_sign[of N "t + 1"] by linarith
    ultimately show ?thesis by (simp add: ring_offer_room[OF Cons.prems(1-3) False] guarded_def)
  qed
qed

subsection \<open>Persisting, polling and popping\<close>

lemma mod_diff_zero:
  fixes a b N :: int
  shows "0 \<le> a \<Longrightarrow> a < N \<Longrightarrow> 0 \<le> b \<Longrightarrow> b < N \<Longrightarrow> (a - b) mod N = 0 \<longleftrightarrow> a = b"
  by (metis mod_eq_dvd_iff dvd_eq_mod_eq_0 mod_pos_pos_trivial)

lemma ring_walk_ends:
  assumes "0 \<le> old" "old < N" "0 \<le> new" "new < N" "(new - old) mod N \<le> int n"
  shows "\<exists>fs. ring_walk n b old new N = Inr fs"
  using assms
proof (induction n arbitrary: b old)
  case 0
  moreover have "0 \<le> (new - old) mod N" using 0 by simp
  ultimately have "old = new" using mod_diff_zero[of new N old] by simp
  then show ?case by simp
next
  case (Suc n)
  show ?case
  proof (cases "old = new")
    case False
    let ?old = "if old + 1 = N then 0 else old + 1"
    have "(new - old) mod N \<noteq> 0"
      using False Suc.prems mod_diff_zero[of new N old] by simp
    moreover have "(new - ?old) mod N = ((new - old) mod N - 1) mod N"
    proof -
      have "(new - ?old) mod N = (new - (old + 1)) mod N"
        unfolding ring_next[OF Suc.prems(1,2)] by (simp add: mod_diff_right_eq)
      then show ?thesis by (simp add: mod_diff_left_eq algebra_simps)
    qed
    moreover have "0 \<le> (new - old) mod N" "(new - old) mod N < N" using Suc.prems by simp_all
    ultimately have "(new - ?old) mod N \<le> int n" using Suc.prems(5) by simp
    then have "\<exists>fs. ring_walk n b' ?old new N = Inr fs" for b'
      using Suc.IH[of ?old b'] Suc.prems by auto
    then obtain f where "\<And>b'. ring_walk n b' ?old new N = Inr (f b')" by metis
    then show ?thesis using False by (cases "old + 1 = N") (auto simp: Let_def)
  qed simp
qed

lemma ring_persist_ok:
  assumes "ring_wf N log" "0 \<le> new" "new < N"
  shows "\<exists>fs. ring_persist log new N = Inr (fs, log\<lparr>cl_tail := new\<rparr>)"
proof -
  have "(new - cl_tail log) mod N \<le> int (nat N)" using assms(1) pos_mod_bound[THEN less_imp_le, of N "new - cl_tail log"]
    by (simp add: ring_wf_def)
  then obtain fs where "ring_walk (nat N) 0 (cl_tail log) new N = Inr fs"
    using ring_walk_ends[of "cl_tail log" N new "nat N" 0] assms by (auto simp: ring_wf_def)
  then show ?thesis by (simp add: ring_persist_def)
qed

lemma ring_view_length [simp]: "length (ring_view N h t d) = nat ((t - h) mod N)"
  by (simp add: ring_view_def)

lemma ring_list_length:
  assumes "ring_wf N log"
  shows "int (length (ring_list N log)) = (cl_tail log - cl_head log) mod N" "int (length (ring_list N log)) < N"
  using assms by (simp_all add: ring_list_def ring_wf_def)

lemma ring_append_room:
  assumes "ring_wf N log" "int (length (ring_list N log)) + int (length ps) < N"
  shows "runs (ring_append ps N log) (\<lambda>log'. ring_wf N log' \<and> ring_list N log' = ring_list N log @ ps
     \<and> cl_head log' = cl_head log)"
proof -
  have tail: "0 \<le> cl_tail log" "cl_tail log < N" "0 < N" using assms(1) by (simp_all add: ring_wf_def)
  let ?t = "(cl_tail log + int (length ps)) mod N"
  obtain d where d: "ring_offers ps (cl_tail log) N log = Inr (?t, log\<lparr>cl_data := d\<rparr>)" "int (length d) = N"
      "ring_view N (cl_head log) ?t d = ring_view N (cl_head log) (cl_tail log) (cl_data log) @ ps"
    using ring_offers_room[OF assms(1) tail(1,2)] assms by (auto simp: ring_list_length)
  have wf: "ring_wf N (log\<lparr>cl_data := d\<rparr>)" using assms(1) d(2) by (simp add: ring_wf_def)
  have t: "0 \<le> ?t" "?t < N" using tail(3) by simp_all
  then obtain fs where "ring_persist (log\<lparr>cl_data := d\<rparr>) ?t N = Inr (fs, log\<lparr>cl_data := d, cl_tail := ?t\<rparr>)"
    using ring_persist_ok[OF wf t] by auto
  then show ?thesis using wf t d by (simp add: ring_append_def ring_list_def ring_wf_def)
qed

lemma ring_append_full:
  assumes "ring_wf N log" "N \<le> int (length (ring_list N log)) + int (length ps)"
  shows "ring_append ps N log = Inl (Exited (- 1))"
  using ring_offers_full[OF assms(1), of "cl_tail log" ps] assms
  by (simp add: ring_append_def ring_list_length, simp add: ring_wf_def)

lemma ring_poll_batch_ok:
  assumes "ring_wf N log" "0 \<le> cnt" "cnt \<le> int (length (ring_list N log))"
  shows "ring_wf N (ring_poll_batch log cnt N)"
    "ring_list N (ring_poll_batch log cnt N) = drop (nat cnt) (ring_list N log)"
proof -
  let ?h = "(cl_head log + cnt) mod N"
  have N: "0 < N" "0 \<le> cl_head log" "cl_head log < N" using assms(1) by (simp_all add: ring_wf_def)
  have cnt: "cnt < N" using assms ring_list_length[OF assms(1)] by linarith
  then have eq: "ring_poll_batch log cnt N = log\<lparr>cl_head := ?h\<rparr>"
    using N assms(2) mod_pos_pos_trivial[of "cl_head log + cnt - N" N] by (auto simp: ring_poll_batch_def Let_def)
  show "ring_wf N (ring_poll_batch log cnt N)" using assms(1) N by (simp add: eq ring_wf_def)
  have "(cl_tail log - ?h) mod N = ((cl_tail log - cl_head log) mod N - cnt) mod N"
    by (simp add: mod_diff_right_eq mod_diff_left_eq algebra_simps)
  also have "\<dots> = (cl_tail log - cl_head log) mod N - cnt"
    using assms(2,3) ring_list_length[OF assms(1)] by (intro mod_pos_pos_trivial) linarith+
  finally have len: "nat ((cl_tail log - ?h) mod N) = nat ((cl_tail log - cl_head log) mod N) - nat cnt"
    using assms(2) by (simp add: nat_diff_distrib')
  have cell: "(?h + int k) mod N = (cl_head log + int (nat cnt + k)) mod N" for k
    using assms(2) mod_add_left_eq[of "cl_head log + cnt" N "int k"] by (simp add: algebra_simps)
  show "ring_list N (ring_poll_batch log cnt N) = drop (nat cnt) (ring_list N log)"
    unfolding eq ring_list_def ring_view_def
    by (rule nth_equalityI) (simp_all add: len cell)
qed

lemma ring_pop_ok:
  assumes "ring_wf N log" "ring_list N log \<noteq> []"
  shows "ring_wf N (ring_pop log N)" "ring_list N (ring_pop log N) = butlast (ring_list N log)"
proof -
  let ?t = "(cl_tail log - 1) mod N"
  have N: "0 < N" "0 \<le> cl_tail log" "cl_tail log < N" using assms(1) by (simp_all add: ring_wf_def)
  have eq: "ring_pop log N = log\<lparr>cl_tail := ?t\<rparr>"
    using N zmod_minus1[of N] by (auto simp: ring_pop_def)
  show "ring_wf N (ring_pop log N)" using assms(1) N by (simp add: eq ring_wf_def)
  have pos: "0 < (cl_tail log - cl_head log) mod N"
    using assms ring_list_length(1)[OF assms(1)] by (metis length_greater_0_conv of_nat_0_less_iff)
  have "(?t - cl_head log) mod N = ((cl_tail log - cl_head log) mod N - 1) mod N"
    by (simp add: mod_diff_left_eq algebra_simps)
  also have "\<dots> = (cl_tail log - cl_head log) mod N - 1"
    using pos pos_mod_bound[OF N(1), of "cl_tail log - cl_head log"] by (intro mod_pos_pos_trivial) linarith+
  finally have "nat ((?t - cl_head log) mod N) = nat ((cl_tail log - cl_head log) mod N) - 1" by simp
  then show "ring_list N (ring_pop log N) = butlast (ring_list N log)"
    by (simp add: eq ring_list_def ring_view_def butlast_conv_take take_map take_upt)
qed

lemma ring_poll_batch_one: "0 \<le> cl_head log \<Longrightarrow> cl_head log < N \<Longrightarrow> ring_poll log N = ring_poll_batch log 1 N"
  by (auto simp: ring_poll_def ring_poll_batch_def Let_def)

subsection \<open>The ring as a store of packets\<close>

datatype store_op = Offer "nat list" | Poll int | Pop

locale packet_store =
  fixes wf :: "'s \<Rightarrow> bool"
    and view :: "'s \<Rightarrow> nat list"
    and capacity :: int
    and append_all :: "nat list \<Rightarrow> 's \<Rightarrow> 's res"
    and poll :: "int \<Rightarrow> 's \<Rightarrow> 's"
    and pop :: "'s \<Rightarrow> 's"
  assumes append_fits: "wf s \<Longrightarrow> int (length (view s)) + int (length ps) < capacity \<Longrightarrow>
      runs (append_all ps s) (\<lambda>s'. wf s' \<and> view s' = view s @ ps)"
    and append_full: "wf s \<Longrightarrow> capacity \<le> int (length (view s)) + int (length ps) \<Longrightarrow>
      append_all ps s = Inl (Exited (- 1))"
    and poll_drops: "wf s \<Longrightarrow> 0 \<le> n \<Longrightarrow> n \<le> int (length (view s)) \<Longrightarrow>
      wf (poll n s) \<and> view (poll n s) = drop (nat n) (view s)"
    and pop_drops: "wf s \<Longrightarrow> view s \<noteq> [] \<Longrightarrow> wf (pop s) \<and> view (pop s) = butlast (view s)"
begin

fun run_op :: "store_op \<Rightarrow> 's \<Rightarrow> 's res" where
  "run_op (Offer ps) s = append_all ps s"
| "run_op (Poll n) s = Inr (poll n s)"
| "run_op Pop s = Inr (pop s)"

end

text \<open>The same operations on a bounded queue; an operation that asks for packets that are not there is
  not a call the library makes, and has no result.\<close>

fun queue_op :: "int \<Rightarrow> store_op \<Rightarrow> nat list \<Rightarrow> nat list res option" where
  "queue_op N (Offer ps) q = Some (if int (length q) + int (length ps) < N then Inr (q @ ps) else Inl (Exited (- 1)))"
| "queue_op N (Poll n) q = (if 0 \<le> n \<and> n \<le> int (length q) then Some (Inr (drop (nat n) q)) else None)"
| "queue_op N Pop q = (if q \<noteq> [] then Some (Inr (butlast q)) else None)"

primrec queue_ops :: "int \<Rightarrow> store_op list \<Rightarrow> nat list \<Rightarrow> nat list res option" where
  "queue_ops N [] q = Some (Inr q)"
| "queue_ops N (x # xs) q =
     (case queue_op N x q of None \<Rightarrow> None | Some (Inl e) \<Rightarrow> Some (Inl e) | Some (Inr q') \<Rightarrow> queue_ops N xs q')"

context packet_store
begin

lemma run_op_refines:
  assumes "wf s" "queue_op capacity x (view s) = Some r"
  shows "case r of Inl e \<Rightarrow> run_op x s = Inl e | Inr q \<Rightarrow> runs (run_op x s) (\<lambda>s'. wf s' \<and> view s' = q)"
  using assms append_fits append_full poll_drops pop_drops
  by (cases x) (auto split: if_splits)

lemma run_ops_refines:
  assumes "wf s" "queue_ops capacity xs (view s) = Some r"
  shows "case r of Inl e \<Rightarrow> foldres run_op xs s = Inl e
     | Inr q \<Rightarrow> runs (foldres run_op xs s) (\<lambda>s'. wf s' \<and> view s' = q)"
  using assms
proof (induction xs arbitrary: s)
  case Nil
  then show ?case by auto
next
  case (Cons x xs)
  then obtain r1 where r1: "queue_op capacity x (view s) = Some r1" by (auto split: option.splits)
  show ?case
  proof (cases r1)
    case (Inl e)
    then show ?thesis using run_op_refines[OF Cons.prems(1) r1] r1 Cons.prems(2) by auto
  next
    case (Inr q1)
    then obtain s1 where s1: "run_op x s = Inr s1" "wf s1" "view s1 = q1"
      using run_op_refines[OF Cons.prems(1) r1] by (auto simp: runs_iff)
    moreover have "queue_ops capacity xs q1 = Some r" using Cons.prems(2) r1 Inr by simp
    ultimately show ?thesis using Cons.IH[of s1] by (cases r) simp_all
  qed
qed

end

fun ring_op :: "int \<Rightarrow> store_op \<Rightarrow> circular_log \<Rightarrow> circular_log res" where
  "ring_op N (Offer ps) log = ring_append ps N log"
| "ring_op N (Poll n) log = Inr (ring_poll_batch log n N)"
| "ring_op N Pop log = Inr (ring_pop log N)"

interpretation ring: packet_store "ring_wf N" "ring_list N" N "\<lambda>ps. ring_append ps N"
  "\<lambda>n log. ring_poll_batch log n N" "\<lambda>log. ring_pop log N" for N
proof unfold_locales
  show "runs (ring_append ps N s) (\<lambda>s'. ring_wf N s' \<and> ring_list N s' = ring_list N s @ ps)"
    if "ring_wf N s" "int (length (ring_list N s)) + int (length ps) < N" for s ps
    using ring_append_room[OF that] by (rule sat_mono) simp
qed (simp_all add: ring_append_full ring_poll_batch_ok ring_pop_ok)

lemma ring_run_op: "ring.run_op N = ring_op N"
proof (intro ext)
  show "ring.run_op N x log = ring_op N x log" for x log by (cases x) simp_all
qed

definition ring4 :: circular_log where
  "ring4 = \<lparr>cl_head = 2, cl_tail = 3, cl_data = [0, 0, 7, 0]\<rparr>"

text \<open>C13. The persistent ring implements a bounded queue: any sequence of batch offers, batch polls and
  pops that the queue allows yields the packets the queue holds, across wrap-around, and it ends the
  process exactly when a batch does not leave one cell free.\<close>

theorem ring_refines_queue:
  assumes "ring_wf N log" "queue_ops N xs (ring_list N log) = Some r"
  shows "case r of Inl e \<Rightarrow> foldres (ring_op N) xs log = Inl e
     | Inr q \<Rightarrow> runs (foldres (ring_op N) xs log) (\<lambda>log'. ring_wf N log' \<and> ring_list N log' = q)"
  using ring.run_ops_refines[OF assms] unfolding ring_run_op .

theorem ring_refines_queue_witness:
  "runs (foldres (ring_op 4) [Offer [8, 9], Pop, Poll 1, Offer [5, 6]] ring4)
     (\<lambda>log'. ring_wf 4 log' \<and> ring_list 4 log' = [8, 5, 6])"
proof -
  have "queue_ops 4 [Offer [8, 9], Pop, Poll 1, Offer [5, 6]] (ring_list 4 ring4) = Some (Inr [8, 5, 6])"
    by code_simp
  moreover have "ring_wf 4 ring4" by (simp add: ring_wf_def ring4_def)
  ultimately show ?thesis using ring_refines_queue[of 4 ring4] by fastforce
qed

text \<open>C23. Offering is atomic with respect to a crash. The packets written behind the tail are not part
  of the ring until the tail is persisted: a batch that is interrupted after any number of offers
  leaves the contents as they were.\<close>

theorem ring_offers_invisible:
  assumes "ring_wf N log"
  shows "holds (ring_offers ps (cl_tail log) N log)
     (\<lambda>(t, log'). ring_wf N log' \<and> ring_list N log' = ring_list N log \<and> cl_tail log' = cl_tail log)"
proof (cases "(cl_tail log - cl_head log) mod N + int (length ps) < N")
  case True
  with assms show ?thesis
    using ring_offers_room[OF assms, of "cl_tail log" ps] by (auto simp: ring_wf_def ring_list_def)
next
  case False
  with assms show ?thesis
    using ring_offers_full[OF assms, of "cl_tail log" ps] by (auto simp: ring_wf_def)
qed

theorem ring_offers_invisible_witness:
  "runs (ring_offers [8, 9] (cl_tail ring4) 4 ring4)
     (\<lambda>(t, log'). ring_wf 4 log' \<and> ring_list 4 log' = [7] \<and> cl_data log' \<noteq> cl_data ring4)"
proof -
  have "holds (ring_offers [8, 9] (cl_tail ring4) 4 ring4)
     (\<lambda>(t, log'). ring_wf 4 log' \<and> ring_list 4 log' = ring_list 4 ring4 \<and> cl_tail log' = cl_tail ring4)"
    by (rule ring_offers_invisible) (simp add: ring_wf_def ring4_def)
  moreover have "runs (ring_offers [8, 9] (cl_tail ring4) 4 ring4) (\<lambda>(t, log'). cl_data log' \<noteq> cl_data ring4)"
    by code_simp
  moreover have "ring_list 4 ring4 = [7]" by code_simp
  ultimately show ?thesis by (auto simp: runs_iff)
qed



end
