(* ===== verification/BTreeLeaf.thy ===== *)
theory BTreeLeaf
  imports Prelude "HOL-Library.Multiset"
begin

text \<open>
  Leaf nodes of the persistent B+ tree, class \<open>leaf_node_t\<close> of
  pmemds/include/tree/btree/persistent_b_tree.h. A leaf keeps its entries unsorted in an array and two
  copies of an array of positions; the copy named by \<open>consistent_id\<close> lists the used positions in key
  order, the other one is scratch space for the next update. The number of slots is the parameter
  \<open>n\<close>, and \<open>dflt\<close> is the default-constructed entry. The assertions of the source are guards. Flushing
  and persisting do not change the modelled state.
\<close>

record leaf_entries =
  le_idxs :: "nat list"
  le_size :: nat

record ('k, 'v) leaf_node =
  lf_epoch :: nat
  lf_consistent_id :: nat
  lf_prev :: "nat option"
  lf_next :: "nat option"
  lf_entries :: "('k \<times> 'v) list"
  lf_v0 :: leaf_entries
  lf_v1 :: leaf_entries
  lf_p_consistent_id :: nat

definition leaf_entries_new :: "nat \<Rightarrow> leaf_entries" where
  "leaf_entries_new n = \<lparr>le_idxs = [0..<n], le_size = 0\<rparr>"

definition leaf_consistent :: "('k, 'v) leaf_node \<Rightarrow> leaf_entries" where
  "leaf_consistent l = (if lf_consistent_id l = 0 then lf_v0 l else lf_v1 l)"

definition leaf_working_copy :: "('k, 'v) leaf_node \<Rightarrow> leaf_entries" where
  "leaf_working_copy l = (if 1 - lf_consistent_id l = 0 then lf_v0 l else lf_v1 l)"

definition set_consistent :: "leaf_entries \<Rightarrow> ('k, 'v) leaf_node \<Rightarrow> ('k, 'v) leaf_node" where
  "set_consistent e l = (if lf_consistent_id l = 0 then l\<lparr>lf_v0 := e\<rparr> else l\<lparr>lf_v1 := e\<rparr>)"

definition set_working_copy :: "leaf_entries \<Rightarrow> ('k, 'v) leaf_node \<Rightarrow> ('k, 'v) leaf_node" where
  "set_working_copy e l = (if 1 - lf_consistent_id l = 0 then l\<lparr>lf_v0 := e\<rparr> else l\<lparr>lf_v1 := e\<rparr>)"

definition leaf_switch_consistent :: "('k, 'v) leaf_node \<Rightarrow> ('k, 'v) leaf_node" where
  "leaf_switch_consistent l =
     l\<lparr>lf_consistent_id := 1 - lf_consistent_id l, lf_p_consistent_id := 1 - lf_consistent_id l\<rparr>"

definition leaf_check_consistency :: "nat \<Rightarrow> ('k, 'v) leaf_node \<Rightarrow> ('k, 'v) leaf_node" where
  "leaf_check_consistency global_epoch l =
     (if global_epoch \<noteq> lf_epoch l
      then l\<lparr>lf_consistent_id := lf_p_consistent_id l, lf_epoch := global_epoch\<rparr> else l)"

definition leaf_size :: "('k, 'v) leaf_node \<Rightarrow> nat" where
  "leaf_size l = le_size (leaf_consistent l)"

definition leaf_full :: "nat \<Rightarrow> ('k, 'v) leaf_node \<Rightarrow> bool" where
  "leaf_full n l \<longleftrightarrow> leaf_size l = n"

text \<open>\<open>operator[]\<close>, and the entries between two iterators.\<close>

definition leaf_nth :: "('k, 'v) leaf_node \<Rightarrow> nat \<Rightarrow> ('k \<times> 'v) res" where
  "leaf_nth l pos =
     andthen (arr_get (le_idxs (leaf_consistent l)) (int pos)) (\<lambda>i. arr_get (lf_entries l) (int i))"

definition leaf_range :: "('k, 'v) leaf_node \<Rightarrow> nat \<Rightarrow> nat \<Rightarrow> ('k \<times> 'v) list res" where
  "leaf_range l lo hi =
     foldres (\<lambda>pos acc. andthen (leaf_nth l pos) (\<lambda>e. Inr (acc @ [e]))) [lo..<hi] []"

definition leaf_back :: "('k, 'v) leaf_node \<Rightarrow> ('k \<times> 'v) res" where
  "leaf_back l = andthen (arr_get (le_idxs (leaf_consistent l)) (int (leaf_size l) - 1)) (\<lambda>i. arr_get (lf_entries l) (int i))"

text \<open>\<open>std::lower_bound\<close>, \<open>std::is_sorted\<close> and \<open>std::merge\<close> on the sequences the source gives them. The
  first is only called on sorted sequences.\<close>

definition lower_bound :: "'k::linorder list \<Rightarrow> 'k \<Rightarrow> nat" where
  "lower_bound ks key = length (takeWhile (\<lambda>k. k < key) ks)"

definition is_sorted :: "('k::linorder \<times> 'v) list \<Rightarrow> bool" where
  "is_sorted es \<longleftrightarrow> sorted (map fst es)"

definition merge_one :: "('k::linorder \<times> 'v) list \<Rightarrow> 'k \<times> 'v \<Rightarrow> ('k \<times> 'v) list" where
  "merge_one es e = takeWhile (\<lambda>x. \<not> fst e < fst x) es @ e # dropWhile (\<lambda>x. \<not> fst e < fst x) es"

text \<open>The constructors.\<close>

definition leaf_node_new :: "nat \<Rightarrow> 'k \<times> 'v \<Rightarrow> nat \<Rightarrow> ('k, 'v) leaf_node" where
  "leaf_node_new n dflt e =
     \<lparr>lf_epoch = e, lf_consistent_id = 0, lf_prev = None, lf_next = None, lf_entries = replicate n dflt,
      lf_v0 = leaf_entries_new n, lf_v1 = leaf_entries_new n, lf_p_consistent_id = 0\<rparr>"

definition leaf_fill :: "('k, 'v) leaf_node \<Rightarrow> ('k \<times> 'v) list \<Rightarrow> ('k, 'v) leaf_node res" where
  "leaf_fill l es =
     andthen (arr_blit (lf_entries l) 0 es) (\<lambda>entries1.
     andthen (arr_blit (le_idxs (leaf_consistent l)) 0 [0..<length es]) (\<lambda>idxs1.
       Inr (set_consistent \<lparr>le_idxs = idxs1, le_size = length es\<rparr> (l\<lparr>lf_entries := entries1\<rparr>))))"

definition leaf_node_copy ::
  "nat \<Rightarrow> 'k::linorder \<times> 'v \<Rightarrow> nat \<Rightarrow> ('k, 'v) leaf_node \<Rightarrow> nat \<Rightarrow> nat \<Rightarrow> nat option \<Rightarrow> nat option \<Rightarrow> ('k, 'v) leaf_node res" where
  "leaf_node_copy n dflt e src lo hi prev nxt =
     andthen (leaf_range src lo hi) (\<lambda>es.
     guarded (length es \<le> n) Assert_failed
       (andthen (leaf_fill ((leaf_node_new n dflt e)\<lparr>lf_prev := prev, lf_next := nxt\<rparr>) es) (\<lambda>l.
        andthen (leaf_range l 0 (leaf_size l)) (\<lambda>es1.
        guarded (leaf_size l = hi - lo \<and> is_sorted es1) Assert_failed (Inr l)))))"

definition leaf_node_copy_insert ::
  "nat \<Rightarrow> 'k::linorder \<times> 'v \<Rightarrow> nat \<Rightarrow> 'k \<times> 'v \<Rightarrow> ('k, 'v) leaf_node \<Rightarrow> nat \<Rightarrow> nat \<Rightarrow> nat option \<Rightarrow> nat option \<Rightarrow>
     ('k, 'v) leaf_node res" where
  "leaf_node_copy_insert n dflt e entry src lo hi prev nxt =
     andthen (leaf_range src lo hi) (\<lambda>es.
     guarded (length es < n) Assert_failed
       (andthen (leaf_fill ((leaf_node_new n dflt e)\<lparr>lf_prev := prev, lf_next := nxt\<rparr>) (merge_one es entry)) (\<lambda>l.
        andthen (leaf_range l 0 (leaf_size l)) (\<lambda>es1.
        guarded (leaf_size l = hi - lo + 1 \<and> fst entry \<in> set (map fst es1) \<and> is_sorted es1)
          Assert_failed (Inr l)))))"

text \<open>Positions stand for iterators: \<open>leaf_size\<close> is the end.\<close>

definition leaf_find :: "('k::linorder, 'v) leaf_node \<Rightarrow> 'k \<Rightarrow> nat res" where
  "leaf_find l key =
     andthen (leaf_range l 0 (leaf_size l)) (\<lambda>es.
     guarded (is_sorted es) Assert_failed
       (let it = lower_bound (map fst es) key in
        if it = leaf_size l \<or> fst (es ! it) = key then Inr it else Inr (leaf_size l)))"

definition leaf_get_insert_idx :: "('k, 'v) leaf_node \<Rightarrow> nat res" where
  "leaf_get_insert_idx l = arr_get (le_idxs (leaf_consistent l)) (int (leaf_size l))"

definition leaf_insert_idx :: "('k, 'v) leaf_node \<Rightarrow> nat \<Rightarrow> nat \<Rightarrow> ('k, 'v) leaf_node res" where
  "leaf_insert_idx l new_entry_idx hint =
     (let size = leaf_size l; tmp = leaf_working_copy l in
      andthen (arr_slice (le_idxs (leaf_consistent l)) 0 (int hint)) (\<lambda>front.
      andthen (arr_slice (le_idxs (leaf_consistent l)) (int hint) (int (size - hint))) (\<lambda>rest.
      andthen (arr_blit (le_idxs tmp) 0 (front @ new_entry_idx # rest)) (\<lambda>idxs1.
        Inr (set_working_copy \<lparr>le_idxs = idxs1, le_size = size + 1\<rparr> l)))))"

definition leaf_remove_idx :: "('k, 'v) leaf_node \<Rightarrow> nat \<Rightarrow> ('k, 'v) leaf_node res" where
  "leaf_remove_idx l it =
     (let size = leaf_size l; tmp = leaf_working_copy l in
      andthen (arr_slice (le_idxs (leaf_consistent l)) 0 (int it)) (\<lambda>front.
      andthen (arr_slice (le_idxs (leaf_consistent l)) (int (it + 1)) (int (size - (it + 1)))) (\<lambda>rest.
      andthen (arr_get (le_idxs (leaf_consistent l)) (int it)) (\<lambda>out.
      andthen (arr_blit (le_idxs tmp) 0 (front @ rest @ [out])) (\<lambda>idxs1.
        Inr (set_working_copy \<lparr>le_idxs = idxs1, le_size = size - 1\<rparr> l))))))"

definition leaf_insert ::
  "nat \<Rightarrow> ('k::linorder, 'v) leaf_node \<Rightarrow> 'k \<times> 'v \<Rightarrow> (nat \<times> bool \<times> ('k, 'v) leaf_node) res" where
  "leaf_insert n l entry =
     guarded (\<not> leaf_full n l) Assert_failed
       (andthen (leaf_range l 0 (leaf_size l)) (\<lambda>es.
        let hint = lower_bound (map fst es) (fst entry) in
        if hint \<noteq> leaf_size l \<and> fst (es ! hint) = fst entry then Inr (hint, False, l)
        else
          andthen (leaf_get_insert_idx l) (\<lambda>insert_pos.
          guarded (insert_pos \<notin> set (take (leaf_size l) (le_idxs (leaf_consistent l)))) Assert_failed
            (andthen (arr_set (lf_entries l) (int insert_pos) entry) (\<lambda>entries1.
             andthen (leaf_insert_idx (l\<lparr>lf_entries := entries1\<rparr>) insert_pos hint) (\<lambda>l1.
             let l2 = leaf_switch_consistent l1 in
             andthen (leaf_range l2 0 (leaf_size l2)) (\<lambda>es2.
             guarded (is_sorted es2) Assert_failed (Inr (hint, True, l2)))))))))"

definition leaf_internal_erase :: "('k::linorder, 'v) leaf_node \<Rightarrow> nat \<Rightarrow> ('k, 'v) leaf_node res" where
  "leaf_internal_erase l it =
     andthen (leaf_remove_idx l it) (\<lambda>l1.
     let l2 = leaf_switch_consistent l1 in
     andthen (leaf_range l2 0 (leaf_size l2)) (\<lambda>es2.
     guarded (is_sorted es2) Assert_failed (Inr l2)))"

definition leaf_erase :: "('k::linorder, 'v) leaf_node \<Rightarrow> 'k \<Rightarrow> (nat \<times> ('k, 'v) leaf_node) res" where
  "leaf_erase l key =
     andthen (leaf_range l 0 (leaf_size l)) (\<lambda>es.
     guarded (is_sorted es) Assert_failed
       (andthen (leaf_find l key) (\<lambda>it.
        if it = leaf_size l then Inr (0, l)
        else andthen (leaf_internal_erase l it) (\<lambda>l1. Inr (1, l1)))))"

subsection \<open>The sorted list that a leaf represents\<close>

definition leaf_list :: "('k, 'v) leaf_node \<Rightarrow> ('k \<times> 'v) list" where
  "leaf_list l = map ((!) (lf_entries l)) (take (leaf_size l) (le_idxs (leaf_consistent l)))"

text \<open>The free positions. Every update switches the copies and changes the size by one, so the copy that
  holds position \<open>k\<close> of the free list is the consistent one exactly when \<open>k\<close> is at an even distance
  from the size.\<close>

definition leaf_free :: "nat \<Rightarrow> nat \<Rightarrow> nat list \<Rightarrow> nat list \<Rightarrow> nat list" where
  "leaf_free n s c w = map (\<lambda>k. if even (k - s) then c ! k else w ! k) [s..<n]"

definition leaf_wf :: "nat \<Rightarrow> ('k::linorder, 'v) leaf_node \<Rightarrow> bool" where
  "leaf_wf n l \<longleftrightarrow> lf_consistent_id l < 2 \<and> lf_p_consistent_id l = lf_consistent_id l
     \<and> length (lf_entries l) = n \<and> length (le_idxs (lf_v0 l)) = n \<and> length (le_idxs (lf_v1 l)) = n
     \<and> leaf_size l \<le> n
     \<and> mset (take (leaf_size l) (le_idxs (leaf_consistent l))
             @ leaf_free n (leaf_size l) (le_idxs (leaf_consistent l)) (le_idxs (leaf_working_copy l))) = mset [0..<n]
     \<and> sorted_wrt (<) (map fst (leaf_list l))"

named_theorems leaf_simps \<open>how the two copies of the positions are read and written\<close>

lemma leaf_copies [leaf_simps]:
  assumes "lf_consistent_id l < 2"
  shows "leaf_consistent (leaf_switch_consistent l) = leaf_working_copy l"
    "leaf_working_copy (leaf_switch_consistent l) = leaf_consistent l"
    "leaf_consistent (set_working_copy e l) = leaf_consistent l"
    "leaf_working_copy (set_working_copy e l) = e"
    "leaf_consistent (set_consistent e l) = e"
    "leaf_working_copy (set_consistent e l) = leaf_working_copy l"
  using assms
  by (auto simp: leaf_consistent_def leaf_working_copy_def leaf_switch_consistent_def set_working_copy_def
      set_consistent_def)

lemma leaf_entries_upd [leaf_simps]:
  "leaf_consistent (l\<lparr>lf_entries := es\<rparr>) = leaf_consistent l"
  "leaf_working_copy (l\<lparr>lf_entries := es\<rparr>) = leaf_working_copy l"
  "leaf_size (l\<lparr>lf_entries := es\<rparr>) = leaf_size l"
  "lf_consistent_id (set_working_copy e l) = lf_consistent_id l"
  "lf_entries (set_working_copy e l) = lf_entries l"
  "lf_entries (leaf_switch_consistent l) = lf_entries l"
  "lf_consistent_id (leaf_switch_consistent l) = 1 - lf_consistent_id l"
  "lf_p_consistent_id (leaf_switch_consistent l) = 1 - lf_consistent_id l"
  by (auto simp: leaf_consistent_def leaf_working_copy_def set_working_copy_def leaf_switch_consistent_def leaf_size_def)

lemma leaf_wfD:
  assumes "leaf_wf n l"
  shows "lf_consistent_id l < 2" "length (lf_entries l) = n" "leaf_size l \<le> n"
    "length (le_idxs (leaf_consistent l)) = n" "length (le_idxs (leaf_working_copy l)) = n"
    "sorted_wrt (<) (map fst (leaf_list l))" "length (leaf_list l) = leaf_size l"
    "set (take (leaf_size l) (le_idxs (leaf_consistent l))) \<subseteq> {..<n}"
    "distinct (take (leaf_size l) (le_idxs (leaf_consistent l)))"
proof -
  let ?u = "take (leaf_size l) (le_idxs (leaf_consistent l))"
  have m: "mset (?u @ leaf_free n (leaf_size l) (le_idxs (leaf_consistent l)) (le_idxs (leaf_working_copy l))) = mset [0..<n]"
    using assms by (simp add: leaf_wf_def)
  then have "distinct (?u @ leaf_free n (leaf_size l) (le_idxs (leaf_consistent l)) (le_idxs (leaf_working_copy l)))"
    by (metis distinct_upt mset_eq_imp_distinct_iff)
  then show "distinct ?u" by simp
  have "set ?u \<subseteq> set [0..<n]" using mset_eq_setD[OF m] by auto
  then show "set ?u \<subseteq> {..<n}" by (simp add: atLeast0LessThan)
qed (use assms in \<open>auto simp: leaf_wf_def leaf_consistent_def leaf_working_copy_def leaf_list_def\<close>)

lemma leaf_range_ok:
  assumes "leaf_wf n l" "hi \<le> leaf_size l"
  shows "leaf_range l lo hi = Inr (drop lo (take hi (leaf_list l)))"
proof -
  note wf = leaf_wfD[OF assms(1)]
  have nth: "leaf_nth l i = Inr (leaf_list l ! i)" if "i < leaf_size l" for i
  proof -
    have "le_idxs (leaf_consistent l) ! i < n" using wf(3,4,8) that by (auto simp: set_conv_nth subset_iff)
    then show ?thesis using that wf(2,3,4) by (simp add: leaf_nth_def leaf_list_def)
  qed
  have "foldres (\<lambda>pos acc. andthen (leaf_nth l pos) (\<lambda>e. Inr (acc @ [e]))) is acc = Inr (acc @ map ((!) (leaf_list l)) is)"
    if "set is \<subseteq> {..<leaf_size l}" for "is" acc
    using that by (induction "is" arbitrary: acc) (simp_all add: nth)
  moreover have "set [lo..<hi] \<subseteq> {..<leaf_size l}" using assms(2) by auto
  ultimately have "leaf_range l lo hi = Inr (map ((!) (leaf_list l)) [lo..<hi])"
    by (simp add: leaf_range_def)
  moreover have "map ((!) (leaf_list l)) [lo..<hi] = drop lo (take hi (leaf_list l))"
    using assms(2) wf(7) by (intro nth_equalityI) auto
  ultimately show ?thesis by simp
qed

lemma leaf_range_all: "leaf_wf n l \<Longrightarrow> leaf_range l 0 (leaf_size l) = Inr (leaf_list l)"
  by (simp add: leaf_range_ok leaf_wfD(7))

lemma strict_sorted_is_sorted: "sorted_wrt (<) (map fst es) \<Longrightarrow> is_sorted es"
  by (simp add: is_sorted_def strict_sorted_imp_sorted)

lemma lower_bound_le: "lower_bound ks key \<le> length ks"
  by (simp add: lower_bound_def length_takeWhile_le)

lemma lower_bound_before: "i < lower_bound ks key \<Longrightarrow> ks ! i < key"
  by (metis lower_bound_def nth_mem set_takeWhileD takeWhile_nth)

lemma lower_bound_at: "lower_bound ks key < length ks \<Longrightarrow> key \<le> ks ! lower_bound ks key"
  by (metis lower_bound_def nth_length_takeWhile not_le)

lemma lower_bound_from:
  assumes "sorted ks" "lower_bound ks key \<le> i" "i < length ks"
  shows "key \<le> ks ! i"
  using assms lower_bound_at[of ks key] sorted_nth_mono[of ks "lower_bound ks key" i] by (meson le_less_trans order_trans)

lemma lower_bound_unique:
  assumes "i \<le> length ks" "\<And>j. j < i \<Longrightarrow> ks ! j < key" "i < length ks \<Longrightarrow> key \<le> ks ! i"
  shows "lower_bound ks key = i"
proof (rule linorder_cases[of "lower_bound ks key" i])
  assume "lower_bound ks key < i"
  then show ?thesis using assms(1,2) lower_bound_at[of ks key] by (meson less_le_trans not_le)
next
  assume "i < lower_bound ks key"
  then show ?thesis using assms(3) lower_bound_before[of i ks key] lower_bound_le[of ks key] by (meson less_le_trans not_le)
qed

lemma lower_bound_found:
  assumes "sorted ks"
  shows "lower_bound ks key < length ks \<and> ks ! lower_bound ks key = key \<longleftrightarrow> key \<in> set ks"
proof
  assume "key \<in> set ks"
  then obtain i where i: "i < length ks" "ks ! i = key" by (auto simp: in_set_conv_nth)
  then have "lower_bound ks key \<le> i" using lower_bound_before[of i ks key] by (metis less_irrefl not_le)
  then show "lower_bound ks key < length ks \<and> ks ! lower_bound ks key = key"
    using i lower_bound_at[of ks key] sorted_nth_mono[OF assms, of "lower_bound ks key" i]
    by (metis antisym le_less_trans)
qed (metis nth_mem)

text \<open>The position that a search of a leaf returns.\<close>

lemma leaf_find_ok:
  assumes "leaf_wf n l"
  shows "leaf_find l key = Inr (if key \<in> fst ` set (leaf_list l) then lower_bound (map fst (leaf_list l)) key else leaf_size l)"
proof -
  note wf = leaf_wfD[OF assms]
  let ?ks = "map fst (leaf_list l)"
  have sorted: "sorted ?ks" using wf(6) by (rule strict_sorted_imp_sorted)
  have le: "lower_bound ?ks key \<le> leaf_size l" using lower_bound_le[of ?ks key] wf(7) by simp
  have "key \<in> fst ` set (leaf_list l) \<longleftrightarrow> lower_bound ?ks key < leaf_size l \<and> fst (leaf_list l ! lower_bound ?ks key) = key"
    using lower_bound_found[OF sorted, of key] wf(7) by (auto simp: image_iff)
  then show ?thesis
    using le leaf_range_all[OF assms] strict_sorted_is_sorted[OF wf(6)]
    by (auto simp: leaf_find_def guarded_def Let_def)
qed

subsection \<open>Insertion and removal\<close>

lemma leaf_free_Cons: "s < n \<Longrightarrow> leaf_free n s c w = c ! s # leaf_free n (Suc s) w c"
  by (auto simp: leaf_free_def upt_conv_Cons Suc_diff_le)

lemma leaf_free_cong:
  "(\<And>k. s \<le> k \<Longrightarrow> k < n \<Longrightarrow> c ! k = c' ! k) \<Longrightarrow> (\<And>k. s < k \<Longrightarrow> k < n \<Longrightarrow> w ! k = w' ! k) \<Longrightarrow>
     leaf_free n s c w = leaf_free n s c' w'"
  unfolding leaf_free_def by (rule map_cong) (auto simp: le_less)

lemma map_insert_at: "map f (take h u @ x # drop h u) = take h (map f u) @ f x # drop h (map f u)"
  by (simp add: take_map drop_map)

lemma mset_insert_at: "mset (take h u @ x # drop h u @ f) = mset (u @ x # f)"
proof -
  have "mset (take h u) + mset (drop h u) = mset u" by (metis append_take_drop_id mset_append)
  then show ?thesis by (simp add: union_assoc[symmetric])
qed

lemma mset_remove_at:
  assumes "i < length u"
  shows "mset (take i u @ drop (Suc i) u @ u ! i # f) = mset (u @ f)"
proof -
  have "mset u = mset (take i u) + add_mset (u ! i) (mset (drop (Suc i) u))"
    using arg_cong[OF id_take_nth_drop[OF assms], of mset] by simp
  then show ?thesis by (simp add: union_assoc)
qed

lemma leaf_order_insert:
  assumes "length c = n" "length w = n" "s < n" "h \<le> s"
    and "mset (take s c @ leaf_free n s c w) = mset [0..<n]"
    and "w' = take h c @ c ! s # drop h (take s c) @ drop (Suc s) w"
  shows "mset (take (Suc s) w' @ leaf_free n (Suc s) w' c) = mset [0..<n]"
    "take (Suc s) w' = take h (take s c) @ c ! s # drop h (take s c)" "length w' = n"
    "c ! s < n" "c ! s \<notin> set (take s c)"
proof -
  show len: "length w' = n" using assms by simp
  show used: "take (Suc s) w' = take h (take s c) @ c ! s # drop h (take s c)"
    using assms by (simp add: min_def Suc_diff_le)
  have all: "mset (take s c @ c ! s # leaf_free n (Suc s) w c) = mset [0..<n]"
    using assms(5) by (simp only: leaf_free_Cons[OF assms(3)])
  have "w' ! k = w ! k" if "Suc s \<le> k" "k < n" for k
    using assms that by (auto simp: nth_append nth_Cons' min_def)
  then have "leaf_free n (Suc s) w' c = leaf_free n (Suc s) w c" by (intro leaf_free_cong) auto
  then show "mset (take (Suc s) w' @ leaf_free n (Suc s) w' c) = mset [0..<n]"
    using all mset_insert_at[of h "take s c" "c ! s" "leaf_free n (Suc s) w c"] by (simp only: used append.simps append_assoc)
  have "distinct (take s c @ c ! s # leaf_free n (Suc s) w c)"
    using mset_eq_imp_distinct_iff[OF all] by simp
  moreover have "set (take s c @ c ! s # leaf_free n (Suc s) w c) = {0..<n}"
    using mset_eq_setD[OF all] by (metis set_upt)
  ultimately
  show "c ! s < n" "c ! s \<notin> set (take s c)" by auto
qed

lemma leaf_order_remove:
  assumes "length c = n" "length w = n" "s \<le> n" "i < s"
    and "mset (take s c @ leaf_free n s c w) = mset [0..<n]"
    and "w' = take i c @ drop (Suc i) (take s c) @ c ! i # drop s w"
  shows "mset (take (s - 1) w' @ leaf_free n (s - 1) w' c) = mset [0..<n]"
    "take (s - 1) w' = take i (take s c) @ drop (Suc i) (take s c)" "length w' = n"
proof -
  show len: "length w' = n" using assms by simp
  show used: "take (s - 1) w' = take i (take s c) @ drop (Suc i) (take s c)"
    using assms by (cases "i = s - 1") (auto simp: min_def)
  have at: "w' ! (s - 1) = c ! i" using assms by (auto simp: nth_append min_def)
  have "w' ! k = w ! k" if "s \<le> k" "k < n" for k
    using assms that by (auto simp: nth_append nth_Cons' min_def)
  then have free: "leaf_free n s c w' = leaf_free n s c w" by (intro leaf_free_cong) auto
  have "leaf_free n (s - 1) w' c = c ! i # leaf_free n s c w"
    using leaf_free_Cons[of "s - 1" n w' c] assms(3,4) at free by simp
  moreover have "take s c ! i = c ! i" "i < length (take s c)" using assms(1,3,4) by simp_all
  ultimately show "mset (take (s - 1) w' @ leaf_free n (s - 1) w' c) = mset [0..<n]"
    using assms(5) mset_remove_at[of i "take s c" "leaf_free n s c w"] by (simp only: used append.simps append_assoc)
qed

lemma sorted_insert_at:
  assumes "sorted_wrt (<) ks" "key \<notin> set ks"
  shows "sorted_wrt (<) (take (lower_bound ks key) ks @ key # drop (lower_bound ks key) ks)"
proof -
  let ?h = "lower_bound ks key"
  have before: "x < key" if "x \<in> set (take ?h ks)" for x
    using that lower_bound_before[of _ ks key] by (auto simp: in_set_conv_nth)
  have after: "key < x" if "x \<in> set (drop ?h ks)" for x
  proof -
    from that obtain i where "i < length ks - ?h" "ks ! (?h + i) = x" by (auto simp: in_set_conv_nth)
    then have "key \<le> x" using lower_bound_from[OF strict_sorted_imp_sorted[OF assms(1)], of key "?h + i"] by auto
    moreover have "x \<in> set ks" using that by (rule in_set_dropD)
    ultimately show "key < x" using assms(2) by (auto simp: le_less)
  qed
  have "sorted_wrt (<) (take ?h ks)" "sorted_wrt (<) (drop ?h ks)"
    using assms(1) by (simp_all add: sorted_wrt_take sorted_wrt_drop)
  with before after show ?thesis by (fastforce simp: sorted_wrt_append)
qed

definition leaf_frame :: "('k, 'v) leaf_node \<Rightarrow> ('k, 'v) leaf_node \<Rightarrow> bool" where
  "leaf_frame l l' \<longleftrightarrow> lf_epoch l' = lf_epoch l \<and> lf_prev l' = lf_prev l \<and> lf_next l' = lf_next l"

lemma leaf_frame_ops [leaf_simps]:
  "leaf_frame l (leaf_switch_consistent (set_working_copy e (l\<lparr>lf_entries := es\<rparr>)))"
  "leaf_frame l (leaf_switch_consistent (set_working_copy e l))"
  by (simp_all add: leaf_frame_def leaf_switch_consistent_def set_working_copy_def)

text \<open>A leaf whose scratch copy has been filled and switched to.\<close>

lemma leaf_commit_wf:
  assumes "leaf_wf n l" "length es = n" "length w' = n" "s' \<le> n"
    and "mset (take s' w' @ leaf_free n s' w' (le_idxs (leaf_consistent l))) = mset [0..<n]"
    and "l' = leaf_switch_consistent (set_working_copy \<lparr>le_idxs = w', le_size = s'\<rparr> (l\<lparr>lf_entries := es\<rparr>))"
    and "sorted_wrt (<) (map fst (map ((!) es) (take s' w')))"
  shows "leaf_wf n l'" "leaf_list l' = map ((!) es) (take s' w')" "leaf_size l' = s'"
proof -
  note wf = leaf_wfD[OF assms(1)]
  have id: "lf_consistent_id (set_working_copy \<lparr>le_idxs = w', le_size = s'\<rparr> (l\<lparr>lf_entries := es\<rparr>)) < 2"
    "lf_consistent_id (l\<lparr>lf_entries := es\<rparr>) < 2"
    using wf(1) by (simp_all add: leaf_simps)
  have c: "leaf_consistent l' = \<lparr>le_idxs = w', le_size = s'\<rparr>" "leaf_working_copy l' = leaf_consistent l" "lf_entries l' = es"
    using id by (simp_all add: assms(6) leaf_copies leaf_entries_upd)
  show "leaf_size l' = s'" by (simp add: leaf_size_def c)
  then show list: "leaf_list l' = map ((!) es) (take s' w')" by (simp add: leaf_list_def c)
  have "length (le_idxs (lf_v0 l')) = n" "length (le_idxs (lf_v1 l')) = n"
    using assms(1,3) wf(4,5)
    by (auto simp: assms(6) leaf_switch_consistent_def set_working_copy_def leaf_consistent_def leaf_working_copy_def leaf_wf_def)
  moreover have "lf_consistent_id l' < 2" "lf_p_consistent_id l' = lf_consistent_id l'"
    by (simp_all add: assms(6) leaf_entries_upd)
  ultimately show "leaf_wf n l'"
    unfolding leaf_wf_def list c \<open>leaf_size l' = s'\<close> using assms(2,4,5,7) by simp
qed

lemma leaf_insert_found:
  assumes "leaf_wf n l" "leaf_size l < n" "fst e \<in> fst ` set (leaf_list l)"
  shows "leaf_insert n l e = Inr (lower_bound (map fst (leaf_list l)) (fst e), False, l)"
proof -
  have "sorted (map fst (leaf_list l))" using leaf_wfD(6)[OF assms(1)] by (rule strict_sorted_imp_sorted)
  from lower_bound_found[OF this, of "fst e"] show ?thesis
    using assms by (auto simp: leaf_insert_def leaf_full_def guarded_def leaf_range_all leaf_wfD(7) Let_def)
qed

lemma leaf_insert_new:
  assumes "leaf_wf n l" "leaf_size l < n" "fst e \<notin> fst ` set (leaf_list l)"
    and "h = lower_bound (map fst (leaf_list l)) (fst e)"
  shows "runs (leaf_insert n l e) (\<lambda>(pos, new, l'). pos = h \<and> new \<and> leaf_wf n l'
     \<and> leaf_list l' = take h (leaf_list l) @ e # drop h (leaf_list l) \<and> leaf_frame l l')"
proof -
  note wf = leaf_wfD[OF assms(1)]
  let ?c = "le_idxs (leaf_consistent l)" and ?w = "le_idxs (leaf_working_copy l)" and ?s = "leaf_size l"
  let ?p = "?c ! ?s" and ?es = "(lf_entries l)[?c ! ?s := e]"
  let ?w' = "take h ?c @ ?c ! ?s # drop h (take ?s ?c) @ drop (Suc ?s) ?w"
  have h: "h \<le> ?s" using lower_bound_le[of "map fst (leaf_list l)" "fst e"] assms(4) wf(7) by simp
  have all: "mset (take ?s ?c @ leaf_free n ?s ?c ?w) = mset [0..<n]" using assms(1) by (simp add: leaf_wf_def)
  note order = leaf_order_insert[OF wf(4,5) assms(2) h all refl]
  let ?l' = "leaf_switch_consistent (set_working_copy \<lparr>le_idxs = ?w', le_size = Suc ?s\<rparr> (l\<lparr>lf_entries := ?es\<rparr>))"
  have old: "map ((!) ?es) (take ?s ?c) = leaf_list l"
    unfolding leaf_list_def using order(5) by (intro map_cong refl nth_list_update_neq) auto
  have list: "map ((!) ?es) (take (Suc ?s) ?w') = take h (leaf_list l) @ e # drop h (leaf_list l)"
    unfolding order(2) map_insert_at old using order(4) wf(2) by simp
  have sorted: "sorted_wrt (<) (map fst (map ((!) ?es) (take (Suc ?s) ?w')))"
    unfolding list using sorted_insert_at[OF wf(6), of "fst e"] assms(3,4) by (simp add: take_map drop_map)
  have len: "length ?es = n" using wf(2) by simp
  note commit = leaf_commit_wf[OF assms(1) len order(3) Suc_leI[OF assms(2)] order(1) refl sorted]
  have idx: "leaf_insert_idx (l\<lparr>lf_entries := ?es\<rparr>) ?p h =
      Inr (set_working_copy \<lparr>le_idxs = ?w', le_size = Suc ?s\<rparr> (l\<lparr>lf_entries := ?es\<rparr>))"
    using h assms(2) wf(4,5)
    by (simp add: leaf_insert_idx_def leaf_entries_upd Let_def drop_take nat_diff_distrib)
  have absent: "\<not> (h \<noteq> ?s \<and> fst (leaf_list l ! h) = fst e)"
    using assms(3) h wf(7) by (auto simp: image_iff) (metis le_neq_implies_less nth_mem)
  have "leaf_insert n l e = Inr (h, True, ?l')"
    unfolding leaf_insert_def leaf_range_all[OF assms(1)] leaf_get_insert_idx_def Let_def andthen_simps
      assms(4)[symmetric] if_not_P[OF absent]
    using idx order(4,5) assms(2) wf(2,4) leaf_range_all[OF commit(1)] commit(2) strict_sorted_is_sorted[OF leaf_wfD(6)[OF commit(1)]]
    by (simp add: guarded_def leaf_full_def)
  then show ?thesis using commit(1) list by (simp add: commit(2) leaf_frame_ops)
qed

lemma filter_strict_sorted:
  assumes "sorted_wrt (<) (map fst (xs @ x # ys))"
  shows "filter (\<lambda>e. fst e \<noteq> fst x) (xs @ x # ys) = xs @ (ys :: ('k::linorder \<times> 'v) list)"
proof -
  have "filter (\<lambda>e. fst e \<noteq> fst x) xs = xs" "filter (\<lambda>e. fst e \<noteq> fst x) ys = ys"
    using assms by (fastforce intro!: filter_True simp: sorted_wrt_append)+
  then show ?thesis by simp
qed

lemma leaf_erase_ok:
  assumes "leaf_wf n l"
  shows "runs (leaf_erase l key) (\<lambda>(cnt, l'). leaf_wf n l' \<and> leaf_frame l l'
     \<and> cnt = (if key \<in> fst ` set (leaf_list l) then 1 else 0)
     \<and> leaf_list l' = filter (\<lambda>e. fst e \<noteq> key) (leaf_list l))"
proof (cases "key \<in> fst ` set (leaf_list l)")
  case False
  then have "filter (\<lambda>e. fst e \<noteq> key) (leaf_list l) = leaf_list l" by (intro filter_True) auto
  with False show ?thesis
    using assms leaf_range_all[OF assms] strict_sorted_is_sorted[OF leaf_wfD(6)[OF assms]]
    by (simp add: leaf_erase_def guarded_def leaf_find_ok leaf_frame_def)
next
  case True
  note wf = leaf_wfD[OF assms]
  let ?c = "le_idxs (leaf_consistent l)" and ?w = "le_idxs (leaf_working_copy l)" and ?s = "leaf_size l"
  let ?i = "lower_bound (map fst (leaf_list l)) key"
  let ?w' = "take ?i ?c @ drop (Suc ?i) (take ?s ?c) @ ?c ! ?i # drop ?s ?w"
  have i: "?i < ?s" "fst (leaf_list l ! ?i) = key"
    using lower_bound_found[OF strict_sorted_imp_sorted[OF wf(6)], of key] True wf(7) by auto
  have all: "mset (take ?s ?c @ leaf_free n ?s ?c ?w) = mset [0..<n]" using assms by (simp add: leaf_wf_def)
  note order = leaf_order_remove[OF wf(4,5,3) i(1) all refl]
  have split: "leaf_list l = take ?i (leaf_list l) @ leaf_list l ! ?i # drop (Suc ?i) (leaf_list l)"
    using i(1) wf(7) by (simp add: id_take_nth_drop)
  have list: "map ((!) (lf_entries l)) (take (?s - 1) ?w') = take ?i (leaf_list l) @ drop (Suc ?i) (leaf_list l)"
    unfolding order(2) by (simp add: leaf_list_def take_map drop_map)
  have strict: "sorted_wrt (<) (map fst (take ?i (leaf_list l)) @ key # map fst (drop (Suc ?i) (leaf_list l)))"
    using wf(6) i(2) by (subst (asm) split) simp
  then have sorted: "sorted_wrt (<) (map fst (map ((!) (lf_entries l)) (take (?s - 1) ?w')))"
    unfolding list by (simp add: sorted_wrt_append)
  have "filter (\<lambda>e. fst e \<noteq> key) (leaf_list l) = take ?i (leaf_list l) @ drop (Suc ?i) (leaf_list l)"
    using filter_strict_sorted[of "take ?i (leaf_list l)" "leaf_list l ! ?i" "drop (Suc ?i) (leaf_list l)"] wf(6) i(2)
    by (simp flip: split)
  moreover have idx: "leaf_remove_idx l ?i = Inr (set_working_copy \<lparr>le_idxs = ?w', le_size = ?s - 1\<rparr> l)"
  proof -
    have "nat (1 + int ?i) = Suc ?i" by simp
    then show ?thesis using i(1) wf(3,4,5) by (simp add: leaf_remove_idx_def Let_def drop_take nat_diff_distrib)
  qed
  moreover have "l\<lparr>lf_entries := lf_entries l\<rparr> = l" by simp
  moreover note commit = leaf_commit_wf[OF assms wf(2) order(3) _ order(1) refl sorted]
  ultimately show ?thesis
    using True i(1) wf(3) leaf_range_all[OF assms] strict_sorted_is_sorted[OF wf(6)] list
      leaf_range_all[OF commit(1)] strict_sorted_is_sorted[OF leaf_wfD(6)[OF commit(1)]] commit
    by (simp add: leaf_erase_def guarded_def leaf_find_ok[OF assms] leaf_internal_erase_def Let_def leaf_frame_ops)
qed

subsection \<open>Fresh leaves\<close>

lemma leaf_free_id: "leaf_free n s [0..<n] [0..<n] = [s..<n]"
  unfolding leaf_free_def by (rule nth_equalityI) auto

lemma leaf_order_id:
  assumes "s \<le> n"
  shows "mset (take s [0..<n] @ leaf_free n s [0..<n] [0..<n]) = mset [0..<n]"
proof -
  have "take s [0..<n] @ leaf_free n s [0..<n] [0..<n] = [0..<n]"
    unfolding leaf_free_id using assms upt_add_eq_append[of 0 s "n - s"] by simp
  then show ?thesis by (simp only:)
qed

definition fresh_leaf ::
  "nat \<Rightarrow> 'k \<times> 'v \<Rightarrow> nat \<Rightarrow> nat option \<Rightarrow> nat option \<Rightarrow> ('k \<times> 'v) list \<Rightarrow> ('k, 'v) leaf_node" where
  "fresh_leaf n dflt e p q es = \<lparr>lf_epoch = e, lf_consistent_id = 0, lf_prev = p, lf_next = q,
     lf_entries = es @ replicate (n - length es) dflt, lf_v0 = \<lparr>le_idxs = [0..<n], le_size = length es\<rparr>,
     lf_v1 = leaf_entries_new n, lf_p_consistent_id = 0\<rparr>"

lemma leaf_node_new_eq: "leaf_node_new n dflt e = fresh_leaf n dflt e None None []"
  by (simp add: leaf_node_new_def fresh_leaf_def leaf_entries_new_def)

lemma leaf_fill_ok:
  assumes "length es \<le> n"
  shows "leaf_fill ((leaf_node_new n dflt e)\<lparr>lf_prev := p, lf_next := q\<rparr>) es = Inr (fresh_leaf n dflt e p q es)"
proof -
  have "[0..<length es] @ drop (length es) [0..<n] = [0..<n]"
    using assms upt_add_eq_append[of 0 "length es" "n - length es"] by simp
  with assms show ?thesis
    by (simp add: leaf_fill_def leaf_node_new_def fresh_leaf_def leaf_entries_new_def leaf_consistent_def set_consistent_def)
qed

lemma fresh_leaf_list [simp]:
  "length es \<le> n \<Longrightarrow> leaf_list (fresh_leaf n dflt e p q es) = es"
  "leaf_size (fresh_leaf n dflt e p q es) = length es"
  "lf_epoch (fresh_leaf n dflt e p q es) = e" "lf_prev (fresh_leaf n dflt e p q es) = p"
  "lf_next (fresh_leaf n dflt e p q es) = q"
proof -
  show "leaf_list (fresh_leaf n dflt e p q es) = es" if "length es \<le> n"
    using that unfolding leaf_list_def
    by (intro nth_equalityI) (auto simp: fresh_leaf_def leaf_size_def leaf_consistent_def nth_append)
qed (simp_all add: fresh_leaf_def leaf_size_def leaf_consistent_def)

lemma fresh_leaf_wf:
  assumes "length es \<le> n" "sorted_wrt (<) (map fst es)"
  shows "leaf_wf n (fresh_leaf n dflt e p q es)"
proof -
  have "leaf_consistent (fresh_leaf n dflt e p q es) = \<lparr>le_idxs = [0..<n], le_size = length es\<rparr>"
    "leaf_working_copy (fresh_leaf n dflt e p q es) = leaf_entries_new n"
    "lf_consistent_id (fresh_leaf n dflt e p q es) = 0" "lf_p_consistent_id (fresh_leaf n dflt e p q es) = 0"
    "lf_v0 (fresh_leaf n dflt e p q es) = \<lparr>le_idxs = [0..<n], le_size = length es\<rparr>"
    "lf_v1 (fresh_leaf n dflt e p q es) = leaf_entries_new n"
    "length (lf_entries (fresh_leaf n dflt e p q es)) = n"
    using assms(1) by (simp_all add: fresh_leaf_def leaf_consistent_def leaf_working_copy_def)
  then show ?thesis
    using assms leaf_order_id[OF assms(1)] unfolding leaf_wf_def fresh_leaf_list(1)[OF assms(1)] fresh_leaf_list(2)
    by (simp add: leaf_entries_new_def)
qed

lemma leaf_node_copy_ok:
  assumes "leaf_wf m src" "lo \<le> hi" "hi \<le> leaf_size src" "hi - lo \<le> n" "es = drop lo (take hi (leaf_list src))"
  shows "leaf_node_copy n dflt e src lo hi p q = Inr (fresh_leaf n dflt e p q es)"
    "leaf_wf n (fresh_leaf n dflt e p q es)" "length es = hi - lo"
proof -
  show len: "length es = hi - lo" using assms leaf_wfD(7)[OF assms(1)] by simp
  have sorted: "sorted_wrt (<) (map fst es)"
    using leaf_wfD(6)[OF assms(1)] by (simp add: assms(5) drop_map[symmetric] take_map[symmetric] sorted_wrt_take sorted_wrt_drop)
  show wf: "leaf_wf n (fresh_leaf n dflt e p q es)" using fresh_leaf_wf[OF _ sorted] len assms(4) by simp
  show "leaf_node_copy n dflt e src lo hi p q = Inr (fresh_leaf n dflt e p q es)"
    using assms(4) len leaf_range_all[OF wf] strict_sorted_is_sorted[OF sorted]
    unfolding leaf_node_copy_def leaf_range_ok[OF assms(1,3)] assms(5)[symmetric]
    by (simp add: guarded_def leaf_fill_ok)
qed

lemma merge_one_eq:
  assumes "sorted_wrt (<) (map fst es)" "fst e \<notin> fst ` set es"
  shows "merge_one es e = take (lower_bound (map fst es) (fst e)) es @ e # drop (lower_bound (map fst es) (fst e)) es"
proof -
  have cmp: "\<not> fst e < fst x \<longleftrightarrow> fst x < fst e" if "x \<in> set es" for x
    using assms(2) that by (metis image_eqI not_less_iff_gr_or_eq)
  have "takeWhile (\<lambda>x. \<not> fst e < fst x) es = takeWhile (\<lambda>x. fst x < fst e) es"
    using cmp by (intro takeWhile_cong) auto
  moreover have "dropWhile (\<lambda>x. \<not> fst e < fst x) es = dropWhile (\<lambda>x. fst x < fst e) es"
    using cmp by (intro dropWhile_cong) auto
  moreover have "lower_bound (map fst es) (fst e) = length (takeWhile (\<lambda>x. fst x < fst e) es)"
    by (simp add: lower_bound_def takeWhile_map comp_def)
  ultimately show ?thesis
    by (simp add: merge_one_def takeWhile_eq_take[symmetric] dropWhile_eq_drop[symmetric])
qed

lemma leaf_node_copy_insert_ok:
  assumes "leaf_wf m src" "lo \<le> hi" "hi \<le> leaf_size src" "hi - lo < n" "es = drop lo (take hi (leaf_list src))"
    and "fst entry \<notin> fst ` set es" "h = lower_bound (map fst es) (fst entry)"
    and "es' = take h es @ entry # drop h es"
  shows "leaf_node_copy_insert n dflt e entry src lo hi p q = Inr (fresh_leaf n dflt e p q es')"
    "leaf_wf n (fresh_leaf n dflt e p q es')" "length es' = hi - lo + 1" "sorted_wrt (<) (map fst es')"
proof -
  have len: "length es = hi - lo" using assms(2,3,5) leaf_wfD(7)[OF assms(1)] by simp
  have sorted: "sorted_wrt (<) (map fst es)"
    using leaf_wfD(6)[OF assms(1)] by (simp add: assms(5) drop_map[symmetric] take_map[symmetric] sorted_wrt_take sorted_wrt_drop)
  have merge: "merge_one es entry = es'" using merge_one_eq[OF sorted assms(6)] assms(7,8) by simp
  show sorted': "sorted_wrt (<) (map fst es')"
    using sorted_insert_at[OF sorted, of "fst entry"] assms(6,7,8) by (simp add: take_map drop_map)
  have h: "h \<le> length es" using lower_bound_le[of "map fst es" "fst entry"] assms(7) by simp
  then show len': "length es' = hi - lo + 1" using len assms(8) by simp
  show wf: "leaf_wf n (fresh_leaf n dflt e p q es')" using fresh_leaf_wf[OF _ sorted'] len' assms(4) by simp
  show "leaf_node_copy_insert n dflt e entry src lo hi p q = Inr (fresh_leaf n dflt e p q es')"
    using assms(4) len len' leaf_range_all[OF wf] strict_sorted_is_sorted[OF sorted']
    unfolding leaf_node_copy_insert_def leaf_range_ok[OF assms(1,3)] assms(5)[symmetric]
    by (simp add: guarded_def leaf_fill_ok merge) (simp add: assms(8))
qed

lemma leaf_back_ok:
  assumes "leaf_wf n l" "leaf_list l \<noteq> []"
  shows "leaf_back l = Inr (last (leaf_list l))"
proof -
  note wf = leaf_wfD[OF assms(1)]
  have pos: "0 < leaf_size l" using assms(2) wf(7) by (metis length_greater_0_conv)
  then have "le_idxs (leaf_consistent l) ! (leaf_size l - 1) \<in> set (take (leaf_size l) (le_idxs (leaf_consistent l)))"
    using wf(3,4) by (auto simp: in_set_conv_nth intro!: exI[of _ "leaf_size l - 1"])
  then have "le_idxs (leaf_consistent l) ! (leaf_size l - 1) < n" using wf(8) by auto
  moreover have "last (leaf_list l) = lf_entries l ! (le_idxs (leaf_consistent l) ! (leaf_size l - 1))"
    using assms(2) pos wf(3,4,7) by (simp add: last_conv_nth, simp add: leaf_list_def)
  ultimately show ?thesis using pos wf(2,3,4) by (simp add: leaf_back_def nat_diff_distrib)
qed

lemma leaf_check_consistency_ok:
  assumes "leaf_wf n l"
  shows "leaf_wf n (leaf_check_consistency ep l)" "leaf_list (leaf_check_consistency ep l) = leaf_list l"
    "lf_prev (leaf_check_consistency ep l) = lf_prev l" "lf_next (leaf_check_consistency ep l) = lf_next l"
    "leaf_size (leaf_check_consistency ep l) = leaf_size l" "lf_epoch (leaf_check_consistency ep l) = ep"
  using assms
  by (auto simp: leaf_check_consistency_def leaf_wf_def leaf_list_def leaf_size_def leaf_consistent_def leaf_working_copy_def)

end
