(* ===== verification/BTree.thy ===== *)
theory BTree
  imports BTreeLeaf
begin

text \<open>
  Inner nodes and operations of the persistent B+ tree, classes \<open>inner_node_t\<close>, \<open>b_tree_iterator\<close> and
  \<open>b_tree_base\<close> of pmemds/include/tree/btree/persistent_b_tree.h. The memory pool is a map from addresses
  to nodes; a null pointer is \<open>None\<close>, and following a pointer to a freed node is undefined behaviour.
  The record of the tree carries the template arguments (the number of entry slots, which is the degree
  minus one, and the default-constructed entry) besides the members of the class. The loops that walk
  down the tree get one round of fuel per level of the root.
\<close>

subsection \<open>Inner nodes\<close>

record 'k inner_entries =
  ie_entries :: "'k list"
  ie_children :: "nat option list"
  ie_size :: nat

record 'k inner_node =
  in_level :: nat
  in_v0 :: "'k inner_entries"
  in_v1 :: "'k inner_entries"
  in_consistent_id :: nat

definition inner_consistent :: "'k inner_node \<Rightarrow> 'k inner_entries" where
  "inner_consistent i = (if in_consistent_id i = 0 then in_v0 i else in_v1 i)"

definition inner_working_copy :: "'k inner_node \<Rightarrow> 'k inner_entries" where
  "inner_working_copy i = (if 1 - in_consistent_id i = 0 then in_v0 i else in_v1 i)"

definition set_inner_working_copy :: "'k inner_entries \<Rightarrow> 'k inner_node \<Rightarrow> 'k inner_node" where
  "set_inner_working_copy e i = (if 1 - in_consistent_id i = 0 then i\<lparr>in_v0 := e\<rparr> else i\<lparr>in_v1 := e\<rparr>)"

definition inner_switch_consistent :: "'k inner_node \<Rightarrow> 'k inner_node" where
  "inner_switch_consistent i = i\<lparr>in_consistent_id := 1 - in_consistent_id i\<rparr>"

definition inner_size :: "'k inner_node \<Rightarrow> nat" where
  "inner_size i = ie_size (inner_consistent i)"

definition inner_full :: "nat \<Rightarrow> 'k inner_node \<Rightarrow> bool" where
  "inner_full n i \<longleftrightarrow> inner_size i = n"

definition inner_entries_new :: "nat \<Rightarrow> 'k \<Rightarrow> 'k inner_entries" where
  "inner_entries_new n dflt = \<lparr>ie_entries = replicate n dflt, ie_children = replicate (n + 1) None, ie_size = 0\<rparr>"

text \<open>The keys between \<open>begin\<close> and \<open>end\<close>.\<close>

definition inner_range :: "'k inner_node \<Rightarrow> 'k list res" where
  "inner_range i = arr_slice (ie_entries (inner_consistent i)) 0 (int (inner_size i))"

definition inner_node_new ::
  "nat \<Rightarrow> 'k::linorder \<Rightarrow> nat \<Rightarrow> 'k \<Rightarrow> nat option \<Rightarrow> nat option \<Rightarrow> 'k inner_node res" where
  "inner_node_new n dflt level key child_0 child_1 =
     andthen (arr_set (replicate n dflt) 0 key) (\<lambda>entries1.
     andthen (arr_blit (replicate (n + 1) None) 0 [child_0, child_1]) (\<lambda>children1.
       Inr \<lparr>in_level = level, in_v0 = \<lparr>ie_entries = entries1, ie_children = children1, ie_size = 1\<rparr>,
            in_v1 = inner_entries_new n dflt, in_consistent_id = 0\<rparr>))"

definition inner_node_copy ::
  "nat \<Rightarrow> 'k::linorder \<Rightarrow> nat \<Rightarrow> 'k inner_node \<Rightarrow> nat \<Rightarrow> nat \<Rightarrow> 'k inner_node res" where
  "inner_node_copy n dflt level src lo hi =
     andthen (arr_slice (ie_entries (inner_consistent src)) (int lo) (int hi - int lo)) (\<lambda>ks.
     andthen (arr_blit (replicate n dflt) 0 ks) (\<lambda>entries1.
     andthen (arr_slice (ie_children (inner_consistent src)) (int lo) (int (length ks + 1))) (\<lambda>cs.
     andthen (arr_blit (replicate (n + 1) None) 0 cs) (\<lambda>children1.
     guarded (sorted ks) Assert_failed
       (Inr \<lparr>in_level = level, in_v0 = \<lparr>ie_entries = entries1, ie_children = children1, ie_size = length ks\<rparr>,
             in_v1 = inner_entries_new n dflt, in_consistent_id = 0\<rparr>)))))"

definition inner_get_left_child :: "'k inner_node \<Rightarrow> nat \<Rightarrow> nat option res" where
  "inner_get_left_child i pos = arr_get (ie_children (inner_consistent i)) (int pos)"

definition inner_get_child :: "'k::linorder inner_node \<Rightarrow> 'k \<Rightarrow> nat option res" where
  "inner_get_child i key = andthen (inner_range i) (\<lambda>ks. inner_get_left_child i (lower_bound ks key))"

definition inner_back :: "'k inner_node \<Rightarrow> 'k res" where
  "inner_back i = arr_get (ie_entries (inner_consistent i)) (int (inner_size i) - 1)"

definition inner_update_splitted_child ::
  "nat \<Rightarrow> 'k::linorder inner_node \<Rightarrow> 'k \<Rightarrow> nat option \<Rightarrow> nat option \<Rightarrow> nat option \<Rightarrow> 'k inner_node res" where
  "inner_update_splitted_child n i entry lnode rnode splitted_node =
     guarded (\<not> inner_full n i) Assert_failed
       (andthen (inner_range i) (\<lambda>ks.
        let partition_point = lower_bound ks entry; c = inner_consistent i; w = inner_working_copy i in
        andthen (arr_blit (ie_entries w) 0 (take partition_point ks @ entry # drop partition_point ks)) (\<lambda>entries1.
        andthen (arr_slice (ie_children c) 0 (int (inner_size i + 1))) (\<lambda>cs.
        guarded (cs ! partition_point = splitted_node) Assert_failed
          (andthen (arr_blit (ie_children w) 0
              (take partition_point cs @ lnode # rnode # drop (partition_point + 1) cs)) (\<lambda>children1.
           let i1 = inner_switch_consistent (set_inner_working_copy
                 \<lparr>ie_entries = entries1, ie_children = children1, ie_size = length ks + 1\<rparr> i) in
           andthen (inner_range i1) (\<lambda>ks1. guarded (sorted ks1) Assert_failed (Inr i1))))))))"

subsection \<open>The tree and its memory\<close>

datatype ('k, 'v) bnode = LeafN "('k, 'v) leaf_node" | InnerN "'k inner_node"

record ('k, 'v) b_tree =
  bt_slots :: nat
  bt_dflt :: "'k \<times> 'v"
  bt_epoch :: nat
  bt_root :: "nat option"
  bt_split_node :: "nat option"
  bt_left_child :: "nat option"
  bt_right_child :: "nat option"
  bt_heap :: "nat \<rightharpoonup> ('k, 'v) bnode"
  bt_next :: nat

definition b_tree_new :: "nat \<Rightarrow> 'k \<times> 'v \<Rightarrow> ('k, 'v) b_tree" where
  "b_tree_new degree dflt = \<lparr>bt_slots = degree - 1, bt_dflt = dflt, bt_epoch = 0, bt_root = None,
     bt_split_node = None, bt_left_child = None, bt_right_child = None, bt_heap = Map.empty, bt_next = 0\<rparr>"

definition node_level :: "('k, 'v) bnode \<Rightarrow> nat" where
  "node_level nd = (case nd of LeafN _ \<Rightarrow> 0 | InnerN i \<Rightarrow> in_level i)"

definition bt_deref :: "('k, 'v) b_tree \<Rightarrow> nat option \<Rightarrow> ('k, 'v) bnode res" where
  "bt_deref t p =
     (case p of None \<Rightarrow> Inl Null_deref
      | Some a \<Rightarrow> (case bt_heap t a of None \<Rightarrow> Inl Undefined_behaviour | Some nd \<Rightarrow> Inr nd))"

text \<open>A dereference after \<open>cast_leaf\<close> or \<open>cast_inner\<close>.\<close>

definition get_leaf :: "('k, 'v) b_tree \<Rightarrow> nat option \<Rightarrow> ('k, 'v) leaf_node res" where
  "get_leaf t p = andthen (bt_deref t p) (\<lambda>nd. case nd of LeafN l \<Rightarrow> Inr l | InnerN _ \<Rightarrow> Inl Undefined_behaviour)"

definition get_inner :: "('k, 'v) b_tree \<Rightarrow> nat option \<Rightarrow> 'k inner_node res" where
  "get_inner t p = andthen (bt_deref t p) (\<lambda>nd. case nd of InnerN i \<Rightarrow> Inr i | LeafN _ \<Rightarrow> Inl Undefined_behaviour)"

definition put_node :: "nat option \<Rightarrow> ('k, 'v) bnode \<Rightarrow> ('k, 'v) b_tree \<Rightarrow> ('k, 'v) b_tree" where
  "put_node p nd t = (case p of None \<Rightarrow> t | Some a \<Rightarrow> t\<lparr>bt_heap := (bt_heap t)(a \<mapsto> nd)\<rparr>)"

definition allocate :: "('k, 'v) bnode \<Rightarrow> ('k, 'v) b_tree \<Rightarrow> nat option \<times> ('k, 'v) b_tree" where
  "allocate nd t = (Some (bt_next t), t\<lparr>bt_heap := (bt_heap t)(bt_next t \<mapsto> nd), bt_next := bt_next t + 1\<rparr>)"

definition deallocate :: "nat option \<Rightarrow> ('k, 'v) b_tree \<Rightarrow> ('k, 'v) b_tree res" where
  "deallocate p t =
     (case p of None \<Rightarrow> Inr t
      | Some a \<Rightarrow> andthen (bt_deref t p) (\<lambda>_. Inr (t\<lparr>bt_heap := (bt_heap t)(a := None)\<rparr>)))"

definition deallocate_split :: "('k, 'v) b_tree \<Rightarrow> ('k, 'v) b_tree res" where
  "deallocate_split t = andthen (deallocate (bt_split_node t) t) (\<lambda>t1. Inr (t1\<lparr>bt_split_node := None\<rparr>))"

subsection \<open>Walking down\<close>

primrec descend ::
  "nat \<Rightarrow> ('k, 'v) b_tree \<Rightarrow> ('k inner_node \<Rightarrow> nat option res) \<Rightarrow> nat option \<Rightarrow> nat option list \<Rightarrow>
     (nat option list \<times> nat option) res" where
  "descend 0 t pick node path = Inl Out_of_fuel"
| "descend (Suc fuel) t pick node path =
     andthen (bt_deref t node) (\<lambda>nd.
       if node_level nd = 0 then Inr (path, node)
       else andthen (get_inner t node) (\<lambda>i.
            andthen (pick i) (\<lambda>c. descend fuel t pick c (path @ [node]))))"

definition walk_down ::
  "('k, 'v) b_tree \<Rightarrow> ('k inner_node \<Rightarrow> nat option res) \<Rightarrow> (nat option list \<times> nat option \<times> ('k, 'v) b_tree) res" where
  "walk_down t pick =
     andthen (bt_deref t (bt_root t)) (\<lambda>nd.
     andthen (descend (node_level nd + 1) t pick (bt_root t) []) (\<lambda>(path, node).
     andthen (get_leaf t node) (\<lambda>leaf.
       Inr (path, node, put_node node (LeafN (leaf_check_consistency (bt_epoch t) leaf)) t))))"

definition find_leaf_node :: "('k::linorder, 'v) b_tree \<Rightarrow> 'k \<Rightarrow> (nat option \<times> ('k, 'v) b_tree) res" where
  "find_leaf_node t key =
     (if bt_root t = None then Inr (None, t)
      else andthen (walk_down t (\<lambda>i. inner_get_child i key)) (\<lambda>(_, leaf, t1). Inr (leaf, t1)))"

definition find_leaf_to_insert ::
  "('k::linorder, 'v) b_tree \<Rightarrow> 'k \<Rightarrow> (nat option list \<times> nat option \<times> ('k, 'v) b_tree) res" where
  "find_leaf_to_insert t key =
     guarded (bt_root t \<noteq> None) Assert_failed (walk_down t (\<lambda>i. inner_get_child i key))"

definition leftmost_leaf :: "('k, 'v) b_tree \<Rightarrow> (nat option \<times> ('k, 'v) b_tree) res" where
  "leftmost_leaf t =
     (if bt_root t = None then Inr (None, t)
      else andthen (walk_down t (\<lambda>i. inner_get_left_child i 0)) (\<lambda>(_, leaf, t1). Inr (leaf, t1)))"

definition rightmost_leaf :: "('k, 'v) b_tree \<Rightarrow> (nat option \<times> ('k, 'v) b_tree) res" where
  "rightmost_leaf t =
     (if bt_root t = None then Inr (None, t)
      else andthen (walk_down t (\<lambda>i. inner_get_left_child i (inner_size i))) (\<lambda>(_, leaf, t1). Inr (leaf, t1)))"

text \<open>The deepest node of the path that is not full, or the first one; the result is its position.\<close>

primrec find_full_from :: "('k, 'v) b_tree \<Rightarrow> nat option list \<Rightarrow> nat \<Rightarrow> nat res" where
  "find_full_from t path 0 = Inr 0"
| "find_full_from t path (Suc i) =
     andthen (get_inner t (path ! Suc i)) (\<lambda>nd.
       if \<not> inner_full (bt_slots t) nd then Inr (Suc i) else find_full_from t path i)"

definition find_full_node :: "('k, 'v) b_tree \<Rightarrow> nat option list \<Rightarrow> nat res" where
  "find_full_node t path = find_full_from t path (length path - 1)"

subsection \<open>Splitting\<close>

definition create_new_root ::
  "('k::linorder, 'v) b_tree \<Rightarrow> 'k \<Rightarrow> nat option \<Rightarrow> nat option \<Rightarrow> ('k, 'v) b_tree res" where
  "create_new_root t key l_child r_child =
     guarded (l_child \<noteq> None \<and> r_child \<noteq> None \<and> bt_split_node t = bt_root t) Assert_failed
       (andthen (bt_deref t (bt_root t)) (\<lambda>nd.
        andthen (inner_node_new (bt_slots t) (fst (bt_dflt t)) (node_level nd + 1) key l_child r_child) (\<lambda>i.
        let (p, t1) = allocate (InnerN i) t in Inr (t1\<lparr>bt_root := p\<rparr>))))"

text \<open>\<open>update_splitted_child\<close> called on the node that a pointer names.\<close>

definition update_parent ::
  "('k::linorder, 'v) b_tree \<Rightarrow> nat option \<Rightarrow> 'k \<Rightarrow> ('k, 'v) b_tree res" where
  "update_parent t parent_node key =
     andthen (get_inner t parent_node) (\<lambda>i.
     andthen (inner_update_splitted_child (bt_slots t) i key (bt_left_child t) (bt_right_child t) (bt_split_node t)) (\<lambda>i1.
       Inr (put_node parent_node (InnerN i1) t)))"

definition split_half :: "('k::linorder, 'v) b_tree \<Rightarrow> nat option \<Rightarrow> ('k \<times> ('k, 'v) b_tree) res" where
  "split_half t node =
     guarded (bt_split_node t = node) Assert_failed
       (andthen (get_inner t node) (\<lambda>inner.
        let middle = inner_size inner div 2 in
        andthen (inner_node_copy (bt_slots t) (fst (bt_dflt t)) (in_level inner) inner 0 middle) (\<lambda>l.
        let (lp, t1) = allocate (InnerN l) t; t2 = t1\<lparr>bt_left_child := lp\<rparr> in
        andthen (inner_node_copy (bt_slots t) (fst (bt_dflt t)) (in_level inner) inner (middle + 1) (inner_size inner)) (\<lambda>r.
        let (rp, t3) = allocate (InnerN r) t2; t4 = t3\<lparr>bt_right_child := rp\<rparr> in
        andthen (arr_get (ie_entries (inner_consistent inner)) (int middle)) (\<lambda>key.
        guarded (middle \<noteq> inner_size inner) Assert_failed (Inr (key, t4)))))))"

definition split_inner_node ::
  "('k::linorder, 'v) b_tree \<Rightarrow> nat option \<Rightarrow> nat option \<Rightarrow> ('k, 'v) b_tree res" where
  "split_inner_node t src_node parent_node =
     guarded (bt_split_node t = None) Assert_failed
       (andthen (split_half (t\<lparr>bt_split_node := src_node\<rparr>) src_node) (\<lambda>(key, t1).
        andthen
          (if parent_node \<noteq> None then update_parent t1 parent_node key
           else guarded (bt_root t1 = bt_split_node t1) Assert_failed
                  (create_new_root t1 key (bt_left_child t1) (bt_right_child t1)))
          deallocate_split))"

definition correct_leaf_node_links ::
  "('k, 'v) b_tree \<Rightarrow> nat option \<Rightarrow> nat option \<Rightarrow> nat option \<Rightarrow> ('k, 'v) b_tree res" where
  "correct_leaf_node_links t src_node left right =
     andthen (get_leaf t src_node) (\<lambda>cur.
     andthen
       (if lf_prev cur \<noteq> None
        then andthen (get_leaf t (lf_prev cur)) (\<lambda>l. Inr (put_node (lf_prev cur) (LeafN (l\<lparr>lf_next := left\<rparr>)) t))
        else Inr t) (\<lambda>t1.
     andthen (get_leaf t1 src_node) (\<lambda>cur.
     if lf_next cur \<noteq> None
     then andthen (get_leaf t1 (lf_next cur)) (\<lambda>l. Inr (put_node (lf_next cur) (LeafN (l\<lparr>lf_prev := right\<rparr>)) t1))
     else Inr t1)))"

text \<open>The two halves of a full leaf, with the new entry in the one its key belongs to. The result is the
  half with the new entry.\<close>

definition split_leaf_halves ::
  "('k::linorder, 'v) b_tree \<Rightarrow> ('k, 'v) leaf_node \<Rightarrow> 'k \<times> 'v \<Rightarrow> (nat option \<times> ('k, 'v) b_tree) res" where
  "split_leaf_halves t split_leaf entry =
     (let n = bt_slots t; d = bt_dflt t; e = bt_epoch t;
          middle = leaf_size split_leaf div 2; hi = leaf_size split_leaf in
      andthen (leaf_nth split_leaf middle) (\<lambda>m.
        if fst entry < fst m then
          andthen (leaf_node_copy_insert n d e entry split_leaf 0 middle (lf_prev split_leaf) None) (\<lambda>l.
          let (lp, t1) = allocate (LeafN l) t; t2 = t1\<lparr>bt_left_child := lp\<rparr> in
          andthen (leaf_node_copy n d e split_leaf middle hi lp (lf_next split_leaf)) (\<lambda>r.
          let (rp, t3) = allocate (LeafN r) t2 in Inr (lp, t3\<lparr>bt_right_child := rp\<rparr>)))
        else
          andthen (leaf_node_copy n d e split_leaf 0 middle (lf_prev split_leaf) None) (\<lambda>l.
          let (lp, t1) = allocate (LeafN l) t; t2 = t1\<lparr>bt_left_child := lp\<rparr> in
          andthen (leaf_node_copy_insert n d e entry split_leaf middle hi lp (lf_next split_leaf)) (\<lambda>r.
          let (rp, t3) = allocate (LeafN r) t2 in Inr (rp, t3\<lparr>bt_right_child := rp\<rparr>)))))"

definition split_leaf_node ::
  "('k::linorder, 'v) b_tree \<Rightarrow> nat option \<Rightarrow> nat option \<Rightarrow> 'k \<times> 'v \<Rightarrow> ((nat option \<times> nat) \<times> ('k, 'v) b_tree) res" where
  "split_leaf_node t parent_node src_node entry =
     andthen (get_leaf t src_node) (\<lambda>split_leaf.
     guarded (leaf_full (bt_slots t) split_leaf) Assert_failed
       (andthen (split_leaf_halves (t\<lparr>bt_split_node := src_node\<rparr>) split_leaf entry) (\<lambda>(insert_node, t1).
        andthen (get_leaf t1 (bt_left_child t1)) (\<lambda>lnode.
        let t2 = put_node (bt_left_child t1) (LeafN (lnode\<lparr>lf_next := bt_right_child t1\<rparr>)) t1 in
        andthen (correct_leaf_node_links t2 src_node (bt_left_child t2) (bt_right_child t2)) (\<lambda>t3.
        andthen (get_leaf t3 (bt_left_child t3)) (\<lambda>lnode.
        andthen (leaf_back lnode) (\<lambda>b.
        andthen
          (if parent_node \<noteq> None then update_parent t3 parent_node (fst b)
           else create_new_root t3 (fst b) (bt_left_child t3) (bt_right_child t3)) (\<lambda>t4.
        andthen (deallocate_split t4) (\<lambda>t5.
        andthen (get_leaf t5 insert_node) (\<lambda>l.
        andthen (leaf_find l (fst entry)) (\<lambda>it.
        guarded (it \<noteq> leaf_size l) Assert_failed
          (andthen (leaf_nth l it) (\<lambda>x.
           guarded (x = entry) Assert_failed (Inr ((insert_node, it), t5)))))))))))))))"

subsection \<open>The operations of the tree\<close>

text \<open>The loop that splits the full nodes below \<open>parent_node\<close> on the path.\<close>

primrec split_path ::
  "'k::linorder \<Rightarrow> nat option list \<Rightarrow> ('k, 'v) b_tree \<Rightarrow> nat option \<Rightarrow> (nat option \<times> ('k, 'v) b_tree) res" where
  "split_path key [] t parent_node = Inr (parent_node, t)"
| "split_path key (p # ps) t parent_node =
     andthen (split_inner_node t p parent_node) (\<lambda>t1.
     andthen (get_inner t1 parent_node) (\<lambda>i.
     andthen (inner_get_child i key) (\<lambda>c. split_path key ps t1 c)))"

definition insert_descend ::
  "('k::linorder, 'v) b_tree \<Rightarrow> 'k \<times> 'v \<Rightarrow> ((nat option \<times> nat) \<times> bool \<times> ('k, 'v) b_tree) res" where
  "insert_descend t entry =
     (let key = fst entry in
      andthen (find_leaf_to_insert t key) (\<lambda>(path, node, t1).
      andthen (get_leaf t1 node) (\<lambda>leaf.
      if leaf_full (bt_slots t1) leaf then
        andthen (leaf_find leaf key) (\<lambda>leaf_it.
        if leaf_it \<noteq> leaf_size leaf then Inr ((node, leaf_it), False, t1)
        else if path = [] then
          andthen (split_leaf_node t1 None node entry) (\<lambda>(it, t2). Inr (it, True, t2))
        else
          andthen (find_full_node t1 path) (\<lambda>i.
          andthen (get_inner t1 (path ! i)) (\<lambda>nd.
          andthen
            (if inner_full (bt_slots t1) nd then
               andthen (split_inner_node t1 (path ! i) None) (\<lambda>t2.
               andthen (get_inner t2 (bt_root t2)) (\<lambda>r.
               andthen (inner_get_child r key) (\<lambda>c. Inr (c, t2))))
             else Inr (path ! i, t1))
          (\<lambda>(parent_node, t2).
          andthen (split_path key (drop (i + 1) path) t2 parent_node) (\<lambda>(parent_node, t3).
          andthen (split_leaf_node t3 parent_node node entry) (\<lambda>(it, t4). Inr (it, True, t4)))))))
      else
        andthen (leaf_insert (bt_slots t1) leaf entry) (\<lambda>(pos, new, l).
          Inr ((node, pos), new, put_node node (LeafN l) t1)))))"

definition bt_insert ::
  "('k::linorder, 'v) b_tree \<Rightarrow> 'k \<times> 'v \<Rightarrow> ((nat option \<times> nat) \<times> bool \<times> ('k, 'v) b_tree) res" where
  "bt_insert t entry =
     (let t1 = (if bt_root t = None
                then (let (p, t1) = allocate (LeafN (leaf_node_new (bt_slots t) (bt_dflt t) (bt_epoch t))) t
                      in t1\<lparr>bt_root := p\<rparr>)
                else t)
      in guarded (bt_root t1 \<noteq> None) Assert_failed (insert_descend t1 entry))"

definition bt_end :: "('k, 'v) b_tree \<Rightarrow> ((nat option \<times> nat) \<times> ('k, 'v) b_tree) res" where
  "bt_end t =
     andthen (rightmost_leaf t) (\<lambda>(p, t1).
       if p = None then Inr ((None, 0), t1)
       else andthen (get_leaf t1 p) (\<lambda>l. Inr ((p, leaf_size l), t1)))"

definition bt_begin :: "('k, 'v) b_tree \<Rightarrow> ((nat option \<times> nat) \<times> ('k, 'v) b_tree) res" where
  "bt_begin t =
     andthen (leftmost_leaf t) (\<lambda>(p, t1). andthen (bt_deref t1 p) (\<lambda>_. Inr ((p, 0), t1)))"

definition bt_find :: "('k::linorder, 'v) b_tree \<Rightarrow> 'k \<Rightarrow> ((nat option \<times> nat) \<times> ('k, 'v) b_tree) res" where
  "bt_find t key =
     andthen (find_leaf_node t key) (\<lambda>(p, t1).
       if p = None then bt_end t1
       else andthen (get_leaf t1 p) (\<lambda>l.
            andthen (leaf_find l key) (\<lambda>it.
              if it = leaf_size l then bt_end t1 else Inr ((p, it), t1))))"

definition bt_erase :: "('k::linorder, 'v) b_tree \<Rightarrow> 'k \<Rightarrow> (nat \<times> ('k, 'v) b_tree) res" where
  "bt_erase t key =
     andthen (find_leaf_node t key) (\<lambda>(p, t1).
       if p = None then Inr (0, t1)
       else andthen (get_leaf t1 p) (\<lambda>l.
            andthen (leaf_erase l key) (\<lambda>(cnt, l1). Inr (cnt, put_node p (LeafN l1) t1))))"

text \<open>Iterators: a step forward, and what an iterator points at.\<close>

definition it_next :: "('k, 'v) b_tree \<Rightarrow> nat option \<times> nat \<Rightarrow> (nat option \<times> nat) res" where
  "it_next t it =
     (case it of (p, pos) \<Rightarrow>
        andthen (get_leaf t p) (\<lambda>l.
          if pos + 1 = leaf_size l \<and> lf_next l \<noteq> None then Inr (lf_next l, 0) else Inr (p, pos + 1)))"

definition it_deref :: "('k, 'v) b_tree \<Rightarrow> nat option \<times> nat \<Rightarrow> ('k \<times> 'v) res" where
  "it_deref t it = (case it of (p, pos) \<Rightarrow> andthen (get_leaf t p) (\<lambda>l. leaf_nth l pos))"

subsection \<open>Recovery\<close>

definition get_last_key :: "('k, 'v) b_tree \<Rightarrow> nat option \<Rightarrow> 'k res" where
  "get_last_key t p =
     andthen (bt_deref t p) (\<lambda>nd.
       if node_level nd = 0
       then andthen (get_leaf t p) (\<lambda>l. andthen (leaf_back l) (\<lambda>e. Inr (fst e)))
       else andthen (get_inner t p) inner_back)"

text \<open>\<open>std::includes\<close> on two sorted sequences of entries.\<close>

definition is_left_node :: "('k, 'v) leaf_node \<Rightarrow> ('k, 'v) leaf_node \<Rightarrow> bool res" where
  "is_left_node src_node lnode =
     andthen (leaf_range src_node 0 (leaf_size src_node div 2)) (\<lambda>es.
     andthen (leaf_range lnode 0 (leaf_size lnode)) (\<lambda>ls. Inr (set es \<subseteq> set ls)))"

definition is_right_node :: "('k, 'v) leaf_node \<Rightarrow> ('k, 'v) leaf_node \<Rightarrow> bool res" where
  "is_right_node src_node rnode =
     andthen (leaf_range src_node (leaf_size src_node div 2) (leaf_size src_node)) (\<lambda>es.
     andthen (leaf_range rnode 0 (leaf_size rnode)) (\<lambda>rs. Inr (set es \<subseteq> set rs)))"

text \<open>The part of \<open>repair_leaf_split\<close> for a split that was not completed.\<close>

definition finish_leaf_split ::
  "('k::linorder, 'v) b_tree \<Rightarrow> nat option list \<Rightarrow> ('k, 'v) b_tree res" where
  "finish_leaf_split t path =
     andthen (get_leaf t (bt_split_node t)) (\<lambda>split_leaf.
     andthen (if bt_left_child t = None then Inr False
              else andthen (get_leaf t (bt_left_child t)) (\<lambda>lnode. is_left_node split_leaf lnode)) (\<lambda>have_left.
     andthen (if bt_right_child t = None \<or> \<not> have_left then Inr False
              else andthen (get_leaf t (bt_right_child t)) (\<lambda>rnode. is_right_node split_leaf rnode)) (\<lambda>have_right.
     if \<not> have_left then Inr t
     else if have_right then
       andthen (get_leaf t (bt_left_child t)) (\<lambda>lnode.
       let t1 = put_node (bt_left_child t) (LeafN (lnode\<lparr>lf_next := bt_right_child t\<rparr>)) t in
       andthen (correct_leaf_node_links t1 (bt_split_node t1) (bt_left_child t1) (bt_right_child t1)) (\<lambda>t2.
       andthen (get_leaf t2 (bt_left_child t2)) (\<lambda>lnode.
       andthen (leaf_back lnode) (\<lambda>b.
       if path \<noteq> [] then update_parent t2 (last path) (fst b)
       else create_new_root t2 (fst b) (bt_left_child t2) (bt_right_child t2)))))
     else andthen (deallocate (bt_left_child t) t) (\<lambda>t1. Inr (t1\<lparr>bt_left_child := None\<rparr>)))))"

definition repair_leaf_split :: "('k::linorder, 'v) b_tree \<Rightarrow> ('k, 'v) b_tree res" where
  "repair_leaf_split t =
     guarded (bt_root t \<noteq> None) Assert_failed
       (andthen (get_last_key t (bt_split_node t)) (\<lambda>key.
        andthen (find_leaf_to_insert t key) (\<lambda>(path, found_node, t1).
        andthen (arr_get path 0) (\<lambda>first.
        guarded (first = bt_root t1) Assert_failed
          (andthen
            (if bt_split_node t1 = found_node then finish_leaf_split t1 path else deallocate_split t1)
            (\<lambda>t2. Inr (t2\<lparr>bt_split_node := None\<rparr>)))))))"

text \<open>A child left over from an inner split that was not completed is freed when its first keys are
  those of its half of the split node.\<close>

definition drop_half ::
  "('k, 'v) b_tree \<Rightarrow> nat option \<Rightarrow> 'k list \<Rightarrow> (bool \<times> ('k, 'v) b_tree) res" where
  "drop_half t child ks =
     (if child = None then Inr (False, t)
      else andthen (bt_deref t child) (\<lambda>nd.
        if node_level nd = 0 then Inr (False, t)
        else andthen (get_inner t child) (\<lambda>i.
             andthen (arr_slice (ie_entries (inner_consistent i)) 0 (int (length ks))) (\<lambda>cs.
             if cs = ks then andthen (deallocate child t) (\<lambda>t1. Inr (True, t1)) else Inr (False, t)))))"

definition repair_inner_split :: "('k::linorder, 'v) b_tree \<Rightarrow> ('k, 'v) b_tree res" where
  "repair_inner_split t =
     guarded (bt_root t \<noteq> None) Assert_failed
       (andthen (get_last_key t (bt_split_node t)) (\<lambda>key.
        andthen (find_leaf_to_insert t key) (\<lambda>(path, _, t1).
        andthen (arr_get path 0) (\<lambda>first.
        guarded (first = bt_root t1) Assert_failed
          (andthen (get_inner t1 (bt_root t1)) (\<lambda>r.
           andthen (get_inner t1 (bt_split_node t1)) (\<lambda>inner.
           guarded (in_level inner \<le> in_level r) Assert_failed
             (andthen (arr_get path (int (in_level r - in_level inner))) (\<lambda>on_path.
              andthen
                (if bt_split_node t1 = on_path then
                   andthen (inner_range inner) (\<lambda>ks.
                   let middle = inner_size inner div 2 in
                   andthen (drop_half t1 (bt_left_child t1) (take middle ks)) (\<lambda>(freed, t2).
                   let t3 = (if freed then t2\<lparr>bt_left_child := None\<rparr> else t2) in
                   andthen (drop_half t3 (bt_right_child t3) (drop (middle + 1) ks)) (\<lambda>(freed, t4).
                   Inr (if freed then t4\<lparr>bt_right_child := None\<rparr> else t4))))
                 else deallocate_split t1)
                (\<lambda>t5. Inr (t5\<lparr>bt_split_node := None\<rparr>)))))))))))"

definition garbage_collection :: "('k::linorder, 'v) b_tree \<Rightarrow> ('k, 'v) b_tree res" where
  "garbage_collection t =
     (let t1 = t\<lparr>bt_epoch := bt_epoch t + 1\<rparr> in
      if bt_split_node t1 = None then Inr t1
      else andthen (bt_deref t1 (bt_split_node t1)) (\<lambda>nd.
        if node_level nd = 0 then repair_leaf_split t1 else repair_inner_split t1))"

end
