(* ===== verification/BTreeShape.thy ===== *)
theory BTreeShape
  imports BTree
begin

text \<open>
  The trees that a memory pool represents, without the memory: a shape records the address of every
  node, the keys of the inner nodes and the entries of the leaves. An inner node with keys \<open>ks\<close> sends the
  keys above \<open>ks ! (i - 1)\<close> and up to \<open>ks ! i\<close> to its child \<open>i\<close>.
\<close>

datatype ('k, 'v) shape =
    SLeaf nat "('k \<times> 'v) list"
  | SInner nat nat "'k list" "('k, 'v) shape list"

primrec sptr :: "('k, 'v) shape \<Rightarrow> nat" where
  "sptr (SLeaf p es) = p"
| "sptr (SInner p lv ks ts) = p"

primrec slevel :: "('k, 'v) shape \<Rightarrow> nat" where
  "slevel (SLeaf p es) = 0"
| "slevel (SInner p lv ks ts) = lv"

fun ptrs :: "('k, 'v) shape \<Rightarrow> nat list" where
  "ptrs (SLeaf p es) = [p]"
| "ptrs (SInner p lv ks ts) = p # concat (map ptrs ts)"

fun sleaves :: "('k, 'v) shape \<Rightarrow> nat list" where
  "sleaves (SLeaf p es) = [p]"
| "sleaves (SInner p lv ks ts) = concat (map sleaves ts)"

fun sentries :: "('k, 'v) shape \<Rightarrow> ('k \<times> 'v) list" where
  "sentries (SLeaf p es) = es"
| "sentries (SInner p lv ks ts) = concat (map sentries ts)"

definition over_key :: "'k::linorder option \<Rightarrow> 'k \<Rightarrow> bool" where
  "over_key lo k \<longleftrightarrow> (case lo of None \<Rightarrow> True | Some a \<Rightarrow> a < k)"

definition upto_key :: "'k::linorder option \<Rightarrow> 'k \<Rightarrow> bool" where
  "upto_key hi k \<longleftrightarrow> (case hi of None \<Rightarrow> True | Some b \<Rightarrow> k \<le> b)"

definition below_key :: "'k::linorder option \<Rightarrow> 'k \<Rightarrow> bool" where
  "below_key hi k \<longleftrightarrow> (case hi of None \<Rightarrow> True | Some b \<Rightarrow> k < b)"

definition lob :: "'k option \<Rightarrow> 'k list \<Rightarrow> nat \<Rightarrow> 'k option" where
  "lob lo ks i = (if i = 0 then lo else Some (ks ! (i - 1)))"

definition hib :: "'k option \<Rightarrow> 'k list \<Rightarrow> nat \<Rightarrow> 'k option" where
  "hib hi ks i = (if i < length ks then Some (ks ! i) else hi)"

function bst :: "nat \<Rightarrow> 'k::linorder option \<Rightarrow> 'k option \<Rightarrow> ('k, 'v) shape \<Rightarrow> bool" where
  "bst n lo hi (SLeaf p es) \<longleftrightarrow> length es \<le> n \<and> sorted_wrt (<) (map fst es)
     \<and> (\<forall>k\<in>fst ` set es. over_key lo k \<and> upto_key hi k)"
| "bst n lo hi (SInner p lv ks ts) \<longleftrightarrow> length ks \<le> n \<and> length ts = Suc (length ks) \<and> sorted_wrt (<) ks
     \<and> (\<forall>k\<in>set ks. over_key lo k \<and> below_key hi k)
     \<and> (\<forall>i<length ts. Suc (slevel (ts ! i)) = lv \<and> bst n (lob lo ks i) (hib hi ks i) (ts ! i))"
  by pat_completeness auto
termination
  by (relation "measure (\<lambda>(n, lo, hi, s). size s)") (auto simp: less_Suc_eq_le intro!: trans_le_add2 size_list_estimation'[OF nth_mem])

lemma over_key_simps [simp]: "over_key None k" "over_key (Some a) k \<longleftrightarrow> a < k"
  and upto_key_simps [simp]: "upto_key None k" "upto_key (Some b) k \<longleftrightarrow> k \<le> b"
  and below_key_simps [simp]: "below_key None k" "below_key (Some b) k \<longleftrightarrow> k < b"
  by (simp_all add: over_key_def upto_key_def below_key_def)

lemma below_upto: "below_key hi k \<Longrightarrow> upto_key hi k"
  by (cases hi) auto

subsection \<open>The child a key belongs to\<close>

lemma key_in_child:
  assumes "i \<le> length ks" "sorted_wrt (<) ks" "over_key (lob lo ks i) k" "upto_key (hib hi ks i) k"
  shows "lower_bound ks k = i"
proof (rule lower_bound_unique[OF assms(1)])
  fix j assume j: "j < i"
  then have "ks ! j \<le> ks ! (i - 1)"
    using assms(1,2) by (intro sorted_nth_mono strict_sorted_imp_sorted) auto
  then show "ks ! j < k" using j assms(3) by (simp add: lob_def)
next
  assume "i < length ks"
  then show "k \<le> ks ! i" using assms(4) by (simp add: hib_def)
qed

lemma child_of_key:
  assumes "sorted_wrt (<) ks" "over_key lo k" "upto_key hi k"
  shows "over_key (lob lo ks (lower_bound ks k)) k" "upto_key (hib hi ks (lower_bound ks k)) k"
  using assms lower_bound_before[of "lower_bound ks k - 1" ks k] lower_bound_at[of ks k] lower_bound_le[of ks k]
  by (auto simp: lob_def hib_def)

definition kid :: "'k::linorder \<Rightarrow> ('k, 'v) shape \<Rightarrow> ('k, 'v) shape" where
  "kid k s = (case s of SInner p lv ks ts \<Rightarrow> ts ! lower_bound ks k | SLeaf p es \<Rightarrow> s)"

primrec sub :: "'k::linorder \<Rightarrow> nat \<Rightarrow> ('k, 'v) shape \<Rightarrow> ('k, 'v) shape" where
  "sub k 0 s = s"
| "sub k (Suc j) s = sub k j (kid k s)"

primrec repl :: "'k::linorder \<Rightarrow> nat \<Rightarrow> ('k, 'v) shape \<Rightarrow> ('k, 'v) shape \<Rightarrow> ('k, 'v) shape" where
  "repl k 0 x s = x"
| "repl k (Suc j) x s =
     (case s of SInner p lv ks ts \<Rightarrow> SInner p lv ks (ts[lower_bound ks k := repl k j x (ts ! lower_bound ks k)])
      | SLeaf p es \<Rightarrow> s)"

primrec bounds :: "'k::linorder \<Rightarrow> nat \<Rightarrow> 'k option \<times> 'k option \<Rightarrow> ('k, 'v) shape \<Rightarrow> 'k option \<times> 'k option" where
  "bounds k 0 b s = b"
| "bounds k (Suc j) b s =
     (case s of SInner p lv ks ts \<Rightarrow> bounds k j (lob (fst b) ks (lower_bound ks k), hib (snd b) ks (lower_bound ks k)) (kid k s)
      | SLeaf p es \<Rightarrow> b)"

lemma slevel_0: "bst n lo hi s \<Longrightarrow> slevel s = 0 \<Longrightarrow> \<exists>p es. s = SLeaf p es"
  by (cases s) (auto dest: spec[of _ 0])

lemma slevel_Suc: "slevel s = Suc d \<Longrightarrow> \<exists>p ks ts. s = SInner p (Suc d) ks ts"
  by (cases s) auto

lemma lower_bound_child: "length ts = Suc (length ks) \<Longrightarrow> lower_bound ks k < length ts"
  using lower_bound_le[of ks k] by simp

lemma kid_bst:
  assumes "bst n lo hi (SInner p lv ks ts)"
  shows "bst n (lob lo ks (lower_bound ks k)) (hib hi ks (lower_bound ks k)) (kid k (SInner p lv ks ts))"
    "Suc (slevel (kid k (SInner p lv ks ts))) = lv"
  using assms lower_bound_child[of ts ks k] by (simp_all add: kid_def)

lemma sub_Suc: "sub k (Suc j) s = kid k (sub k j s)"
  by (induction j arbitrary: s) simp_all

lemma sub_add: "sub k (i + j) s = sub k j (sub k i s)"
  by (induction i arbitrary: s) simp_all

lemma sub_bst:
  assumes "bst n lo hi s" "j \<le> slevel s"
  shows "bst n (fst (bounds k j (lo, hi) s)) (snd (bounds k j (lo, hi) s)) (sub k j s)"
    "slevel (sub k j s) = slevel s - j"
  using assms
proof (induction j arbitrary: s lo hi)
  case (Suc j)
  {
    case 1
    then obtain p d ks ts where s: "s = SInner p (Suc d) ks ts" by (metis Suc_le_D slevel_Suc)
    show ?case using Suc.IH(1)[OF kid_bst(1)[of n lo hi p "Suc d" ks ts k]] 1 kid_bst(2)[of n lo hi p "Suc d" ks ts k] s by simp
  next
    case 2
    then obtain p d ks ts where s: "s = SInner p (Suc d) ks ts" by (metis Suc_le_D slevel_Suc)
    show ?case using Suc.IH(2)[OF kid_bst(1)[of n lo hi p "Suc d" ks ts k]] 2 kid_bst(2)[of n lo hi p "Suc d" ks ts k] s by simp
  }
qed simp_all

lemma bounds_key:
  assumes "bst n lo hi s" "j \<le> slevel s" "over_key lo k" "upto_key hi k"
  shows "over_key (fst (bounds k j (lo, hi) s)) k \<and> upto_key (snd (bounds k j (lo, hi) s)) k"
  using assms
proof (induction j arbitrary: s lo hi)
  case (Suc j)
  then obtain p d ks ts where s: "s = SInner p (Suc d) ks ts" by (metis Suc_le_D slevel_Suc)
  have "sorted_wrt (<) ks" using Suc.prems(1) s by simp
  note child = child_of_key[OF this Suc.prems(3,4)]
  show ?case
    using Suc.IH[OF kid_bst(1)[of n lo hi p "Suc d" ks ts k] _ child] Suc.prems kid_bst(2)[of n lo hi p "Suc d" ks ts k] s
    by simp
qed simp

lemma repl_bst:
  assumes "bst n lo hi s" "j \<le> slevel s" "slevel x = slevel (sub k j s)"
    and "bst n (fst (bounds k j (lo, hi) s)) (snd (bounds k j (lo, hi) s)) x"
  shows "bst n lo hi (repl k j x s) \<and> slevel (repl k j x s) = slevel s"
  using assms
proof (induction j arbitrary: s lo hi)
  case (Suc j)
  then obtain p d ks ts where s: "s = SInner p (Suc d) ks ts" by (metis Suc_le_D slevel_Suc)
  let ?i = "lower_bound ks k"
  have i: "?i < length ts" using Suc.prems(1) s lower_bound_child[of ts ks k] by simp
  have kid: "kid k s = ts ! ?i" by (simp add: s kid_def)
  have "bst n (lob lo ks ?i) (hib hi ks ?i) (repl k j x (ts ! ?i)) \<and> slevel (repl k j x (ts ! ?i)) = slevel (ts ! ?i)"
    using Suc.prems kid_bst[of n lo hi p "Suc d" ks ts k] s kid by (intro Suc.IH) auto
  then show ?case
    using Suc.prems(1) i by (auto simp: s nth_list_update)
qed simp

lemma sub_repl: "bst n lo hi s \<Longrightarrow> j \<le> slevel s \<Longrightarrow> sub k j (repl k j x s) = x"
proof (induction j arbitrary: s lo hi)
  case (Suc j)
  then obtain p d ks ts where s: "s = SInner p (Suc d) ks ts" by (metis Suc_le_D slevel_Suc)
  have "lower_bound ks k < length ts" using Suc.prems(1) s lower_bound_child[of ts ks k] by simp
  then show ?case
    using Suc.IH[OF kid_bst(1)[of n lo hi p "Suc d" ks ts k]] Suc.prems kid_bst(2)[of n lo hi p "Suc d" ks ts k] s
    by (simp add: kid_def)
qed simp

lemma sptr_repl: "sptr x = sptr (sub k j s) \<Longrightarrow> j \<le> slevel s \<Longrightarrow> sptr (repl k j x s) = sptr s"
  by (cases j; cases s) auto

text \<open>Replacing the subtree on the way of a key leaves everything around it as it is.\<close>

lemma repl_context:
  assumes F: "\<And>p lv ks ts. F (SInner p lv ks ts) = pre p @ concat (map F ts)"
    and "bst n lo hi s" "j \<le> slevel s"
  shows "\<exists>xs ys. F s = xs @ F (sub k j s) @ ys \<and> (\<forall>x. F (repl k j x s) = xs @ F x @ ys)"
  using assms(2,3)
proof (induction j arbitrary: s lo hi)
  case 0
  show ?case by (rule exI[of _ "[]"], rule exI[of _ "[]"]) simp
next
  case (Suc j)
  then obtain p d ks ts where s: "s = SInner p (Suc d) ks ts" by (metis Suc_le_D slevel_Suc)
  let ?i = "lower_bound ks k"
  have i: "?i < length ts" using Suc.prems(1) s lower_bound_child[of ts ks k] by simp
  obtain xs ys where "F (ts ! ?i) = xs @ F (sub k j (ts ! ?i)) @ ys" "\<And>x. F (repl k j x (ts ! ?i)) = xs @ F x @ ys"
    using Suc.IH[OF kid_bst(1)[of n lo hi p "Suc d" ks ts k]] Suc.prems kid_bst(2)[of n lo hi p "Suc d" ks ts k] s
    by (auto simp: kid_def)
  moreover have "F (SInner p (Suc d) ks (ts[?i := y])) =
      pre p @ concat (map F (take ?i ts)) @ F y @ concat (map F (drop (Suc ?i) ts))" for y
    using i by (simp add: F upd_conv_take_nth_drop)
  moreover from this[of "ts ! ?i"] have "F s =
      pre p @ concat (map F (take ?i ts)) @ F (ts ! ?i) @ concat (map F (drop (Suc ?i) ts))"
    by (simp add: s)
  ultimately show ?case
    by (intro exI[of _ "pre p @ concat (map F (take ?i ts)) @ xs"] exI[of _ "ys @ concat (map F (drop (Suc ?i) ts))"])
      (simp add: s kid_def)
qed

lemmas repl_ptrs = repl_context[of ptrs "\<lambda>p. [p]", simplified]
  and repl_leaves = repl_context[of sleaves "\<lambda>_. []", simplified]
  and repl_entries = repl_context[of sentries "\<lambda>_. []", simplified]

subsection \<open>The entries in key order\<close>

lemma child_bounds:
  assumes "\<forall>k\<in>set ks. over_key lo k \<and> below_key hi k" "i \<le> length ks" "over_key (lob lo ks i) k" "upto_key (hib hi ks i) k"
  shows "over_key lo k \<and> upto_key hi k"
proof
  show "over_key lo k"
  proof (cases "i = 0")
    case False
    then have "over_key lo (ks ! (i - 1))" using assms(1,2) nth_mem[of "i - 1" ks] by auto
    then show ?thesis using False assms(3) by (cases lo) (auto simp: lob_def)
  qed (use assms(3) in \<open>simp add: lob_def\<close>)
  show "upto_key hi k"
  proof (cases "i < length ks")
    case True
    then have "below_key hi (ks ! i)" using assms(1) nth_mem[of i ks] by auto
    then show ?thesis using True assms(4) by (cases hi) (auto simp: hib_def)
  qed (use assms(4) in \<open>simp add: hib_def\<close>)
qed

lemma set_concat_nth: "x \<in> set (concat xss) \<longleftrightarrow> (\<exists>i<length xss. x \<in> set (xss ! i))"
proof -
  have "x \<in> set (concat xss) \<longleftrightarrow> (\<exists>xs\<in>set xss. x \<in> set xs)" by auto
  also have "\<dots> \<longleftrightarrow> (\<exists>i<length xss. x \<in> set (xss ! i))" by (metis in_set_conv_nth)
  finally show ?thesis .
qed

lemma sentries_nth: "e \<in> set (sentries (SInner p lv ks ts)) \<longleftrightarrow> (\<exists>i<length ts. e \<in> set (sentries (ts ! i)))"
  unfolding sentries.simps set_concat_nth by auto

lemma bst_keys:
  assumes "bst n lo hi s" "e \<in> set (sentries s)"
  shows "over_key lo (fst e) \<and> upto_key hi (fst e)"
  using assms
proof (induction n lo hi s rule: bst.induct)
  case (1 n lo hi p es)
  then show ?case by auto
next
  case (2 n lo hi p lv ks ts)
  then obtain i where i: "i < length ts" "e \<in> set (sentries (ts ! i))" using sentries_nth by metis
  with 2 have "over_key (lob lo ks i) (fst e) \<and> upto_key (hib hi ks i) (fst e)" by simp
  with 2 i show ?case using child_bounds[of ks lo hi i "fst e"] by simp
qed

lemma sorted_wrt_concat_nth:
  assumes "\<And>i. i < length xss \<Longrightarrow> sorted_wrt P (xss ! i)"
    and "\<And>i j x y. i < j \<Longrightarrow> j < length xss \<Longrightarrow> x \<in> set (xss ! i) \<Longrightarrow> y \<in> set (xss ! j) \<Longrightarrow> P x y"
  shows "sorted_wrt P (concat xss)"
  using assms
proof (induction xss)
  case (Cons xs xss)
  have "sorted_wrt P (concat xss)"
    using Cons.prems(1)[of "Suc _"] Cons.prems(2)[of "Suc _" "Suc _"] by (intro Cons.IH) auto
  moreover have "P x y" if "x \<in> set xs" "y \<in> set (concat xss)" for x y
  proof -
    from that(2) obtain j where "j < length xss" "y \<in> set (xss ! j)" using set_concat_nth by metis
    then show ?thesis using Cons.prems(2)[of 0 "Suc j" x y] that(1) by simp
  qed
  ultimately show ?case using Cons.prems(1)[of 0] by (simp add: sorted_wrt_append)
qed simp

lemma bst_sorted: "bst n lo hi s \<Longrightarrow> sorted_wrt (<) (map fst (sentries s))"
proof (induction n lo hi s rule: bst.induct)
  case (2 n lo hi p lv ks ts)
  have "sorted_wrt (<) (concat (map (\<lambda>t. map fst (sentries t)) ts))"
  proof (rule sorted_wrt_concat_nth)
    fix i j x y
    assume ij: "i < j" "j < length (map (\<lambda>t. map fst (sentries t)) ts)"
      and "x \<in> set (map (\<lambda>t. map fst (sentries t)) ts ! i)" "y \<in> set (map (\<lambda>t. map fst (sentries t)) ts ! j)"
    then obtain e f where "x = fst e" "e \<in> set (sentries (ts ! i))" "y = fst f" "f \<in> set (sentries (ts ! j))" by auto
    then have "upto_key (hib hi ks i) x" "over_key (lob lo ks j) y"
      using 2 ij bst_keys[of n "lob lo ks i" "hib hi ks i" "ts ! i" e] bst_keys[of n "lob lo ks j" "hib hi ks j" "ts ! j" f]
      by auto
    then have "x \<le> ks ! i" "ks ! (j - 1) < y" using ij 2(2) by (simp_all add: hib_def lob_def)
    moreover have "ks ! i \<le> ks ! (j - 1)"
      using 2(2) ij by (intro sorted_nth_mono strict_sorted_imp_sorted) auto
    ultimately show "x < y" by simp
  qed (use 2 in auto)
  then show ?case by (simp add: map_concat comp_def)
qed simp

lemma kid_entries:
  assumes "bst n lo hi (SInner p lv ks ts)" "e \<in> set (sentries (SInner p lv ks ts))"
  shows "e \<in> set (sentries (kid (fst e) (SInner p lv ks ts)))"
proof -
  from assms(2) obtain i where i: "i < length ts" "e \<in> set (sentries (ts ! i))" using sentries_nth by metis
  then have "over_key (lob lo ks i) (fst e) \<and> upto_key (hib hi ks i) (fst e)"
    using assms(1) bst_keys[of n "lob lo ks i" "hib hi ks i" "ts ! i" e] by auto
  then have "lower_bound ks (fst e) = i" using key_in_child[of i ks lo "fst e" hi] assms(1) i(1) by auto
  with i show ?thesis by (simp add: kid_def)
qed

lemma sub_entries:
  assumes "bst n lo hi s" "j \<le> slevel s"
  shows "(k, v) \<in> set (sentries s) \<longleftrightarrow> (k, v) \<in> set (sentries (sub k j s))"
  using assms
proof (induction j arbitrary: s lo hi)
  case (Suc j)
  then obtain p d ks ts where s: "s = SInner p (Suc d) ks ts" by (metis Suc_le_D slevel_Suc)
  have "set (sentries (kid k s)) \<subseteq> set (sentries s)"
    using Suc.prems(1) lower_bound_child[of ts ks k] sentries_nth[of _ p "Suc d" ks ts] unfolding s kid_def by auto
  then have "(k, v) \<in> set (sentries s) \<longleftrightarrow> (k, v) \<in> set (sentries (kid k s))"
    using kid_entries[of n lo hi p "Suc d" ks ts "(k, v)"] Suc.prems(1) s by auto
  then show ?case
    using Suc.IH[OF kid_bst(1)[of n lo hi p "Suc d" ks ts k]] Suc.prems kid_bst(2)[of n lo hi p "Suc d" ks ts k] s
    by simp
qed simp

subsection \<open>Splitting\<close>

lemma nth_insert_key:
  "i \<le> length ks \<Longrightarrow> (take i ks @ mk # drop i ks) ! j = (if j < i then ks ! j else if j = i then mk else ks ! (j - 1))"
  by (auto simp: nth_append min_def nth_Cons')

lemma nth_insert_kids:
  "i < length ts \<Longrightarrow> (take i ts @ l # r # drop (Suc i) ts) ! j =
     (if j < i then ts ! j else if j = i then l else if j = Suc i then r else ts ! (j - 1))"
  by (auto simp: nth_append min_def nth_Cons' numeral_2_eq_2 Suc_diff_Suc)

lemma sorted_insert_key:
  assumes "sorted_wrt (<) ks" "i \<le> length ks" "over_key (lob lo ks i) mk" "below_key (hib hi ks i) mk"
  shows "sorted_wrt (<) (take i ks @ mk # drop i ks)"
proof -
  have i: "lower_bound ks mk = i" using key_in_child[OF assms(2,1,3)] assms(4) by (blast intro: below_upto)
  have "mk \<notin> set ks"
  proof
    assume "mk \<in> set ks"
    then have "i < length ks" "ks ! i = mk"
      using lower_bound_found[OF strict_sorted_imp_sorted[OF assms(1)], of mk] i by auto
    then show False using assms(4) by (simp add: hib_def)
  qed
  then show ?thesis using sorted_insert_at[OF assms(1)] i by blast
qed

text \<open>The child \<open>i\<close> of an inner node is replaced by two nodes that share its range.\<close>

lemma bst_split_child:
  assumes b: "bst n lo hi (SInner q lv ks ts)" and i: "i \<le> length ks" and room: "length ks < n"
    and mk: "over_key (lob lo ks i) mk" "below_key (hib hi ks i) mk"
    and l: "bst n (lob lo ks i) (Some mk) l" "Suc (slevel l) = lv"
    and r: "bst n (Some mk) (hib hi ks i) r" "Suc (slevel r) = lv"
  shows "bst n lo hi (SInner q lv (take i ks @ mk # drop i ks) (take i ts @ l # r # drop (Suc i) ts))"
proof -
  let ?ks = "take i ks @ mk # drop i ks" and ?ts = "take i ts @ l # r # drop (Suc i) ts"
  have len: "length ts = Suc (length ks)" "sorted_wrt (<) ks" using b by simp_all
  have range: "over_key lo mk \<and> upto_key hi mk"
    using child_bounds[of ks lo hi i mk] b i mk by (auto intro: below_upto)
  have "below_key hi mk"
  proof (cases "i < length ks")
    case True
    then have "below_key hi (ks ! i)" using b nth_mem[of i ks] by auto
    then show ?thesis using True mk(2) by (cases hi) (auto simp: hib_def)
  qed (use mk(2) in \<open>simp add: hib_def\<close>)
  then have keys: "\<forall>k\<in>set ?ks. over_key lo k \<and> below_key hi k"
    using b range by (auto dest: in_set_takeD in_set_dropD)
  have "Suc (slevel (?ts ! j)) = lv \<and> bst n (lob lo ?ks j) (hib hi ?ks j) (?ts ! j)" if "j < length ?ts" for j
  proof -
    have old: "Suc (slevel (ts ! j')) = lv \<and> bst n (lob lo ks j') (hib hi ks j') (ts ! j')" if "j' < length ts" for j'
      using b that by simp
    consider "j < i" | "j = i" | "j = Suc i" | "Suc i < j" by linarith
    then show ?thesis
    proof cases
      case 1
      then have "lob lo ?ks j = lob lo ks j" "hib hi ?ks j = hib hi ks j" "?ts ! j = ts ! j"
        using i len by (auto simp: lob_def hib_def nth_insert_key nth_insert_kids)
      then show ?thesis using old[of j] 1 i len by simp
    next
      case 2
      then have "lob lo ?ks j = lob lo ks i" "hib hi ?ks j = Some mk" "?ts ! j = l"
        using i len by (auto simp: lob_def hib_def nth_insert_key nth_insert_kids)
      then show ?thesis using l by simp
    next
      case 3
      then have "lob lo ?ks j = Some mk" "hib hi ?ks j = hib hi ks i" "?ts ! j = r"
        using i len by (auto simp: lob_def hib_def nth_insert_key nth_insert_kids)
      then show ?thesis using r by simp
    next
      case 4
      then have "lob lo ?ks j = lob lo ks (j - 1)" "hib hi ?ks j = hib hi ks (j - 1)" "?ts ! j = ts ! (j - 1)"
        using i len that by (auto simp: lob_def hib_def nth_insert_key nth_insert_kids)
      then show ?thesis using old[of "j - 1"] 4 that i len by simp
    qed
  qed
  then show ?thesis
    using keys room i len sorted_insert_key[OF len(2) i mk] by simp
qed

text \<open>The two halves of an inner node.\<close>

lemma bst_halves:
  assumes b: "bst n lo hi (SInner c lv ks ts)" and m: "m < length ks"
  shows "bst n lo (Some (ks ! m)) (SInner p lv (take m ks) (take (Suc m) ts))"
    "bst n (Some (ks ! m)) hi (SInner q lv (drop (Suc m) ks) (drop (Suc m) ts))"
    "over_key lo (ks ! m)" "below_key hi (ks ! m)"
proof -
  have len: "length ts = Suc (length ks)" "sorted_wrt (<) ks" "length ks \<le> n" using b by simp_all
  have old: "Suc (slevel (ts ! j)) = lv \<and> bst n (lob lo ks j) (hib hi ks j) (ts ! j)" if "j < length ts" for j
    using b that by simp
  show "over_key lo (ks ! m)" "below_key hi (ks ! m)" using b m by auto
  have lt: "ks ! i < ks ! j" if "i < j" "j < length ks" for i j
    using sorted_wrt_nth_less[OF len(2)] that by simp
  have "k < ks ! m" if "k \<in> set (take m ks)" for k using that m lt by (auto simp: in_set_conv_nth)
  moreover have "Suc (slevel (take (Suc m) ts ! j)) = lv \<and>
      bst n (lob lo (take m ks) j) (hib (Some (ks ! m)) (take m ks) j) (take (Suc m) ts ! j)" if "j < Suc m" for j
  proof -
    have "lob lo (take m ks) j = lob lo ks j" "hib (Some (ks ! m)) (take m ks) j = hib hi ks j"
      using that m by (auto simp: lob_def hib_def less_Suc_eq)
    then show ?thesis using old[of j] that m len by simp
  qed
  moreover have "\<forall>k\<in>set (take m ks). over_key lo k" using b by (auto dest: in_set_takeD)
  ultimately show "bst n lo (Some (ks ! m)) (SInner p lv (take m ks) (take (Suc m) ts))"
    using m len by (simp add: sorted_wrt_take)
  have "ks ! m < k" if "k \<in> set (drop (Suc m) ks)" for k using that m lt by (auto simp: in_set_conv_nth)
  moreover have "Suc (slevel (drop (Suc m) ts ! j)) = lv \<and>
      bst n (lob (Some (ks ! m)) (drop (Suc m) ks) j) (hib hi (drop (Suc m) ks) j) (drop (Suc m) ts ! j)"
    if "j < length (drop (Suc m) ts)" for j
  proof -
    have "lob (Some (ks ! m)) (drop (Suc m) ks) j = lob lo ks (Suc m + j)" "hib hi (drop (Suc m) ks) j = hib hi ks (Suc m + j)"
      using that m len by (auto simp: lob_def hib_def)
    then show ?thesis using old[of "Suc m + j"] that m len by simp
  qed
  moreover have "\<forall>k\<in>set (drop (Suc m) ks). below_key hi k" using b by (auto dest: in_set_dropD)
  ultimately show "bst n (Some (ks ! m)) hi (SInner q lv (drop (Suc m) ks) (drop (Suc m) ts))"
    using m len by (simp add: sorted_wrt_drop) arith
qed

lemma concat_split_child:
  "i < length ts \<Longrightarrow> F (ts ! i) = F l @ F r \<Longrightarrow>
     concat (map F (take i ts @ l # r # drop (Suc i) ts)) = concat (map F ts)"
  by (simp add: id_take_nth_drop[of i ts, THEN arg_cong, of "\<lambda>x. concat (map F x)"])

lemma concat_halves: "concat (map F (take m ts)) @ concat (map F (drop m ts)) = concat (map F ts)"
  by (metis append_take_drop_id concat_append map_append)

lemma bst_empty_new_root:
  assumes "bst n None (Some mk) l" "bst n (Some mk) None r" "slevel l = lv" "slevel r = lv" "0 < n"
  shows "bst n None None (SInner p (Suc lv) [mk] [l, r])"
  using assms by (auto simp: lob_def hib_def less_Suc_eq)

end
