(* ===== verification/BTreeInv.thy ===== *)
theory BTreeInv
  imports BTreeShape
begin

text \<open>
  The memory pool of a tree represents a shape (\<open>repr\<close>), the leaves of the shape form a doubly linked list
  in key order (\<open>dlink\<close>), and every operation of the tree runs to completion and keeps both.
\<close>

lemma nat_one_plus [simp]: "nat (1 + int x) = Suc x"
  by simp

subsection \<open>Inner nodes\<close>

definition inner_wf :: "nat \<Rightarrow> 'k inner_node \<Rightarrow> bool" where
  "inner_wf n i \<longleftrightarrow> in_consistent_id i < 2 \<and> inner_size i \<le> n
     \<and> length (ie_entries (in_v0 i)) = n \<and> length (ie_entries (in_v1 i)) = n
     \<and> length (ie_children (in_v0 i)) = Suc n \<and> length (ie_children (in_v1 i)) = Suc n"

definition inner_keys :: "'k inner_node \<Rightarrow> 'k list" where
  "inner_keys i = take (inner_size i) (ie_entries (inner_consistent i))"

definition inner_kids :: "'k inner_node \<Rightarrow> nat option list" where
  "inner_kids i = take (Suc (inner_size i)) (ie_children (inner_consistent i))"

lemma inner_wfD:
  assumes "inner_wf n i"
  shows "in_consistent_id i < 2" "inner_size i \<le> n" "length (inner_keys i) = inner_size i"
    "length (inner_kids i) = Suc (inner_size i)"
    "length (ie_entries (inner_consistent i)) = n" "length (ie_children (inner_consistent i)) = Suc n"
    "length (ie_entries (inner_working_copy i)) = n" "length (ie_children (inner_working_copy i)) = Suc n"
  using assms by (auto simp: inner_wf_def inner_keys_def inner_kids_def inner_consistent_def inner_working_copy_def)

lemma inner_range_ok: "inner_wf n i \<Longrightarrow> inner_range i = Inr (inner_keys i)"
  using inner_wfD[of n i] by (simp add: inner_range_def inner_keys_def)

lemma inner_get_left_child_ok:
  "inner_wf n i \<Longrightarrow> pos \<le> inner_size i \<Longrightarrow> inner_get_left_child i pos = Inr (inner_kids i ! pos)"
  using inner_wfD[of n i] by (simp add: inner_get_left_child_def inner_kids_def)

lemma inner_get_child_ok:
  assumes "inner_wf n i"
  shows "inner_get_child i key = Inr (inner_kids i ! lower_bound (inner_keys i) key)"
  using lower_bound_le[of "inner_keys i" key] inner_wfD(3)[OF assms]
  by (simp add: inner_get_child_def inner_range_ok[OF assms] inner_get_left_child_ok[OF assms])

definition fresh_inner :: "nat \<Rightarrow> 'k \<Rightarrow> nat \<Rightarrow> 'k list \<Rightarrow> nat option list \<Rightarrow> 'k inner_node" where
  "fresh_inner n dflt level ks cs =
     \<lparr>in_level = level,
      in_v0 = \<lparr>ie_entries = ks @ replicate (n - length ks) dflt,
               ie_children = cs @ replicate (Suc n - length cs) None, ie_size = length ks\<rparr>,
      in_v1 = inner_entries_new n dflt, in_consistent_id = 0\<rparr>"

lemma fresh_inner_ok:
  assumes "length ks \<le> n" "length cs = Suc (length ks)"
  shows "inner_wf n (fresh_inner n dflt level ks cs)" "inner_keys (fresh_inner n dflt level ks cs) = ks"
    "inner_kids (fresh_inner n dflt level ks cs) = cs" "in_level (fresh_inner n dflt level ks cs) = level"
  using assms
  by (simp_all add: inner_wf_def inner_keys_def inner_kids_def fresh_inner_def inner_size_def inner_consistent_def
      inner_entries_new_def)

lemma inner_node_new_ok:
  "0 < n \<Longrightarrow> inner_node_new n dflt level key c0 c1 = Inr (fresh_inner n dflt level [key] [c0, c1])"
  by (cases n) (simp_all add: inner_node_new_def fresh_inner_def)

lemma inner_node_copy_ok:
  assumes "inner_wf n src" "lo \<le> hi" "hi \<le> inner_size src" "sorted (inner_keys src)"
  shows "inner_node_copy n dflt level src lo hi =
     Inr (fresh_inner n dflt level (drop lo (take hi (inner_keys src))) (drop lo (take (Suc hi) (inner_kids src))))"
proof -
  note wf = inner_wfD[OF assms(1)]
  let ?ks = "drop lo (take hi (inner_keys src))" and ?cs = "drop lo (take (Suc hi) (inner_kids src))"
  have ks: "arr_slice (ie_entries (inner_consistent src)) (int lo) (int hi - int lo) = Inr ?ks"
    using assms(2,3) wf(2,5) by (simp add: inner_keys_def take_drop min_def nat_diff_distrib)
  have len: "length ?ks = hi - lo" using assms(2,3) wf(3) by simp
  have cs: "arr_slice (ie_children (inner_consistent src)) (int lo) (int (length ?ks + 1)) = Inr ?cs"
    unfolding len using assms(2,3) wf(2,6) by (simp add: inner_kids_def take_drop min_def Suc_diff_le nat_diff_distrib nat_add_distrib)
  have "sorted ?ks" using assms(4) by (simp add: sorted_wrt_take sorted_wrt_drop)
  moreover have "length ?ks \<le> n" "length ?cs \<le> Suc n" using len assms(3) wf(2,4) by auto
  moreover have "drop m (None # replicate n None) = replicate (Suc n - m) None" for m
    by (metis drop_replicate replicate_Suc)
  ultimately show ?thesis
    unfolding inner_node_copy_def ks andthen_simps cs
    by (simp add: guarded_def fresh_inner_def del: length_drop length_take)
qed

lemma inner_commit:
  assumes "inner_wf n i" "length (ie_entries e) = n" "length (ie_children e) = Suc n" "ie_size e \<le> n"
  shows "inner_wf n (inner_switch_consistent (set_inner_working_copy e i))"
    "inner_consistent (inner_switch_consistent (set_inner_working_copy e i)) = e"
    "in_level (inner_switch_consistent (set_inner_working_copy e i)) = in_level i"
  using assms
  by (auto simp: inner_wf_def inner_size_def inner_consistent_def inner_switch_consistent_def set_inner_working_copy_def)

lemma inner_update_ok:
  assumes "inner_wf n i" "inner_size i < n" "sorted (inner_keys i)"
    and "j = lower_bound (inner_keys i) key" "inner_kids i ! j = sp"
    and "sorted (take j (inner_keys i) @ key # drop j (inner_keys i))"
  shows "\<exists>i'. inner_update_splitted_child n i key l r sp = Inr i' \<and> inner_wf n i' \<and> in_level i' = in_level i
     \<and> inner_keys i' = take j (inner_keys i) @ key # drop j (inner_keys i)
     \<and> inner_kids i' = take j (inner_kids i) @ l # r # drop (Suc j) (inner_kids i)"
proof -
  note wf = inner_wfD[OF assms(1)]
  let ?w = "inner_working_copy i"
  define ks cs where "ks = take j (inner_keys i) @ key # drop j (inner_keys i)"
    and "cs = take j (inner_kids i) @ l # r # drop (Suc j) (inner_kids i)"
  have j: "j \<le> inner_size i" using lower_bound_le[of "inner_keys i" key] wf(3) assms(4) by simp
  have lens: "length ks = Suc (inner_size i)" "length cs = Suc (Suc (inner_size i))" using j wf(3,4) by (simp_all add: ks_def cs_def)
  define e where "e = \<lparr>ie_entries = ks @ drop (length ks) (ie_entries ?w),
             ie_children = cs @ drop (length cs) (ie_children ?w), ie_size = Suc (inner_size i)\<rparr>"
  define i' where "i' = inner_switch_consistent (set_inner_working_copy e i)"
  have e: "length (ie_entries e) = n" "length (ie_children e) = Suc n" "ie_size e = Suc (inner_size i)"
    "take (Suc (inner_size i)) (ie_entries e) = ks" "take (Suc (Suc (inner_size i))) (ie_children e) = cs"
    using lens assms(2) wf(7,8) by (simp_all add: e_def)
  have "ie_size e \<le> n" using e(3) assms(2) by simp
  note commit = inner_commit[OF assms(1) e(1,2) this, folded i'_def]
  have keys: "inner_keys i' = ks" "inner_kids i' = cs"
    unfolding inner_keys_def[of i'] inner_kids_def[of i'] inner_size_def[of i'] commit(2) e(3) by (fact e)+
  have kids: "arr_slice (ie_children (inner_consistent i)) 0 (int (inner_size i + 1)) = Inr (inner_kids i)"
    using wf(2,6) by (simp add: inner_kids_def)
  have blits: "arr_blit (ie_entries ?w) 0 ks = Inr (ie_entries e)" "arr_blit (ie_children ?w) 0 cs = Inr (ie_children e)"
    using lens assms(2) wf(7,8) by (simp_all add: e_def)
  have "\<lparr>ie_entries = ie_entries e, ie_children = ie_children e, ie_size = length (inner_keys i) + 1\<rparr> = e"
    using e(3) wf(3) by simp
  then have "inner_update_splitted_child n i key l r sp = Inr i'"
    unfolding inner_update_splitted_child_def inner_range_ok[OF assms(1)] andthen_simps Let_def assms(4)[symmetric] kids
      ks_def[symmetric] blits(1)
    unfolding Suc_eq_plus1[symmetric] cs_def[symmetric] blits(2)
    using assms(2,5) assms(6)[folded ks_def] inner_range_ok[OF commit(1)] keys by (simp add: guarded_def inner_full_def i'_def)
  then show ?thesis using commit(1,3) keys unfolding ks_def cs_def by blast
qed

subsection \<open>Memory and shapes\<close>

fun repr :: "nat \<Rightarrow> (nat \<rightharpoonup> ('k::linorder, 'v) bnode) \<Rightarrow> ('k, 'v) shape \<Rightarrow> bool" where
  "repr n h (SLeaf p es) \<longleftrightarrow> (\<exists>l. h p = Some (LeafN l) \<and> leaf_wf n l \<and> leaf_list l = es)"
| "repr n h (SInner p lv ks ts) \<longleftrightarrow>
     (\<exists>i. h p = Some (InnerN i) \<and> inner_wf n i \<and> in_level i = lv \<and> inner_keys i = ks
        \<and> inner_kids i = map (\<lambda>t. Some (sptr t)) ts)
     \<and> (\<forall>t\<in>set ts. repr n h t)"

text \<open>A memory cell that may have changed without changing what it represents.\<close>

definition same_view :: "nat \<Rightarrow> ('k::linorder, 'v) bnode option \<Rightarrow> ('k, 'v) bnode option \<Rightarrow> bool" where
  "same_view n a b \<longleftrightarrow> b = a \<or> (\<exists>l l'. a = Some (LeafN l) \<and> b = Some (LeafN l')
     \<and> leaf_list l' = leaf_list l \<and> (leaf_wf n l \<longrightarrow> leaf_wf n l'))"

lemma same_view_refl [simp]: "same_view n a a"
  by (simp add: same_view_def)

lemma same_view_trans: "same_view n a b \<Longrightarrow> same_view n b c \<Longrightarrow> same_view n a c"
  unfolding same_view_def by auto

lemma repr_cong:
  assumes "repr n h s" "\<And>p. p \<in> set (ptrs s) \<Longrightarrow> same_view n (h p) (h' p)"
  shows "repr n h' s"
  using assms
proof (induction s)
  case (SLeaf p es)
  then show ?case by (auto simp: same_view_def)
next
  case (SInner p lv ks ts)
  have "h' p = h p" using SInner.prems by (auto simp: same_view_def dest: meta_spec[of _ p])
  then show ?case using SInner by auto
qed

primrec dlink :: "(nat \<rightharpoonup> ('k, 'v) bnode) \<Rightarrow> nat option \<Rightarrow> nat list \<Rightarrow> nat option \<Rightarrow> bool" where
  "dlink h a [] b \<longleftrightarrow> True"
| "dlink h a (p # ps) b \<longleftrightarrow>
     (\<exists>l. h p = Some (LeafN l) \<and> lf_prev l = a \<and> lf_next l = (if ps = [] then b else Some (hd ps)))
     \<and> dlink h (Some p) ps b"

lemma dlink_append:
  "dlink h a (xs @ ys) b \<longleftrightarrow>
     dlink h a xs (if ys = [] then b else Some (hd ys)) \<and> dlink h (if xs = [] then a else Some (last xs)) ys b"
  by (induction xs arbitrary: a) auto

definition same_links :: "('k, 'v) bnode option \<Rightarrow> ('k, 'v) bnode option \<Rightarrow> bool" where
  "same_links a b \<longleftrightarrow> (\<forall>l. a = Some (LeafN l) \<longrightarrow>
     (\<exists>l'. b = Some (LeafN l') \<and> lf_prev l' = lf_prev l \<and> lf_next l' = lf_next l))"

lemma same_links_refl [simp]: "same_links a a"
  by (simp add: same_links_def)

lemma dlink_cong:
  "dlink h a ps b \<Longrightarrow> (\<And>p. p \<in> set ps \<Longrightarrow> same_links (h p) (h' p)) \<Longrightarrow> dlink h' a ps b"
proof (induction ps arbitrary: a)
  case (Cons p ps)
  then have "same_links (h p) (h' p)" by simp
  with Cons show ?case by (fastforce simp: same_links_def)
qed simp

lemma sptr_in [simp]: "sptr s \<in> set (ptrs s)"
  by (cases s) simp_all

lemma leaves_ptrs: "set (sleaves s) \<subseteq> set (ptrs s)"
  by (induction s) auto

definition tree_ok :: "('k::linorder, 'v) b_tree \<Rightarrow> ('k, 'v) shape \<Rightarrow> bool" where
  "tree_ok t s \<longleftrightarrow> 2 \<le> bt_slots t \<and> bst (bt_slots t) None None s \<and> repr (bt_slots t) (bt_heap t) s
     \<and> distinct (ptrs s) \<and> (\<forall>p\<in>set (ptrs s). p < bt_next t) \<and> dlink (bt_heap t) None (sleaves s) None
     \<and> bt_root t = Some (sptr s) \<and> bt_split_node t = None"

subsection \<open>Walking down\<close>

lemma repr_root:
  assumes "repr n h s" "bst n lo hi s"
  shows "\<exists>nd. h (sptr s) = Some nd \<and> node_level nd = slevel s"
  using assms by (cases s) (auto simp: node_level_def)

lemma repr_kid:
  assumes "repr n h (SInner p lv ks ts)" "length ts = Suc (length ks)"
  shows "repr n h (kid k (SInner p lv ks ts))"
  using assms lower_bound_child[of ts ks k] by (simp add: kid_def)

text \<open>A way to pick a child in memory that follows a way to pick a child of a shape.\<close>

definition picks ::
  "nat \<Rightarrow> ('k inner_node \<Rightarrow> nat option res) \<Rightarrow> (('k, 'v) shape \<Rightarrow> ('k, 'v) shape) \<Rightarrow> bool" where
  "picks n pick next \<longleftrightarrow> (\<forall>p lv ks ts i. inner_wf n i \<and> inner_keys i = ks
     \<and> inner_kids i = map (\<lambda>t. Some (sptr t)) ts \<and> length ts = Suc (length ks) \<longrightarrow>
     pick i = Inr (Some (sptr (next (SInner p lv ks ts)))) \<and> next (SInner p lv ks ts) \<in> set ts)"

lemma picks_key: "picks n (\<lambda>i. inner_get_child i k) (kid k)"
  unfolding picks_def by (auto simp: inner_get_child_ok kid_def less_Suc_eq_le lower_bound_le)

definition first_kid :: "('k, 'v) shape \<Rightarrow> ('k, 'v) shape" where
  "first_kid s = (case s of SInner p lv ks ts \<Rightarrow> ts ! 0 | SLeaf p es \<Rightarrow> s)"

definition last_kid :: "('k, 'v) shape \<Rightarrow> ('k, 'v) shape" where
  "last_kid s = (case s of SInner p lv ks ts \<Rightarrow> ts ! length ks | SLeaf p es \<Rightarrow> s)"

lemma picks_first: "picks n (\<lambda>i. inner_get_left_child i 0) first_kid"
  unfolding picks_def by (auto simp: inner_get_left_child_ok first_kid_def)

lemma picks_last: "picks n (\<lambda>i. inner_get_left_child i (inner_size i)) last_kid"
  unfolding picks_def
proof (intro allI impI, elim conjE)
  fix p lv ks and ts :: "('k, 'v) shape list" and i :: "'k inner_node"
  assume i: "inner_wf n i" "inner_keys i = ks" "inner_kids i = map (\<lambda>t. Some (sptr t)) ts" "length ts = Suc (length ks)"
  then show "inner_get_left_child i (inner_size i) = Inr (Some (sptr (last_kid (SInner p lv ks ts)))) \<and>
      last_kid (SInner p lv ks ts) \<in> set ts"
    using inner_wfD(3)[OF i(1)] inner_get_left_child_ok[OF i(1) order_refl] by (simp add: last_kid_def)
qed

lemma descend_ok:
  assumes "repr n h s" "bst n lo hi s" "slevel s < fuel" "bt_heap t = h"
    and "picks n pick next"
  shows "descend fuel t pick (Some (sptr s)) path =
     Inr (path @ map (\<lambda>j. Some (sptr ((next ^^ j) s))) [0..<slevel s], Some (sptr ((next ^^ slevel s) s)))"
  using assms(1-3)
proof (induction fuel arbitrary: s lo hi path)
  case (Suc fuel)
  obtain nd where nd: "h (sptr s) = Some nd" "node_level nd = slevel s" using repr_root[OF Suc.prems(1,2)] by blast
  show ?case
  proof (cases s)
    case (SLeaf p es)
    then show ?thesis using nd assms(4) by (simp add: bt_deref_def)
  next
    case (SInner p lv ks ts)
    have len: "length ts = Suc (length ks)" using Suc.prems(2) SInner by simp
    obtain i where i: "h p = Some (InnerN i)" "inner_wf n i" "in_level i = lv" "inner_keys i = ks"
        "inner_kids i = map (\<lambda>t. Some (sptr t)) ts" using Suc.prems(1) SInner by auto
    have pk: "pick i = Inr (Some (sptr (next (SInner p lv ks ts)))) \<and> next (SInner p lv ks ts) \<in> set ts"
      using assms(5) i(2,4,5) len unfolding picks_def by blast
    then obtain c where c: "c < length ts" "next s = ts ! c" using SInner by (metis in_set_conv_nth)
    have kid: "bst n (lob lo ks c) (hib hi ks c) (next s)" "Suc (slevel (next s)) = lv" "repr n h (next s)"
      using Suc.prems(1,2) SInner c by simp_all
    obtain d where d: "lv = Suc d" "slevel (next s) = d" using kid(2) by auto
    have "descend fuel t pick (Some (sptr (next s))) (path @ [Some p]) =
        Inr ((path @ [Some p]) @ map (\<lambda>j. Some (sptr ((next ^^ j) (next s)))) [0..<d], Some (sptr ((next ^^ d) (next s))))"
      using Suc.IH[OF kid(3,1)] d Suc.prems(3) SInner by simp
    moreover have "[0..<Suc d] = 0 # map Suc [0..<d]" by (simp add: upt_conv_Cons map_Suc_upt)
    ultimately show ?thesis
      using i pk assms(4) SInner d(1)
      by (simp add: bt_deref_def get_inner_def node_level_def funpow_swap1 comp_def del: upt_Suc)
  qed
qed simp

lemma sub_funpow: "sub k j s = (kid k ^^ j) s"
  by (induction j arbitrary: s) (simp_all add: funpow_swap1)

lemma sub_leaf:
  assumes "bst n lo hi s"
  obtains p es where "sub k (slevel s) s = SLeaf p es"
  using sub_bst[OF assms order_refl, of k] slevel_0 by (metis diff_self_eq_0)

lemma sub_ptrs: "bst n lo hi s \<Longrightarrow> j \<le> slevel s \<Longrightarrow> set (ptrs (sub k j s)) \<subseteq> set (ptrs s)"
  using repl_ptrs[of n lo hi s j k] by auto

lemma repr_sub: "repr n h s \<Longrightarrow> bst n lo hi s \<Longrightarrow> j \<le> slevel s \<Longrightarrow> repr n h (sub k j s)"
proof (induction j arbitrary: s lo hi)
  case (Suc j)
  then obtain p d ks ts where s: "s = SInner p (Suc d) ks ts" by (metis Suc_le_D slevel_Suc)
  then show ?case
    using Suc.IH[OF repr_kid[of n h p "Suc d" ks ts k] kid_bst(1)[of n lo hi p "Suc d" ks ts k]] Suc.prems
      kid_bst(2)[of n lo hi p "Suc d" ks ts k]
    by simp
qed simp

text \<open>Memory changes that keep every cell's view and links keep the tree.\<close>

lemma tree_touch:
  assumes "tree_ok t s"
    and "\<And>p. p \<in> set (ptrs s) \<Longrightarrow> same_view (bt_slots t) (bt_heap t p) (h' p) \<and> same_links (bt_heap t p) (h' p)"
  shows "tree_ok (t\<lparr>bt_heap := h'\<rparr>) s"
proof -
  have ok: "repr (bt_slots t) (bt_heap t) s" "dlink (bt_heap t) None (sleaves s) None"
    using assms(1) by (simp_all add: tree_ok_def)
  have "repr (bt_slots t) h' s" using assms(2) by (intro repr_cong[OF ok(1)]) blast
  moreover have "dlink h' None (sleaves s) None"
    using assms(2) leaves_ptrs[of s] by (intro dlink_cong[OF ok(2)]) blast
  ultimately show ?thesis using assms(1) by (simp add: tree_ok_def)
qed

lemma check_same:
  assumes "leaf_wf n l"
  shows "same_view n (Some (LeafN l)) (Some (LeafN (leaf_check_consistency e l)))"
    "same_links (Some (LeafN l)) (Some (LeafN (leaf_check_consistency e l)))"
  using leaf_check_consistency_ok[OF assms, of e] by (auto simp: same_view_def same_links_def)

lemma walk_down_ok:
  assumes "tree_ok t s"
    and "picks (bt_slots t) pick next"
    and leaf: "(next ^^ slevel s) s = SLeaf p es" "repr (bt_slots t) (bt_heap t) (SLeaf p es)" "p \<in> set (ptrs s)"
  shows "\<exists>t1 l. walk_down t pick = Inr (map (\<lambda>j. Some (sptr ((next ^^ j) s))) [0..<slevel s], Some p, t1)
     \<and> tree_ok t1 s \<and> (\<exists>h. t1 = t\<lparr>bt_heap := h\<rparr>) \<and> bt_heap t1 p = Some (LeafN l) \<and> leaf_wf (bt_slots t) l \<and> leaf_list l = es"
proof -
  have ok: "repr (bt_slots t) (bt_heap t) s" "bst (bt_slots t) None None s" "bt_root t = Some (sptr s)"
    using assms(1) by (simp_all add: tree_ok_def)
  obtain nd where nd: "bt_heap t (sptr s) = Some nd" "node_level nd = slevel s" using repr_root[OF ok(1,2)] by blast
  obtain l where l: "bt_heap t p = Some (LeafN l)" "leaf_wf (bt_slots t) l" "leaf_list l = es" using leaf(2) by auto
  let ?l = "leaf_check_consistency (bt_epoch t) l"
  let ?t = "t\<lparr>bt_heap := (bt_heap t)(p \<mapsto> LeafN ?l)\<rparr>"
  have walk: "descend (node_level nd + 1) t pick (bt_root t) [] =
      Inr (map (\<lambda>j. Some (sptr ((next ^^ j) s))) [0..<slevel s], Some p)"
    using descend_ok[OF ok(1,2), of "node_level nd + 1" t pick "next" "[]"] nd(2) assms(2) leaf(1) ok(3) by simp
  have "bt_deref t (bt_root t) = Inr nd" "get_leaf t (Some p) = Inr l"
    using nd(1) l(1) ok(3) by (simp_all add: bt_deref_def get_leaf_def)
  then have "walk_down t pick = Inr (map (\<lambda>j. Some (sptr ((next ^^ j) s))) [0..<slevel s], Some p, ?t)"
    unfolding walk_down_def using walk by (simp add: put_node_def del: descend.simps)
  moreover have "tree_ok ?t s"
    using check_same[OF l(2), of "bt_epoch t"] l(1) by (intro tree_touch[OF assms(1)]) auto
  moreover have "leaf_wf (bt_slots t) ?l" "leaf_list ?l = es" using leaf_check_consistency_ok[OF l(2)] l(3) by simp_all
  ultimately show ?thesis by (intro exI[of _ ?t] exI[of _ ?l]) auto
qed

lemma walk_key_ok:
  assumes "tree_ok t s" "sub k (slevel s) s = SLeaf p es"
  shows "\<exists>t1 l. walk_down t (\<lambda>i. inner_get_child i k) = Inr (map (\<lambda>j. Some (sptr (sub k j s))) [0..<slevel s], Some p, t1)
     \<and> tree_ok t1 s \<and> (\<exists>h. t1 = t\<lparr>bt_heap := h\<rparr>) \<and> bt_heap t1 p = Some (LeafN l) \<and> leaf_wf (bt_slots t) l \<and> leaf_list l = es"
proof -
  have ok: "repr (bt_slots t) (bt_heap t) s" "bst (bt_slots t) None None s" using assms(1) by (simp_all add: tree_ok_def)
  have leaf: "repr (bt_slots t) (bt_heap t) (SLeaf p es)" using repr_sub[OF ok order_refl, of k] assms(2) by simp
  have "p \<in> set (ptrs s)" using sub_ptrs[OF ok(2) order_refl, of k] assms(2) by simp
  from walk_down_ok[OF assms(1) picks_key _ leaf this] show ?thesis
    using assms(2) unfolding sub_funpow by blast
qed

subsection \<open>Replacing a subtree in memory\<close>

lemma distinct_concat_nth:
  assumes "distinct (concat xss)" "c < length xss" "d < length xss" "c \<noteq> d"
  shows "set (xss ! c) \<inter> set (xss ! d) = {}"
proof -
  have less: "set (xss ! i) \<inter> set (xss ! j) = {}" if "i < j" "j < length xss" for i j
  proof -
    have "concat xss = concat (take j xss) @ xss ! j @ concat (drop (Suc j) xss)"
      using id_take_nth_drop[OF that(2)] by (metis concat.simps(2) concat_append)
    moreover have "xss ! i \<in> set (take j xss)" using that by (auto simp: in_set_conv_nth)
    ultimately show ?thesis using assms(1) by auto
  qed
  show ?thesis using less[of c d] less[of d c] assms(2-4) by (cases c d rule: linorder_cases) auto
qed

lemma repr_repl:
  assumes "repr n h s" "bst n lo hi s" "j \<le> slevel s" "distinct (ptrs s)"
    and "repr n h' x" "sptr x = sptr (sub k j s)"
    and "\<And>p. p \<in> set (ptrs s) \<Longrightarrow> p \<notin> set (ptrs (sub k j s)) \<Longrightarrow> same_view n (h p) (h' p)"
  shows "repr n h' (repl k j x s)"
  using assms
proof (induction j arbitrary: s lo hi)
  case (Suc j)
  then obtain p d ks ts where s: "s = SInner p (Suc d) ks ts" by (metis Suc_le_D slevel_Suc)
  let ?i = "lower_bound ks k"
  have i: "?i < length ts" using Suc.prems(2) s lower_bound_child[of ts ks k] by simp
  have kid: "kid k s = ts ! ?i" by (simp add: s kid_def)
  have kid_ok: "bst n (lob lo ks ?i) (hib hi ks ?i) (ts ! ?i)" "slevel (ts ! ?i) = d" "repr n h (ts ! ?i)"
    using Suc.prems(1,2) s i by auto
  have inside: "set (ptrs (sub k j (ts ! ?i))) \<subseteq> set (ptrs (ts ! ?i))"
    using sub_ptrs[OF kid_ok(1)] Suc.prems(3) kid_ok(2) s by simp
  have dist: "distinct (ptrs (ts ! ?i))" "p \<notin> set (ptrs (ts ! ?i))"
    using Suc.prems(4) s i by (auto simp: distinct_concat_iff)
  have others: "set (ptrs (ts ! c)) \<inter> set (ptrs (ts ! ?i)) = {}" if "c < length ts" "c \<noteq> ?i" for c
    using Suc.prems(4) that i s distinct_concat_nth[of "map ptrs ts" c ?i] by auto
  have in_s: "set (ptrs (ts ! c)) \<subseteq> set (ptrs s)" if "c < length ts" for c
    using nth_mem[OF that] by (auto simp: s)
  have subs: "sub k (Suc j) s = sub k j (ts ! ?i)" by (simp add: kid)
  have view: "same_view n (h q) (h' q)" if "q \<in> set (ptrs s)" "q \<notin> set (ptrs (sub k j (ts ! ?i)))" for q
    using Suc.prems(7)[of q] that unfolding subs by blast
  have "repr n h' (repl k j x (ts ! ?i))"
  proof (rule Suc.IH[OF kid_ok(3,1) _ dist(1) Suc.prems(5)])
    show "j \<le> slevel (ts ! ?i)" using Suc.prems(3) kid_ok(2) s by simp
    show "sptr x = sptr (sub k j (ts ! ?i))" using Suc.prems(6) subs by simp
  qed (use view in_s[OF i] in blast)
  moreover have "repr n h' (ts ! c)" if "c < length ts" "c \<noteq> ?i" for c
  proof (rule repr_cong)
    show "repr n h (ts ! c)" using Suc.prems(1) s that(1) by simp
    show "same_view n (h q) (h' q)" if "q \<in> set (ptrs (ts ! c))" for q
      using view[of q] that in_s[OF \<open>c < length ts\<close>] others[OF \<open>c < length ts\<close> \<open>c \<noteq> ?i\<close>] inside by blast
  qed
  ultimately have "\<forall>t\<in>set (ts[?i := repl k j x (ts ! ?i)]). repr n h' t"
    unfolding all_set_conv_all_nth by (simp add: nth_list_update i)
  moreover have "h' p = h p"
  proof -
    have "same_view n (h p) (h' p)" using view[of p] dist(2) inside by (auto simp: s)
    then show ?thesis using Suc.prems(1) s by (auto simp: same_view_def)
  qed
  moreover have "map (\<lambda>t. Some (sptr t)) (ts[?i := repl k j x (ts ! ?i)]) = map (\<lambda>t. Some (sptr t)) ts"
    using sptr_repl[of x k j "ts ! ?i"] Suc.prems(3,6) kid kid_ok(2) s i by (simp add: map_update list_update_same_conv)
  ultimately show ?case using Suc.prems(1) s by auto
qed simp

end
