(* ===== verification/BTreeOps.thy ===== *)
theory BTreeOps
  imports BTreeInv
begin

text \<open>
  Search, insertion and removal in the persistent B+ tree: every operation runs on a well-formed tree, and
  the entries of the tree change as those of a finite map.
\<close>

subsection \<open>Changing one leaf\<close>

lemma get_leafI: "bt_heap t p = Some (LeafN l) \<Longrightarrow> get_leaf t (Some p) = Inr l"
  by (simp add: get_leaf_def bt_deref_def)

lemma get_innerI: "bt_heap t p = Some (InnerN i) \<Longrightarrow> get_inner t (Some p) = Inr i"
  by (simp add: get_inner_def bt_deref_def)

lemma tree_okD:
  assumes "tree_ok t s"
  shows "2 \<le> bt_slots t" "bst (bt_slots t) None None s" "repr (bt_slots t) (bt_heap t) s" "distinct (ptrs s)"
    "\<And>p. p \<in> set (ptrs s) \<Longrightarrow> p < bt_next t" "dlink (bt_heap t) None (sleaves s) None"
    "bt_root t = Some (sptr s)" "bt_split_node t = None"
  using assms by (auto simp: tree_ok_def)

text \<open>The shape after the subtree at depth \<open>j\<close> on the way of a key has been replaced.\<close>

lemma tree_repl:
  assumes ok: "tree_ok t s" "j \<le> slevel s"
    and x: "slevel x = slevel (sub k j s)" "sptr x = sptr (sub k j s)" "repr (bt_slots t) (bt_heap t') x" "distinct (ptrs x)"
      "bst (bt_slots t) (fst (bounds k j (None, None) s)) (snd (bounds k j (None, None) s)) x"
    and fresh: "\<And>p. p \<in> set (ptrs x) \<Longrightarrow> p \<in> set (ptrs (sub k j s)) \<or> bt_next t \<le> p" "\<And>p. p \<in> set (ptrs x) \<Longrightarrow> p < bt_next t'"
    and same: "\<And>p. p \<in> set (ptrs s) \<Longrightarrow> p \<notin> set (ptrs (sub k j s)) \<Longrightarrow> same_view (bt_slots t) (bt_heap t p) (bt_heap t' p)"
    and links: "dlink (bt_heap t') None (sleaves (repl k j x s)) None"
    and t': "bt_slots t' = bt_slots t" "bt_root t' = bt_root t" "bt_split_node t' = None" "bt_next t \<le> bt_next t'"
  shows "tree_ok t' (repl k j x s)"
proof -
  note ok' = tree_okD[OF ok(1)]
  obtain xs ys where ctx: "ptrs s = xs @ ptrs (sub k j s) @ ys" "ptrs (repl k j x s) = xs @ ptrs x @ ys"
    using repl_ptrs[OF ok'(2) ok(2), of k] by auto
  have "p \<notin> set (ptrs x)" if "p \<in> set xs \<union> set ys" for p
    using fresh(1)[of p] ok'(4) ok'(5)[of p] that unfolding ctx(1) by fastforce
  then have "distinct (ptrs (repl k j x s))" using ok'(4) x(4) unfolding ctx by auto
  moreover have "\<forall>p\<in>set (ptrs (repl k j x s)). p < bt_next t'"
    using fresh(2) ok'(5) t'(4) unfolding ctx by fastforce
  moreover have "bst (bt_slots t) None None (repl k j x s) \<and> slevel (repl k j x s) = slevel s"
    by (rule repl_bst[OF ok'(2) ok(2) x(1,5)])
  moreover have "repr (bt_slots t) (bt_heap t') (repl k j x s)"
    by (rule repr_repl[OF ok'(3,2) ok(2) ok'(4) x(3,2) same])
  ultimately show ?thesis
    using ok'(1,7) t' links sptr_repl[OF x(2) ok(2)] by (simp add: tree_ok_def)
qed

text \<open>One leaf gets other entries and keeps its links.\<close>

lemma tree_leaf_update:
  assumes ok: "tree_ok t s" "sub k (slevel s) s = SLeaf p es"
    and l: "bt_heap t p = Some (LeafN l)" "leaf_wf (bt_slots t) l'" "leaf_list l' = es'" "leaf_frame l l'"
    and keys: "\<And>k'. k' \<in> fst ` set es' \<Longrightarrow> k' \<in> fst ` set es \<or> k' = k"
  shows "tree_ok (put_node (Some p) (LeafN l') t) (repl k (slevel s) (SLeaf p es') s)"
proof -
  note ok' = tree_okD[OF ok(1)]
  let ?b = "bounds k (slevel s) (None, None) s"
  let ?t = "put_node (Some p) (LeafN l') t"
  have leaf: "bst (bt_slots t) (fst ?b) (snd ?b) (SLeaf p es)" using sub_bst(1)[OF ok'(2) order_refl, of k] ok(2) by simp
  have key: "over_key (fst ?b) k \<and> upto_key (snd ?b) k" by (rule bounds_key[OF ok'(2) order_refl]) simp_all
  have "over_key (fst ?b) k' \<and> upto_key (snd ?b) k'" if "k' \<in> fst ` set es'" for k'
    using keys[OF that] leaf key unfolding bst.simps by blast
  then have b: "bst (bt_slots t) (fst ?b) (snd ?b) (SLeaf p es')"
    using leaf_wfD(3,6,7)[OF l(2)] l(3) unfolding bst.simps by simp
  have heap: "bt_heap ?t = (bt_heap t)(p \<mapsto> LeafN l')" by (simp add: put_node_def)
  obtain xs ys where ctx: "sleaves s = xs @ sleaves (SLeaf p es) @ ys" "sleaves (repl k (slevel s) (SLeaf p es') s) = xs @ sleaves (SLeaf p es') @ ys"
    using repl_leaves[OF ok'(2) order_refl, of k] ok(2) by auto
  have "dlink (bt_heap ?t) None (sleaves s) None"
    using l(1,4) by (intro dlink_cong[OF ok'(6)]) (auto simp: heap same_links_def leaf_frame_def)
  then have links: "dlink (bt_heap ?t) None (sleaves (repl k (slevel s) (SLeaf p es') s)) None" using ctx by simp
  show ?thesis
  proof (rule tree_repl[OF ok(1) order_refl])
    show "repr (bt_slots t) (bt_heap ?t) (SLeaf p es')" using l by (simp add: heap)
    show "q < bt_next ?t" if "q \<in> set (ptrs (SLeaf p es'))" for q
      using that ok'(5) sub_ptrs[OF ok'(2) order_refl, of k] ok(2) by (simp add: put_node_def)
    show "same_view (bt_slots t) (bt_heap t q) (bt_heap ?t q)"
      if "q \<in> set (ptrs s)" "q \<notin> set (ptrs (sub k (slevel s) s))" for q
      using that ok(2) by (simp add: heap)
  qed (use b links ok(2) ok'(8) in \<open>simp_all add: put_node_def\<close>)
qed

lemma repl_leaf_entries:
  assumes "bst n lo hi s" "sub k (slevel s) s = SLeaf p es"
  obtains xs ys where "sentries s = xs @ es @ ys" "\<And>q es'. sentries (repl k (slevel s) (SLeaf q es') s) = xs @ es' @ ys"
  using repl_entries[OF assms(1) order_refl, of k] assms(2) by auto

lemma slevel_repl: "slevel x = slevel (sub k j s) \<Longrightarrow> j \<le> slevel s \<Longrightarrow> slevel (repl k j x s) = slevel s"
  by (cases j; cases s) auto

subsection \<open>The map that a tree represents\<close>

definition content :: "('k, 'v) shape \<Rightarrow> 'k \<rightharpoonup> 'v" where
  "content s = map_of (sentries s)"

lemma content_iff:
  assumes "bst n lo hi s"
  shows "content s k = Some v \<longleftrightarrow> (k, v) \<in> set (sentries s)"
proof -
  have "distinct (map fst (sentries s))" using bst_sorted[OF assms] by (simp add: strict_sorted_iff)
  then show ?thesis by (simp add: content_def map_of_eq_Some_iff)
qed

lemma content_eqI:
  assumes "bst n lo hi s" "\<And>k v. (k, v) \<in> set (sentries s) \<longleftrightarrow> m k = Some v"
  shows "content s = m"
proof
  fix k
  show "content s k = m k" using content_iff[OF assms(1), of k] assms(2)[of k] by (metis option.exhaust)
qed

lemma content_leaf:
  assumes "bst n lo hi s" "sub k (slevel s) s = SLeaf p es"
  shows "content s k = Some v \<longleftrightarrow> (k, v) \<in> set es"
  using content_iff[OF assms(1), of k v] sub_entries[OF assms(1) order_refl, of k v] assms(2) by simp

lemma content_None:
  assumes "bst n lo hi s" "sub k (slevel s) s = SLeaf p es"
  shows "content s k = None \<longleftrightarrow> k \<notin> fst ` set es"
  using content_leaf[OF assms] by (metis (no_types, lifting) image_iff not_None_eq prod.collapse fst_conv)

text \<open>A well-formed tree that represents a map; a tree without a root represents the empty one.\<close>

definition bt_repr :: "('k::linorder, 'v) b_tree \<Rightarrow> ('k \<rightharpoonup> 'v) \<Rightarrow> bool" where
  "bt_repr t m \<longleftrightarrow> (bt_root t = None \<and> 2 \<le> bt_slots t \<and> bt_split_node t = None \<and> m = Map.empty)
     \<or> (\<exists>s. tree_ok t s \<and> content s = m)"

subsection \<open>Removal\<close>

lemma content_erase:
  assumes ok: "bst n lo hi s" "sub k (slevel s) s = SLeaf p es"
    and s': "s' = repl k (slevel s) (SLeaf p (filter (\<lambda>e. fst e \<noteq> k) es)) s" "bst n lo hi s'"
  shows "content s' = (content s)(k := None)"
proof (rule content_eqI[OF s'(2)])
  fix k' v
  obtain xs ys where e: "sentries s = xs @ es @ ys" "sentries s' = xs @ filter (\<lambda>e. fst e \<noteq> k) es @ ys"
    using repl_leaf_entries[OF ok] s'(1) by metis
  have "(k, v') \<notin> set (xs @ ys)" for v'
  proof
    assume "(k, v') \<in> set (xs @ ys)"
    then have in_s: "(k, v') \<in> set (sentries s)" by (auto simp: e)
    have "sub k (slevel s) s' = SLeaf p (filter (\<lambda>e. fst e \<noteq> k) es)" "slevel s' = slevel s"
      using sub_repl[OF ok(1) order_refl] slevel_repl[of "SLeaf p (filter (\<lambda>e. fst e \<noteq> k) es)" k "slevel s" s] ok(2) s'(1)
      by simp_all
    then have "(k, v') \<notin> set (sentries s')" using sub_entries[OF s'(2) order_refl, of k v'] by simp
    then show False using \<open>(k, v') \<in> set (xs @ ys)\<close> by (auto simp: e)
  qed
  then show "(k', v) \<in> set (sentries s') \<longleftrightarrow> ((content s)(k := None)) k' = Some v"
    using content_iff[OF ok(1), of k' v] by (cases "k' = k") (auto simp: e)
qed

lemma find_leaf_node_ok:
  assumes "tree_ok t s" "sub k (slevel s) s = SLeaf p es"
  shows "\<exists>t1 l. find_leaf_node t k = Inr (Some p, t1) \<and> tree_ok t1 s \<and> (\<exists>h. t1 = t\<lparr>bt_heap := h\<rparr>)
     \<and> bt_heap t1 p = Some (LeafN l) \<and> leaf_wf (bt_slots t) l \<and> leaf_list l = es"
  using walk_key_ok[OF assms] tree_okD(7)[OF assms(1)] by (auto simp: find_leaf_node_def)

lemma bt_erase_tree:
  assumes "tree_ok t s"
  shows "runs (bt_erase t k) (\<lambda>(c, t'). c = (if content s k = None then 0 else 1)
     \<and> (\<exists>s'. tree_ok t' s' \<and> content s' = (content s)(k := None)))"
proof -
  note bst = tree_okD(2)[OF assms]
  obtain p es where leaf: "sub k (slevel s) s = SLeaf p es" by (rule sub_leaf[OF bst])
  obtain t1 l h where t1: "find_leaf_node t k = Inr (Some p, t1)" "tree_ok t1 s" "t1 = t\<lparr>bt_heap := h\<rparr>"
      "bt_heap t1 p = Some (LeafN l)" "leaf_wf (bt_slots t) l" "leaf_list l = es"
    using find_leaf_node_ok[OF assms leaf] by auto
  obtain c l' where l': "leaf_erase l k = Inr (c, l')" "leaf_wf (bt_slots t) l'" "leaf_frame l l'"
      "c = (if k \<in> fst ` set es then 1 else 0)" "leaf_list l' = filter (\<lambda>e. fst e \<noteq> k) es"
    using leaf_erase_ok[OF t1(5), of k] t1(6) by (auto simp: runs_iff)
  let ?s = "repl k (slevel s) (SLeaf p (filter (\<lambda>e. fst e \<noteq> k) es)) s"
  have ok': "tree_ok (put_node (Some p) (LeafN l') t1) ?s"
    using l' t1(3) by (intro tree_leaf_update[OF t1(2) leaf t1(4)]) auto
  then have "bst (bt_slots t) None None ?s" using tree_okD(2) t1(3) by (fastforce simp: put_node_def)
  note cont = content_erase[OF bst leaf refl this]
  have "bt_erase t k = Inr (c, put_node (Some p) (LeafN l') t1)"
    using t1(1) l'(1) get_leafI[OF t1(4)] by (simp add: bt_erase_def)
  then show ?thesis using ok' cont l'(4) content_None[OF bst leaf] by (auto simp: runs_iff)
qed

subsection \<open>Search\<close>

lemma funpow_kid:
  assumes "bst n lo hi s" "repr n h s" "j \<le> slevel s"
    and "\<And>p lv ks ts. length ts = Suc (length ks) \<Longrightarrow> next (SInner p lv ks ts) \<in> set ts"
  shows "slevel ((next ^^ j) s) = slevel s - j \<and> repr n h ((next ^^ j) s) \<and> set (ptrs ((next ^^ j) s)) \<subseteq> set (ptrs s)
     \<and> (\<exists>lo hi. bst n lo hi ((next ^^ j) s))"
  using assms(1-3)
proof (induction j arbitrary: s lo hi)
  case 0
  then show ?case by auto
next
  case (Suc j)
  then obtain p d ks ts where s: "s = SInner p (Suc d) ks ts" by (metis Suc_le_D slevel_Suc)
  then obtain i where i: "i < length ts" "next s = ts ! i"
    using assms(4)[of ts ks p "Suc d"] Suc.prems(1) by (auto simp: in_set_conv_nth)
  have "bst n (lob lo ks i) (hib hi ks i) (next s)" "repr n h (next s)" "slevel (next s) = d"
    using Suc.prems s i by auto
  moreover have "set (ptrs (next s)) \<subseteq> set (ptrs s)" using i s nth_mem[OF i(1)] by auto
  ultimately show ?case
    using Suc.IH[of "lob lo ks i" "hib hi ks i" "next s"] Suc.prems(3) s by (auto simp: funpow_swap1)
qed

lemma bt_end_tree:
  assumes "tree_ok t s"
  shows "\<exists>p es t1 h. bt_end t = Inr ((Some p, length es), t1) \<and> tree_ok t1 s \<and> t1 = t\<lparr>bt_heap := h\<rparr>
     \<and> repr (bt_slots t) (bt_heap t) (SLeaf p es) \<and> (last_kid ^^ slevel s) s = SLeaf p es"
proof -
  note ok = tree_okD[OF assms]
  let ?x = "(last_kid ^^ slevel s) s"
  have last: "last_kid (SInner p lv ks ts) \<in> set ts" if "length ts = Suc (length ks)" for p lv ks ts
    using that by (simp add: last_kid_def)
  have x: "slevel ?x = 0" "repr (bt_slots t) (bt_heap t) ?x" "sptr ?x \<in> set (ptrs s)" "\<exists>lo hi. bst (bt_slots t) lo hi ?x"
    using funpow_kid[OF ok(2,3) order_refl, of last_kid, OF last] sptr_in[of ?x] by auto
  then obtain p es where leaf: "?x = SLeaf p es" using slevel_0 by metis
  then have r: "repr (bt_slots t) (bt_heap t) (SLeaf p es)" "p \<in> set (ptrs s)" using x(2,3) by simp_all
  obtain t1 l h where t1: "walk_down t (\<lambda>i. inner_get_left_child i (inner_size i)) =
        Inr (map (\<lambda>j. Some (sptr ((last_kid ^^ j) s))) [0..<slevel s], Some p, t1)" "tree_ok t1 s" "t1 = t\<lparr>bt_heap := h\<rparr>"
      "bt_heap t1 p = Some (LeafN l)" "leaf_wf (bt_slots t) l" "leaf_list l = es"
    using walk_down_ok[OF assms picks_last leaf r] by auto
  then have "bt_end t = Inr ((Some p, length es), t1)"
    using ok(7) get_leafI[OF t1(4)] leaf_wfD(7)[OF t1(5)] by (auto simp: bt_end_def rightmost_leaf_def)
  then show ?thesis using t1(2,3) r(1) leaf by blast
qed

lemma leaf_nth_ok:
  assumes "leaf_wf n l" "i < leaf_size l"
  shows "leaf_nth l i = Inr (leaf_list l ! i)"
proof -
  have "leaf_range l i (Suc i) = Inr [leaf_list l ! i]"
    using leaf_range_ok[OF assms(1), of "Suc i" i] assms(2) leaf_wfD(7)[OF assms(1)]
    by (simp add: take_Suc_conv_app_nth)
  then show ?thesis by (cases "leaf_nth l i") (simp_all add: leaf_range_def)
qed

text \<open>What a search returns: an iterator at the entry, or the end iterator, which is a different one.\<close>

lemma bt_find_tree:
  assumes "tree_ok t s"
  shows "runs (bt_find t k) (\<lambda>(it, t'). tree_ok t' s \<and> (case content s k of
       Some v \<Rightarrow> it_deref t' it = Inr (k, v) \<and> holds (bt_end t') (\<lambda>(it', _). it' \<noteq> it)
         \<and> (\<exists>p es i. sub k (slevel s) s = SLeaf p es \<and> it = (Some p, i) \<and> i < length es \<and> es ! i = (k, v))
     | None \<Rightarrow> holds (bt_end t') (\<lambda>(it', _). it' = it)))"
proof -
  note ok = tree_okD[OF assms]
  obtain p es where leaf: "sub k (slevel s) s = SLeaf p es" by (rule sub_leaf[OF ok(2)])
  obtain t1 l h where t1: "find_leaf_node t k = Inr (Some p, t1)" "tree_ok t1 s" "t1 = t\<lparr>bt_heap := h\<rparr>"
      "bt_heap t1 p = Some (LeafN l)" "leaf_wf (bt_slots t) l" "leaf_list l = es"
    using find_leaf_node_ok[OF assms leaf] by auto
  note get = get_leafI[OF t1(4)] and find = leaf_find_ok[OF t1(5), of k]
  let ?i = "lower_bound (map fst es) k"
  obtain q qs t2 h2 where e: "bt_end t1 = Inr ((Some q, length qs), t2)" "tree_ok t2 s" "t2 = t1\<lparr>bt_heap := h2\<rparr>"
      "repr (bt_slots t1) (bt_heap t1) (SLeaf q qs)" "(last_kid ^^ slevel s) s = SLeaf q qs"
    using bt_end_tree[OF t1(2)] by blast
  show ?thesis
  proof (cases "content s k")
    case None
    then have "k \<notin> fst ` set es" using content_None[OF ok(2) leaf] by simp
    then have "bt_find t k = bt_end t1" using t1(1,6) get find by (simp add: bt_find_def)
    moreover obtain t3 where "bt_end t2 = Inr ((Some q, length qs), t3)"
      using bt_end_tree[OF e(2)] e(5) by auto
    ultimately show ?thesis using None e by simp
  next
    case (Some v)
    then have kv: "(k, v) \<in> set es" using content_leaf[OF ok(2) leaf] by simp
    then have key: "k \<in> fst ` set es" by force
    have sorted: "sorted_wrt (<) (map fst es)" using leaf_wfD(6)[OF t1(5)] t1(6) by simp
    have i: "?i < length es" "fst (es ! ?i) = k"
      using lower_bound_found[OF strict_sorted_imp_sorted[OF sorted], of k] key by auto
    have "es ! ?i = (k, v)"
      using i kv sorted map_of_eq_Some_iff[of es k v] map_of_eq_Some_iff[of es k "snd (es ! ?i)"] nth_mem[OF i(1)]
      by (metis option.inject prod.collapse strict_sorted_iff)
    moreover have "leaf_nth l ?i = Inr (es ! ?i)"
      using leaf_nth_ok[OF t1(5), of ?i] i(1) t1(6) leaf_wfD(7)[OF t1(5)] by simp
    moreover have "bt_find t k = Inr ((Some p, ?i), t1)"
      using t1(1,6) get find key i(1) leaf_wfD(7)[OF t1(5)] by (simp add: bt_find_def)
    moreover have "(Some q, length qs) \<noteq> (Some p, ?i)" using e(4) t1(4,6) i(1) by auto
    ultimately show ?thesis using Some e(1) get t1(2) leaf i(1) by (simp add: it_deref_def)
  qed
qed

end
