(* ===== verification/BTreeSplit.thy ===== *)
theory BTreeSplit
  imports BTreeOps
begin

text \<open>Splitting nodes of the persistent B+ tree, and insertion.\<close>

subsection \<open>A child replaced by two\<close>

definition split_shape ::
  "('k, 'v) shape \<Rightarrow> nat \<Rightarrow> 'k \<Rightarrow> ('k, 'v) shape \<Rightarrow> ('k, 'v) shape \<Rightarrow> ('k, 'v) shape" where
  "split_shape s i mk l r = (case s of
     SInner q lv ks ts \<Rightarrow> SInner q lv (take i ks @ mk # drop i ks) (take i ts @ l # r # drop (Suc i) ts)
   | SLeaf p es \<Rightarrow> s)"

lemma concat_nth_split: "i < length ts \<Longrightarrow>
  concat (map f ts) = concat (map f (take i ts)) @ f (ts ! i) @ concat (map f (drop (Suc i) ts))"
  by (metis concat.simps(2) concat_append id_take_nth_drop list.simps(9) map_append)

lemma ptrs_split_shape:
  assumes "i < length ts" "distinct (ptrs (SInner q lv ks ts))" "distinct (ptrs l @ ptrs r)"
    and "\<And>p. p \<in> set (ptrs l @ ptrs r) \<Longrightarrow> p \<in> set (ptrs (ts ! i)) \<or> p \<notin> set (ptrs (SInner q lv ks ts))"
  shows "distinct (ptrs (split_shape (SInner q lv ks ts) i mk l r))"
    "set (ptrs (split_shape (SInner q lv ks ts) i mk l r)) \<subseteq> set (ptrs (SInner q lv ks ts)) \<union> set (ptrs l @ ptrs r)"
proof -
  let ?x = "concat (map ptrs (take i ts))" and ?y = "concat (map ptrs (drop (Suc i) ts))"
  have old: "ptrs (SInner q lv ks ts) = q # ?x @ ptrs (ts ! i) @ ?y" using concat_nth_split[OF assms(1), of ptrs] by simp
  have new: "ptrs (split_shape (SInner q lv ks ts) i mk l r) = q # ?x @ (ptrs l @ ptrs r) @ ?y"
    by (simp add: split_shape_def)
  have "p \<notin> set (ptrs l @ ptrs r)" if "p \<in> set (q # ?x @ ?y)" for p
    using assms(2) assms(4)[of p] that unfolding old by fastforce
  then have "set (ptrs l @ ptrs r) \<inter> set (q # ?x @ ?y) = {}" by blast
  then show "distinct (ptrs (split_shape (SInner q lv ks ts) i mk l r))"
    unfolding new using assms(2,3) unfolding old by (simp only: distinct.simps distinct_append set_append list.set) blast
  show "set (ptrs (split_shape (SInner q lv ks ts) i mk l r)) \<subseteq> set (ptrs (SInner q lv ks ts)) \<union> set (ptrs l @ ptrs r)"
    unfolding new old by auto
qed

lemma tree_split_child:
  assumes ok: "tree_ok t s" "j < slevel s" "sub k j s = SInner q lv ks ts" "i = lower_bound ks k" "length ks < bt_slots t"
    and b: "bounds k j (None, None) s = (lo, hi)"
    and mk: "over_key (lob lo ks i) mk" "below_key (hib hi ks i) mk"
    and l: "bst (bt_slots t) (lob lo ks i) (Some mk) l" "Suc (slevel l) = lv" "repr (bt_slots t) (bt_heap t') l"
    and r: "bst (bt_slots t) (Some mk) (hib hi ks i) r" "Suc (slevel r) = lv" "repr (bt_slots t) (bt_heap t') r"
    and new: "distinct (ptrs l @ ptrs r)"
      "\<And>p. p \<in> set (ptrs l @ ptrs r) \<Longrightarrow> p \<in> set (ptrs (ts ! i)) \<or> bt_next t \<le> p" "\<And>p. p \<in> set (ptrs l @ ptrs r) \<Longrightarrow> p < bt_next t'"
    and nd: "bt_heap t' q = Some (InnerN nd)" "inner_wf (bt_slots t) nd" "in_level nd = lv" "inner_keys nd = take i ks @ mk # drop i ks"
      "inner_kids nd = map (\<lambda>t. Some (sptr t)) (take i ts @ l # r # drop (Suc i) ts)"
    and same: "\<And>p. p \<in> set (ptrs s) \<Longrightarrow> p \<noteq> q \<Longrightarrow> p \<notin> set (ptrs (ts ! i)) \<Longrightarrow> same_view (bt_slots t) (bt_heap t p) (bt_heap t' p)"
    and links: "dlink (bt_heap t') None (sleaves (repl k j (split_shape (sub k j s) i mk l r) s)) None"
    and t': "bt_slots t' = bt_slots t" "bt_root t' = bt_root t" "bt_split_node t' = None" "bt_next t \<le> bt_next t'"
  shows "tree_ok t' (repl k j (split_shape (sub k j s) i mk l r) s)"
proof -
  note ok' = tree_okD[OF ok(1)]
  let ?x = "split_shape (SInner q lv ks ts) i mk l r"
  have j: "j \<le> slevel s" using ok(2) by simp
  have q: "bst (bt_slots t) lo hi (SInner q lv ks ts)" using sub_bst(1)[OF ok'(2) j, of k] ok(3) b by simp
  have i: "i \<le> length ks" "i < length ts" using lower_bound_le[of ks k] q ok(4) by simp_all
  have in_s: "set (ptrs (SInner q lv ks ts)) \<subseteq> set (ptrs s)" using sub_ptrs[OF ok'(2) j, of k] ok(3) by simp
  obtain xs ys where "ptrs s = xs @ ptrs (SInner q lv ks ts) @ ys" using repl_ptrs[OF ok'(2) j, of k] ok(3) by auto
  then have dist: "distinct (ptrs (SInner q lv ks ts))" using ok'(4) by (metis distinct_append)
  have fresh: "p \<in> set (ptrs (ts ! i)) \<or> p \<notin> set (ptrs (SInner q lv ks ts))" if "p \<in> set (ptrs l @ ptrs r)" for p
    using new(2)[OF that] ok'(5)[of p] in_s by (meson leD subsetD)
  note x = ptrs_split_shape[OF i(2) dist new(1) fresh, of mk]
  have kids: "repr (bt_slots t) (bt_heap t') (ts ! c)" if "c < length ts" "c \<noteq> i" for c
  proof (rule repr_cong)
    have "repr (bt_slots t) (bt_heap t) (SInner q lv ks ts)" using repr_sub[OF ok'(3,2) j, of k] ok(3) by simp
    then show "repr (bt_slots t) (bt_heap t) (ts ! c)" using that(1) by simp
    fix p assume p: "p \<in> set (ptrs (ts ! c))"
    then have "p \<notin> set (ptrs (ts ! i))"
      using distinct_concat_nth[of "map ptrs ts" c i] dist that i(2) by auto
    moreover have in_q: "p \<in> set (concat (map ptrs ts))" using p nth_mem[OF that(1)] by auto
    then have "p \<noteq> q" using dist by auto
    moreover have "p \<in> set (ptrs s)" using in_q in_s by auto
    ultimately show "same_view (bt_slots t) (bt_heap t p) (bt_heap t' p)" using same by blast
  qed
  have "repr (bt_slots t) (bt_heap t') u" if "u \<in> set (take i ts @ drop (Suc i) ts)" for u
  proof -
    from that consider c where "c < i" "u = ts ! c" | c where "c < length ts - Suc i" "u = ts ! (Suc i + c)"
      using i(2) by (auto simp: in_set_conv_nth)
    then show ?thesis using kids i(2) by cases auto
  qed
  then have repr: "repr (bt_slots t) (bt_heap t') ?x" using nd l(3) r(3) by (auto simp: split_shape_def)
  have kid_in: "set (ptrs (ts ! i)) \<subseteq> set (ptrs (SInner q lv ks ts))" using nth_mem[OF i(2)] by auto
  show ?thesis
    unfolding ok(3)
  proof (rule tree_repl[OF ok(1) j])
    show "bst (bt_slots t) (fst (bounds k j (None, None) s)) (snd (bounds k j (None, None) s)) ?x"
      using bst_split_child[OF q i(1) ok(5) mk l(1,2) r(1,2)] b by (simp add: split_shape_def)
    show "p \<in> set (ptrs (sub k j s)) \<or> bt_next t \<le> p" if "p \<in> set (ptrs ?x)" for p
      using x(2) that new(2)[of p] kid_in unfolding ok(3) by blast
    show "p < bt_next t'" if "p \<in> set (ptrs ?x)" for p
      using x(2) that new(3)[of p] ok'(5)[of p] in_s t'(4) by fastforce
    show "same_view (bt_slots t) (bt_heap t p) (bt_heap t' p)" if "p \<in> set (ptrs s)" "p \<notin> set (ptrs (sub k j s))" for p
      using same[of p] that kid_in sptr_in[of "SInner q lv ks ts"] unfolding ok(3) by (metis sptr.simps(2) subsetD)
  qed (use x(1) repr links t' ok(3) in \<open>simp_all add: split_shape_def\<close>)
qed

subsection \<open>Where a key goes after a split\<close>

lemma lower_bound_take:
  assumes "sorted ks" "m < length ks" "k \<le> ks ! m"
  shows "lower_bound ks k \<le> m" "lower_bound (take m ks) k = lower_bound ks k"
proof -
  show le: "lower_bound ks k \<le> m" using lower_bound_before[of m ks k] assms(3) by (meson leD linorder_le_less_linear)
  show "lower_bound (take m ks) k = lower_bound ks k"
    using le assms(2) lower_bound_before[of _ ks k] lower_bound_at[of ks k]
    by (intro lower_bound_unique) auto
qed

lemma lower_bound_drop:
  assumes "sorted ks" "m < length ks" "ks ! m < k"
  shows "Suc m \<le> lower_bound ks k" "lower_bound (drop (Suc m) ks) k = lower_bound ks k - Suc m"
proof -
  show le: "Suc m \<le> lower_bound ks k"
    using lower_bound_from[OF assms(1), of k m] assms(2,3) by (meson leD not_less_eq_eq)
  show "lower_bound (drop (Suc m) ks) k = lower_bound ks k - Suc m"
    using le assms(2) lower_bound_before[of _ ks k] lower_bound_at[of ks k] lower_bound_le[of ks k]
    by (intro lower_bound_unique) auto
qed

lemma lower_bound_insert:
  assumes "i = lower_bound ks k" "over_key (lob lo ks i) mk" "below_key (hib hi ks i) mk" "sorted_wrt (<) ks"
  shows "lower_bound (take i ks @ mk # drop i ks) k = (if k \<le> mk then i else Suc i)"
proof -
  have i: "i \<le> length ks" using assms(1) lower_bound_le[of ks k] by simp
  have before: "ks ! c < k" if "c < i" for c using that assms(1) lower_bound_before by blast
  have after: "k \<le> ks ! i" if "i < length ks" using that assms(1) lower_bound_at by blast
  show ?thesis
  proof (cases "k \<le> mk")
    case True
    then have "lower_bound (take i ks @ mk # drop i ks) k = i"
      using i before by (intro lower_bound_unique) (auto simp: nth_insert_key)
    with True show ?thesis by simp
  next
    case False
    then have "lower_bound (take i ks @ mk # drop i ks) k = Suc i"
      using i before after by (intro lower_bound_unique) (auto simp: nth_insert_key less_Suc_eq)
    with False show ?thesis by simp
  qed
qed

lemma kid_split_shape:
  assumes "i = lower_bound ks k" "over_key (lob lo ks i) mk" "below_key (hib hi ks i) mk" "sorted_wrt (<) ks"
    and "length ts = Suc (length ks)"
  shows "kid k (split_shape (SInner q lv ks ts) i mk l r) = (if k \<le> mk then l else r)"
proof -
  have "i < length ts" using assms(1,5) lower_bound_le[of ks k] by simp
  then show ?thesis
    using lower_bound_insert[OF assms(1-4)] by (simp add: split_shape_def kid_def nth_insert_kids)
qed

text \<open>The halves of an inner node, and the child of the half a key belongs to.\<close>

definition left_half :: "nat \<Rightarrow> nat \<Rightarrow> ('k, 'v) shape \<Rightarrow> ('k, 'v) shape" where
  "left_half a m s = (case s of SInner c lv ks ts \<Rightarrow> SInner a lv (take m ks) (take (Suc m) ts) | SLeaf p es \<Rightarrow> s)"

definition right_half :: "nat \<Rightarrow> nat \<Rightarrow> ('k, 'v) shape \<Rightarrow> ('k, 'v) shape" where
  "right_half b m s = (case s of SInner c lv ks ts \<Rightarrow> SInner b lv (drop (Suc m) ks) (drop (Suc m) ts) | SLeaf p es \<Rightarrow> s)"

lemma kid_halves:
  assumes "sorted_wrt (<) ks" "m < length ks" "length ts = Suc (length ks)"
  shows "k \<le> ks ! m \<Longrightarrow> kid k (left_half a m (SInner c lv ks ts)) = kid k (SInner c lv ks ts)"
    "\<not> k \<le> ks ! m \<Longrightarrow> kid k (right_half b m (SInner c lv ks ts)) = kid k (SInner c lv ks ts)"
proof -
  note sorted = strict_sorted_imp_sorted[OF assms(1)]
  show "kid k (left_half a m (SInner c lv ks ts)) = kid k (SInner c lv ks ts)" if "k \<le> ks ! m"
    using lower_bound_take[OF sorted assms(2) that] assms(2,3) by (simp add: left_half_def kid_def)
  assume "\<not> k \<le> ks ! m"
  then have "ks ! m < k" by simp
  from lower_bound_drop[OF sorted assms(2) this]
  show "kid k (right_half b m (SInner c lv ks ts)) = kid k (SInner c lv ks ts)"
    using assms(2,3) lower_bound_le[of ks k] by (simp add: right_half_def kid_def)
qed

lemma halves_concat:
  assumes "m < length ks" "length ts = Suc (length ks)"
  shows "sleaves (left_half a m (SInner c lv ks ts)) @ sleaves (right_half b m (SInner c lv ks ts)) = sleaves (SInner c lv ks ts)"
    "sentries (left_half a m (SInner c lv ks ts)) @ sentries (right_half b m (SInner c lv ks ts)) = sentries (SInner c lv ks ts)"
    "ptrs (left_half a m (SInner c lv ks ts)) = a # concat (map ptrs (take (Suc m) ts))"
    "ptrs (right_half b m (SInner c lv ks ts)) = b # concat (map ptrs (drop (Suc m) ts))"
  using concat_halves[of sleaves "Suc m" ts] concat_halves[of sentries "Suc m" ts]
  by (simp_all add: left_half_def right_half_def)

subsection \<open>Splitting an inner node\<close>

lemma update_parent_ok:
  assumes "bt_heap t q = Some (InnerN nd)" "inner_wf (bt_slots t) nd" "inner_keys nd = ks"
      "inner_kids nd = map (\<lambda>t. Some (sptr t)) ts" "length ts = Suc (length ks)" "length ks < bt_slots t"
    and "sorted_wrt (<) ks" "i \<le> length ks" "over_key (lob lo ks i) mk" "below_key (hib hi ks i) mk"
    and "bt_split_node t = Some (sptr (ts ! i))" "bt_left_child t = Some (sptr l)" "bt_right_child t = Some (sptr r)"
  shows "\<exists>nd'. update_parent t (Some q) mk = Inr (put_node (Some q) (InnerN nd') t) \<and> inner_wf (bt_slots t) nd'
     \<and> in_level nd' = in_level nd \<and> inner_keys nd' = take i ks @ mk # drop i ks
     \<and> inner_kids nd' = map (\<lambda>t. Some (sptr t)) (take i ts @ l # r # drop (Suc i) ts)"
proof -
  have size: "inner_size nd = length ks" using inner_wfD(3)[OF assms(2)] assms(3) by simp
  have i: "i = lower_bound (inner_keys nd) mk"
    using key_in_child[OF assms(8,7,9)] assms(3,10) by (metis below_upto)
  have sorted: "sorted (inner_keys nd)" "sorted (take i (inner_keys nd) @ mk # drop i (inner_keys nd))"
    using assms(3,7) sorted_insert_key[OF assms(7-10)] by (simp_all add: strict_sorted_imp_sorted)
  have "inner_kids nd ! i = Some (sptr (ts ! i))" using assms(4,5,8) by simp
  from inner_update_ok[OF assms(2) _ sorted(1) i this sorted(2), of "Some (sptr l)" "Some (sptr r)"]
  obtain nd' where "inner_update_splitted_child (bt_slots t) nd mk (Some (sptr l)) (Some (sptr r)) (Some (sptr (ts ! i))) = Inr nd'"
      "inner_wf (bt_slots t) nd'" "in_level nd' = in_level nd" "inner_keys nd' = take i ks @ mk # drop i ks"
      "inner_kids nd' = take i (inner_kids nd) @ Some (sptr l) # Some (sptr r) # drop (Suc i) (inner_kids nd)"
    using assms(3,6) size by auto
  then show ?thesis
    using assms(4,11-13) by (auto simp: update_parent_def get_innerI[OF assms(1)] take_map drop_map)
qed

text \<open>The memory after both halves of an inner node have been allocated.\<close>

definition with_halves :: "('k, 'v) b_tree \<Rightarrow> ('k, 'v) bnode \<Rightarrow> ('k, 'v) bnode \<Rightarrow> ('k, 'v) b_tree" where
  "with_halves t l r = t\<lparr>bt_left_child := Some (bt_next t), bt_right_child := Some (Suc (bt_next t)),
     bt_heap := (bt_heap t)(bt_next t \<mapsto> l, Suc (bt_next t) \<mapsto> r), bt_next := Suc (Suc (bt_next t))\<rparr>"

lemma with_halves_simps [simp]:
  "bt_slots (with_halves t l r) = bt_slots t" "bt_dflt (with_halves t l r) = bt_dflt t"
  "bt_epoch (with_halves t l r) = bt_epoch t" "bt_root (with_halves t l r) = bt_root t"
  "bt_split_node (with_halves t l r) = bt_split_node t" "bt_left_child (with_halves t l r) = Some (bt_next t)"
  "bt_right_child (with_halves t l r) = Some (Suc (bt_next t))" "bt_next (with_halves t l r) = Suc (Suc (bt_next t))"
  "bt_heap (with_halves t l r) = (bt_heap t)(bt_next t \<mapsto> l, Suc (bt_next t) \<mapsto> r)"
  by (simp_all add: with_halves_def)

lemma split_half_ok:
  assumes "bt_heap t c = Some (InnerN ci)" "inner_wf (bt_slots t) ci" "sorted (inner_keys ci)" "bt_split_node t = Some c"
    and "0 < inner_size ci" "m = inner_size ci div 2"
  shows "split_half t (Some c) = Inr (inner_keys ci ! m, with_halves t
     (InnerN (fresh_inner (bt_slots t) (fst (bt_dflt t)) (in_level ci) (take m (inner_keys ci)) (take (Suc m) (inner_kids ci))))
     (InnerN (fresh_inner (bt_slots t) (fst (bt_dflt t)) (in_level ci) (drop (Suc m) (inner_keys ci)) (drop (Suc m) (inner_kids ci)))))"
proof -
  note wf = inner_wfD[OF assms(2)]
  have m: "m < inner_size ci" using assms(5,6) by simp
  then have "arr_get (ie_entries (inner_consistent ci)) (int m) = Inr (inner_keys ci ! m)"
    using wf(2,5) by (simp add: inner_keys_def)
  moreover note inner_node_copy_ok[OF assms(2) _ _ assms(3), of 0 m "fst (bt_dflt t)" "in_level ci"]
    inner_node_copy_ok[OF assms(2) _ order_refl assms(3), of "Suc m" "fst (bt_dflt t)" "in_level ci"]
  ultimately show ?thesis
    using m assms(4) wf(3,4)
    by (simp add: split_half_def get_innerI[OF assms(1)] assms(6)[symmetric] guarded_def allocate_def with_halves_def)
qed

lemma dlink_cell: "dlink h a ps b \<Longrightarrow> p \<in> set ps \<Longrightarrow> \<exists>l. h p = Some (LeafN l)"
  by (induction ps arbitrary: a) auto

lemma halves_repr:
  assumes "repr n h (SInner c lv ks ts)" "length ks \<le> n" "length ts = Suc (length ks)" "m < length ks"
    and "\<And>p. p \<in> set (concat (map ptrs ts)) \<Longrightarrow> h' p = h p"
  shows "h' a = Some (InnerN (fresh_inner n d lv (take m ks) (take (Suc m) (map (\<lambda>t. Some (sptr t)) ts)))) \<Longrightarrow>
      repr n h' (left_half a m (SInner c lv ks ts))"
    "h' b = Some (InnerN (fresh_inner n d lv (drop (Suc m) ks) (drop (Suc m) (map (\<lambda>t. Some (sptr t)) ts)))) \<Longrightarrow>
      repr n h' (right_half b m (SInner c lv ks ts))"
proof -
  have kids: "repr n h' u" if "u \<in> set ts" for u
  proof (rule repr_cong[of n h u h'])
    show "repr n h u" using assms(1) that by simp
    show "same_view n (h p) (h' p)" if "p \<in> set (ptrs u)" for p
    proof -
      have "p \<in> set (concat (map ptrs ts))" using that \<open>u \<in> set ts\<close> by auto
      then show ?thesis using assms(5)[of p] by (simp del: set_concat)
    qed
  qed
  show "repr n h' (left_half a m (SInner c lv ks ts))"
    if "h' a = Some (InnerN (fresh_inner n d lv (take m ks) (take (Suc m) (map (\<lambda>t. Some (sptr t)) ts))))"
    using that kids assms(2-4) fresh_inner_ok[of "take m ks" n "take (Suc m) (map (\<lambda>t. Some (sptr t)) ts)" d lv]
    by (auto simp: left_half_def take_map dest: in_set_takeD)
  show "repr n h' (right_half b m (SInner c lv ks ts))"
    if "h' b = Some (InnerN (fresh_inner n d lv (drop (Suc m) ks) (drop (Suc m) (map (\<lambda>t. Some (sptr t)) ts))))"
    using that kids assms(2-4) fresh_inner_ok[of "drop (Suc m) ks" n "drop (Suc m) (map (\<lambda>t. Some (sptr t)) ts)" d lv]
    by (auto simp: right_half_def drop_map dest: in_set_dropD)
qed

lemma halves_distinct:
  assumes "distinct (ptrs (SInner c lv ks ts))" "\<forall>p\<in>set (ptrs (SInner c lv ks ts)). p < a"
    and "m < length ks" "length ts = Suc (length ks)"
    and "l = left_half a m (SInner c lv ks ts)" "r = right_half (Suc a) m (SInner c lv ks ts)"
  shows "distinct (ptrs l @ ptrs r)" "set (ptrs l @ ptrs r) = insert a (insert (Suc a) (set (concat (map ptrs ts))))"
    "sleaves l @ sleaves r = sleaves (SInner c lv ks ts)" "sentries l @ sentries r = sentries (SInner c lv ks ts)"
    "slevel l = lv" "slevel r = lv" "sptr l = a" "sptr r = Suc a"
proof -
  let ?x = "concat (map ptrs (take (Suc m) ts))" and ?y = "concat (map ptrs (drop (Suc m) ts))"
  have xy: "?x @ ?y = concat (map ptrs ts)" by (rule concat_halves)
  have set_xy: "set ?x \<union> set ?y = set (concat (map ptrs ts))" by (metis set_append xy)
  have "distinct (?x @ ?y)" unfolding xy using assms(1) by simp
  moreover have "p < a" if "p \<in> set ?x \<union> set ?y" for p using that assms(2) unfolding set_xy by auto
  moreover have lr: "ptrs l = a # ?x" "ptrs r = Suc a # ?y" using halves_concat(3,4)[OF assms(3,4)] assms(5,6) by simp_all
  ultimately show "distinct (ptrs l @ ptrs r)" by fastforce
  show "set (ptrs l @ ptrs r) = insert a (insert (Suc a) (set (concat (map ptrs ts))))"
    unfolding lr using set_xy by auto
  show "sleaves l @ sleaves r = sleaves (SInner c lv ks ts)" "sentries l @ sentries r = sentries (SInner c lv ks ts)"
    using halves_concat(1,2)[OF assms(3,4), of a c lv "Suc a"] assms(5,6) by simp_all
  show "slevel l = lv" "slevel r = lv" "sptr l = a" "sptr r = Suc a"
    by (simp_all add: assms(5,6) left_half_def right_half_def)
qed

text \<open>The node at a level on the way of a key, and whether an inner node has room for one more key.\<close>

definition anc :: "'k::linorder \<Rightarrow> nat \<Rightarrow> ('k, 'v) shape \<Rightarrow> ('k, 'v) shape" where
  "anc k d s = sub k (slevel s - d) s"

definition roomy :: "nat \<Rightarrow> ('k, 'v) shape \<Rightarrow> bool" where
  "roomy n s = (case s of SInner p lv ks ts \<Rightarrow> length ks < n | SLeaf p es \<Rightarrow> False)"

definition crowded :: "nat \<Rightarrow> ('k, 'v) shape \<Rightarrow> bool" where
  "crowded n s = (case s of SInner p lv ks ts \<Rightarrow> length ks = n | SLeaf p es \<Rightarrow> False)"

text \<open>What a split of the node at level \<open>d\<close> keeps, and that the node has room afterwards.\<close>

definition split_done :: "'k::linorder \<Rightarrow> nat \<Rightarrow> ('k, 'v) b_tree \<Rightarrow> ('k, 'v) shape \<Rightarrow> ('k, 'v) b_tree \<Rightarrow> ('k, 'v) shape \<Rightarrow> bool" where
  "split_done k d t s t' s' \<longleftrightarrow> tree_ok t' s' \<and> sentries s' = sentries s \<and> sleaves s' = sleaves s \<and> d < slevel s'
     \<and> (\<forall>e<d. anc k e s' = anc k e s) \<and> roomy (bt_slots t) (anc k d s')
     \<and> (\<forall>p\<in>set (sleaves s). bt_heap t' p = bt_heap t p)
     \<and> bt_slots t' = bt_slots t \<and> bt_dflt t' = bt_dflt t \<and> bt_epoch t' = bt_epoch t"

lemma split_inner_parent_tree:
  assumes ok: "tree_ok t s" "Suc j < slevel s" "sub k j s = SInner q lv ks ts" "i = lower_bound ks k" "length ks < bt_slots t"
    and c: "ts ! i = SInner c lv' cks cts" "m < length cks" "mk = cks ! m"
    and lr: "l = left_half (bt_next t) m (ts ! i)" "r = right_half (Suc (bt_next t)) m (ts ! i)"
    and nd: "bt_heap t' q = Some (InnerN nd)" "inner_wf (bt_slots t) nd" "in_level nd = lv" "inner_keys nd = take i ks @ mk # drop i ks"
      "inner_kids nd = map (\<lambda>t. Some (sptr t)) (take i ts @ l # r # drop (Suc i) ts)"
    and cells: "\<And>p. p \<noteq> q \<Longrightarrow> p \<noteq> c \<Longrightarrow> p < bt_next t \<Longrightarrow> bt_heap t' p = bt_heap t p" "repr (bt_slots t) (bt_heap t') l" "repr (bt_slots t) (bt_heap t') r"
    and t': "bt_slots t' = bt_slots t" "bt_root t' = bt_root t" "bt_split_node t' = None" "bt_next t' = Suc (Suc (bt_next t))"
    and s': "s' = repl k j (split_shape (sub k j s) i mk l r) s"
  shows "tree_ok t' s'" "sentries s' = sentries s" "sleaves s' = sleaves s" "slevel s' = slevel s"
    "sub k j s' = split_shape (sub k j s) i mk l r" "sub k (Suc j) s' = (if k \<le> mk then l else r)"
    "sub k (Suc (Suc j)) s' = sub k (Suc (Suc j)) s" "\<forall>p\<in>set (sleaves s). bt_heap t' p = bt_heap t p"
proof -
  note ok' = tree_okD[OF ok(1)]
  have j: "j \<le> slevel s" "Suc j \<le> slevel s" using ok(2) by simp_all
  obtain lo hi where b: "bounds k j (None, None) s = (lo, hi)" by (cases "bounds k j (None, None) s")
  have q: "bst (bt_slots t) lo hi (SInner q lv ks ts)" using sub_bst(1)[OF ok'(2) j(1), of k] ok(3) b by simp
  have i: "i < length ts" using lower_bound_child[of ts ks k] q ok(4) by simp
  have cb: "bst (bt_slots t) (lob lo ks i) (hib hi ks i) (SInner c lv' cks cts)" "Suc lv' = lv"
    using q i c(1) by (auto dest: spec[of _ i])
  note halves = bst_halves[OF cb(1) c(2), folded c(3)]
  have len: "length cts = Suc (length cks)" "sorted_wrt (<) cks" using cb(1) by simp_all
  have in_s: "set (ptrs (SInner q lv ks ts)) \<subseteq> set (ptrs s)" using sub_ptrs[OF ok'(2) j(1), of k] ok(3) by simp
  have c_in: "set (ptrs (SInner c lv' cks cts)) \<subseteq> set (ptrs (SInner q lv ks ts))" using nth_mem[OF i] c(1) by fastforce
  obtain xs ys where "ptrs s = xs @ ptrs (SInner q lv ks ts) @ ys" using repl_ptrs[OF ok'(2) j(1), of k] ok(3) by auto
  then have "distinct (ptrs (SInner q lv ks ts))" using ok'(4) by (metis distinct_append)
  then have "distinct (concat (map ptrs ts))" by simp
  then have cd: "distinct (ptrs (SInner c lv' cks cts))" using concat_nth_split[OF i, of ptrs] c(1) by (metis distinct_append)
  have "\<forall>p\<in>set (ptrs (SInner c lv' cks cts)). p < bt_next t" using ok'(5) c_in in_s by blast
  note hd = halves_distinct[OF cd this c(2) len(1) lr[unfolded c(1)]]
  have new: "p = bt_next t \<or> p = Suc (bt_next t) \<or> p \<in> set (ptrs (SInner c lv' cks cts)) \<and> p < bt_next t"
    if "p \<in> set (ptrs l @ ptrs r)" for p
    using that c_in in_s ok'(5)[of p] hd(2) by auto
  obtain xs ys where ctx: "sleaves s = xs @ sleaves (sub k j s) @ ys" "sleaves s' = xs @ sleaves (split_shape (sub k j s) i mk l r) @ ys"
    using repl_leaves[OF ok'(2) j(1), of k] s' by auto
  obtain us vs where ctx_e: "sentries s = us @ sentries (sub k j s) @ vs" "sentries s' = us @ sentries (split_shape (sub k j s) i mk l r) @ vs"
    using repl_entries[OF ok'(2) j(1), of k] s' by auto
  show leaves: "sleaves s' = sleaves s"
    unfolding ctx ok(3) using concat_split_child[OF i, of sleaves l r] hd(3) c(1) by (simp add: split_shape_def)
  show "sentries s' = sentries s"
    unfolding ctx_e ok(3) using concat_split_child[OF i, of sentries l r] hd(4) c(1) by (simp add: split_shape_def)
  have rep: "repr (bt_slots t) (bt_heap t) (SInner q lv ks ts)" using repr_sub[OF ok'(3,2) j(1), of k] ok(3) by simp
  then have inner: "\<exists>i. bt_heap t q = Some (InnerN i)" "\<exists>i. bt_heap t c = Some (InnerN i)"
    using nth_mem[OF i] c(1) by fastforce+
  show cell: "\<forall>p\<in>set (sleaves s). bt_heap t' p = bt_heap t p"
  proof
    fix p assume p: "p \<in> set (sleaves s)"
    then have "p \<noteq> q" "p \<noteq> c" using dlink_cell[OF ok'(6) p] inner by auto
    then show "bt_heap t' p = bt_heap t p" using cells(1)[of p] ok'(5)[of p] leaves_ptrs[of s] p by blast
  qed
  show "slevel s' = slevel s" unfolding s' using ok(3) by (intro slevel_repl) (simp_all add: split_shape_def j)
  show sub_j: "sub k j s' = split_shape (sub k j s) i mk l r" unfolding s' by (rule sub_repl[OF ok'(2) j(1)])
  show sub_sj: "sub k (Suc j) s' = (if k \<le> mk then l else r)"
    unfolding sub_Suc sub_j ok(3) using q by (intro kid_split_shape[OF ok(4) halves(3,4)]) simp_all
  have old: "sub k (Suc j) s = SInner c lv' cks cts" unfolding sub_Suc ok(3) kid_def using ok(4) c(1) by simp
  show "sub k (Suc (Suc j)) s' = sub k (Suc (Suc j)) s"
    unfolding sub_Suc[of k "Suc j"] sub_sj old using kid_halves[OF len(2) c(2) len(1), of k] c(1,3) lr by simp
  show "tree_ok t' s'"
    unfolding s'
  proof (rule tree_split_child[OF ok(1) _ ok(3-5) b halves(3,4)])
    show "j < slevel s" using ok(2) by simp
    show "bst (bt_slots t) (lob lo ks i) (Some mk) l" "bst (bt_slots t) (Some mk) (hib hi ks i) r"
      using halves(1,2) lr c(1) by (simp_all add: left_half_def right_half_def del: bst.simps)
    show "p \<in> set (ptrs (ts ! i)) \<or> bt_next t \<le> p" "p < bt_next t'" if "p \<in> set (ptrs l @ ptrs r)" for p
      using new[OF that] t'(4) c(1) by auto
    show "same_view (bt_slots t) (bt_heap t p) (bt_heap t' p)" if "p \<in> set (ptrs s)" "p \<noteq> q" "p \<notin> set (ptrs (ts ! i))" for p
      using cells(1)[of p] that c(1) ok'(5)[of p] by simp
    show "dlink (bt_heap t') None (sleaves (repl k j (split_shape (sub k j s) i mk l r) s)) None"
      unfolding s'[symmetric] leaves using cell by (intro dlink_cong[OF ok'(6)]) simp
  qed (use hd cb(2) cells nd t' in simp_all)
qed

text \<open>Freeing the node that has been split.\<close>

definition without_split :: "nat \<Rightarrow> ('k, 'v) b_tree \<Rightarrow> ('k, 'v) b_tree" where
  "without_split c t = t\<lparr>bt_heap := (bt_heap t)(c := None), bt_split_node := None\<rparr>"

lemma without_split_simps [simp]:
  "bt_slots (without_split c t) = bt_slots t" "bt_dflt (without_split c t) = bt_dflt t"
  "bt_epoch (without_split c t) = bt_epoch t" "bt_root (without_split c t) = bt_root t"
  "bt_split_node (without_split c t) = None" "bt_next (without_split c t) = bt_next t"
  "bt_heap (without_split c t) = (bt_heap t)(c := None)"
  by (simp_all add: without_split_def)

lemma deallocate_split_ok:
  "bt_split_node t = Some c \<Longrightarrow> bt_heap t c = Some nd \<Longrightarrow> deallocate_split t = Inr (without_split c t)"
  by (simp add: deallocate_split_def deallocate_def bt_deref_def without_split_def)

lemma put_node_simps [simp]:
  "bt_slots (put_node p nd t) = bt_slots t" "bt_dflt (put_node p nd t) = bt_dflt t" "bt_epoch (put_node p nd t) = bt_epoch t"
  "bt_root (put_node p nd t) = bt_root t" "bt_split_node (put_node p nd t) = bt_split_node t"
  "bt_next (put_node p nd t) = bt_next t" "bt_left_child (put_node p nd t) = bt_left_child t"
  "bt_right_child (put_node p nd t) = bt_right_child t" "bt_heap (put_node (Some a) nd t) = (bt_heap t)(a \<mapsto> nd)"
  by (simp_all add: put_node_def split: option.splits)

lemma anc_level: "bst n lo hi s \<Longrightarrow> d \<le> slevel s \<Longrightarrow> slevel (anc k d s) = d"
  unfolding anc_def using sub_bst(2)[of n lo hi s "slevel s - d" k] by simp

lemma anc_below:
  assumes "sub k j s' = sub k i s" "slevel s' - j = slevel s - i" "e \<le> slevel s - i" "i \<le> slevel s" "j \<le> slevel s'"
  shows "anc k e s' = anc k e s"
proof -
  have "slevel s' - e = j + (slevel s - i - e)" "slevel s - e = i + (slevel s - i - e)" using assms(2-5) by linarith+
  then show ?thesis unfolding anc_def by (simp add: sub_add assms(1))
qed

text \<open>A node on the way of a key and its child on that way.\<close>

lemma parent_child:
  assumes ok: "tree_ok t s" "j < slevel s" "sub k j s = SInner q lv ks ts" "i = lower_bound ks k"
    and b: "bounds k j (None, None) s = (lo, hi)"
  shows "sub k (Suc j) s = ts ! i" "i < length ts" "i \<le> length ks" "length ts = Suc (length ks)" "sorted_wrt (<) ks"
    "bst (bt_slots t) (lob lo ks i) (hib hi ks i) (ts ! i)" "Suc (slevel (ts ! i)) = lv"
    "repr (bt_slots t) (bt_heap t) (ts ! i)"
    "\<exists>nd. bt_heap t q = Some (InnerN nd) \<and> inner_wf (bt_slots t) nd \<and> in_level nd = lv \<and> inner_keys nd = ks
       \<and> inner_kids nd = map (\<lambda>t. Some (sptr t)) ts"
    "q < bt_next t" "sptr (ts ! i) < bt_next t" "q \<notin> set (ptrs (ts ! i))" "distinct (ptrs (ts ! i))" "set (ptrs (ts ! i)) \<subseteq> set (ptrs s)"
proof -
  note ok' = tree_okD[OF ok(1)]
  have j: "j \<le> slevel s" using ok(2) by simp
  have q: "bst (bt_slots t) lo hi (SInner q lv ks ts)" using sub_bst(1)[OF ok'(2) j, of k] ok(3) b by simp
  then show "length ts = Suc (length ks)" "sorted_wrt (<) ks" by simp_all
  then show i: "i < length ts" "i \<le> length ks" using lower_bound_le[of ks k] ok(4) by simp_all
  show "sub k (Suc j) s = ts ! i" using ok(3,4) unfolding sub_Suc by (simp add: kid_def)
  show "bst (bt_slots t) (lob lo ks i) (hib hi ks i) (ts ! i)" "Suc (slevel (ts ! i)) = lv" using q i(1) by simp_all
  have rep: "repr (bt_slots t) (bt_heap t) (SInner q lv ks ts)" using repr_sub[OF ok'(3,2) j, of k] ok(3) by simp
  then show "repr (bt_slots t) (bt_heap t) (ts ! i)" "\<exists>nd. bt_heap t q = Some (InnerN nd) \<and> inner_wf (bt_slots t) nd \<and> in_level nd = lv
       \<and> inner_keys nd = ks \<and> inner_kids nd = map (\<lambda>t. Some (sptr t)) ts"
    using nth_mem[OF i(1)] by auto
  obtain xs ys where "ptrs s = xs @ ptrs (SInner q lv ks ts) @ ys" using repl_ptrs[OF ok'(2) j, of k] ok(3) by auto
  then have ps: "ptrs s = (xs @ q # concat (map ptrs (take i ts))) @ ptrs (ts ! i) @ (concat (map ptrs (drop (Suc i) ts)) @ ys)"
    using concat_nth_split[OF i(1), of ptrs] by simp
  show "set (ptrs (ts ! i)) \<subseteq> set (ptrs s)" "distinct (ptrs (ts ! i))" using ok'(4) unfolding ps by auto
  have "q \<in> set (ptrs s)" "sptr (ts ! i) \<in> set (ptrs s)" using sptr_in[of "ts ! i"] unfolding ps by auto
  then show "q < bt_next t" "sptr (ts ! i) < bt_next t" using ok'(5) by simp_all
  show "q \<notin> set (ptrs (ts ! i))" using ok'(4) unfolding ps by auto
qed

text \<open>Both halves of a represented node are represented once they are allocated.\<close>

lemma split_half_shape:
  assumes rep: "repr (bt_slots t) (bt_heap t) (SInner c lv ks ts)" "bst (bt_slots t) lo hi (SInner c lv ks ts)"
    and t: "ks \<noteq> []" "m = length ks div 2" "a = bt_next t"
    and lr: "l = left_half a m (SInner c lv ks ts)" "r = right_half (Suc a) m (SInner c lv ks ts)"
  shows "\<exists>ln rn. split_half (t\<lparr>bt_split_node := Some c\<rparr>) (Some c) =
       Inr (ks ! m, with_halves (t\<lparr>bt_split_node := Some c\<rparr>) (InnerN ln) (InnerN rn))
     \<and> (\<forall>h'. h' a = Some (InnerN ln) \<and> h' (Suc a) = Some (InnerN rn) \<and> (\<forall>p\<in>set (concat (map ptrs ts)). h' p = bt_heap t p) \<longrightarrow>
          repr (bt_slots t) h' l \<and> repr (bt_slots t) h' r)"
proof -
  obtain cn where cn: "bt_heap t c = Some (InnerN cn)" "inner_wf (bt_slots t) cn" "in_level cn = lv" "inner_keys cn = ks"
      "inner_kids cn = map (\<lambda>t. Some (sptr t)) ts" using rep(1) by auto
  have size: "inner_size cn = length ks" using inner_wfD(3)[OF cn(2)] cn(4) by simp
  have len: "length ks \<le> bt_slots t" "length ts = Suc (length ks)" "m < length ks" "sorted ks"
    using rep(2) t(1,2) by (auto simp: strict_sorted_imp_sorted)
  define ln rn where "ln = fresh_inner (bt_slots t) (fst (bt_dflt t)) lv (take m ks) (take (Suc m) (map (\<lambda>t. Some (sptr t)) ts))"
    and "rn = fresh_inner (bt_slots t) (fst (bt_dflt t)) lv (drop (Suc m) ks) (drop (Suc m) (map (\<lambda>t. Some (sptr t)) ts))"
  have "split_half (t\<lparr>bt_split_node := Some c\<rparr>) (Some c) =
      Inr (ks ! m, with_halves (t\<lparr>bt_split_node := Some c\<rparr>) (InnerN ln) (InnerN rn))"
    using split_half_ok[of "t\<lparr>bt_split_node := Some c\<rparr>" c cn m] cn len(4) size t(1,2) by (simp add: ln_def rn_def)
  moreover have "repr (bt_slots t) h' l \<and> repr (bt_slots t) h' r"
    if h': "h' a = Some (InnerN ln)" "h' (Suc a) = Some (InnerN rn)" "\<And>p. p \<in> set (concat (map ptrs ts)) \<Longrightarrow> h' p = bt_heap t p" for h'
    using halves_repr[OF rep(1) len(1-3) h'(3)] h'(1,2) unfolding ln_def rn_def lr by blast
  ultimately show ?thesis by blast
qed

lemma split_inner_parent:
  assumes ok: "tree_ok t s" "Suc d \<le> slevel s" "0 < d"
    and q: "anc k (Suc d) s = SInner q lv ks ts" "length ks < bt_slots t"
    and c: "anc k d s = SInner c lv' cks cts" "length cks = bt_slots t"
  shows "\<exists>t' s'. split_inner_node t (Some c) (Some q) = Inr t' \<and> split_done k d t s t' s' \<and> sptr (anc k (Suc d) s') = q"
proof -
  note ok' = tree_okD[OF ok(1)]
  define j i m where "j = slevel s - Suc d" and "i = lower_bound ks k" and "m = length cks div 2"
  have j: "Suc j < slevel s" "j \<le> slevel s" "Suc j = slevel s - d" using ok(2,3) by (auto simp: j_def)
  have subs: "sub k j s = SInner q lv ks ts" "sub k (Suc j) s = SInner c lv' cks cts"
    using q(1) c(1) unfolding anc_def j_def[symmetric] j(3)[symmetric] by simp_all
  obtain lo hi where b: "bounds k j (None, None) s = (lo, hi)" by (cases "bounds k j (None, None) s")
  have j': "j < slevel s" using j(1) by simp
  note pc = parent_child[OF ok(1) j' subs(1) i_def b]
  have ci: "ts ! i = SInner c lv' cks cts" using pc(1) subs(2) by simp
  have cne: "cks \<noteq> []" using c(2) ok'(1) by auto
  have m: "m < length cks" "length cts = Suc (length cks)" "sorted_wrt (<) cks"
    using c(2) ok'(1) pc(6) unfolding ci by (simp_all add: m_def)
  note halves = bst_halves[OF pc(6)[unfolded ci] m(1)]
  obtain nd where nd: "bt_heap t q = Some (InnerN nd)" "inner_wf (bt_slots t) nd" "in_level nd = lv" "inner_keys nd = ks"
      "inner_kids nd = map (\<lambda>t. Some (sptr t)) ts" using pc(9) by blast
  define a l r where "a = bt_next t" and "l = left_half a m (ts ! i)" and "r = right_half (Suc a) m (ts ! i)"
  have lr: "sptr l = a" "sptr r = Suc a" by (simp_all add: l_def r_def ci left_half_def right_half_def)
  obtain ln rn where half: "split_half (t\<lparr>bt_split_node := Some c\<rparr>) (Some c) =
        Inr (cks ! m, with_halves (t\<lparr>bt_split_node := Some c\<rparr>) (InnerN ln) (InnerN rn))"
      "\<And>h'. h' a = Some (InnerN ln) \<Longrightarrow> h' (Suc a) = Some (InnerN rn) \<Longrightarrow> (\<forall>p\<in>set (concat (map ptrs cts)). h' p = bt_heap t p) \<Longrightarrow>
        repr (bt_slots t) h' l \<and> repr (bt_slots t) h' r"
    using split_half_shape[OF pc(8)[unfolded ci] pc(6)[unfolded ci] cne m_def a_def l_def[unfolded ci] r_def[unfolded ci]] by blast
  define t1 where "t1 = with_halves (t\<lparr>bt_split_node := Some c\<rparr>) (InnerN ln) (InnerN rn)"
  have t1: "bt_slots t1 = bt_slots t" "bt_root t1 = bt_root t" "bt_split_node t1 = Some c" "bt_left_child t1 = Some a" "bt_dflt t1 = bt_dflt t"
    "bt_right_child t1 = Some (Suc a)" "bt_heap t1 = (bt_heap t)(a \<mapsto> InnerN ln, Suc a \<mapsto> InnerN rn)" "bt_next t1 = Suc (Suc a)" "bt_epoch t1 = bt_epoch t"
    by (simp_all add: t1_def a_def)
  obtain nd' where up: "update_parent t1 (Some q) (cks ! m) = Inr (put_node (Some q) (InnerN nd') t1)" "inner_wf (bt_slots t) nd'"
     "in_level nd' = lv" "inner_keys nd' = take i ks @ cks ! m # drop i ks"
     "inner_kids nd' = map (\<lambda>t. Some (sptr t)) (take i ts @ l # r # drop (Suc i) ts)"
    using update_parent_ok[OF _ _ nd(4,5) pc(4) _ pc(5,3) halves(3,4), of t1 q l r] t1 nd q(2) ci lr pc(10) by (auto simp: a_def)
  define t' where "t' = without_split c (put_node (Some q) (InnerN nd') t1)"
  have "deallocate_split (put_node (Some q) (InnerN nd') t1) = Inr t'"
    unfolding t'_def using t1 pc(8,11,12) ci by (intro deallocate_split_ok[of _ _ "the (bt_heap t c)"]) (auto simp: a_def)
  then have run: "split_inner_node t (Some c) (Some q) = Inr t'"
    using ok'(8) half(1) up(1) by (simp add: split_inner_node_def guarded_def t1_def[symmetric])
  have heap: "bt_heap t' = ((bt_heap t)(a \<mapsto> InnerN ln, Suc a \<mapsto> InnerN rn, q \<mapsto> InnerN nd'))(c := None)" by (simp add: t'_def t1)
  have kids: "bt_heap t' p = bt_heap t p" if "p \<in> set (concat (map ptrs cts))" for p
  proof -
    have "p \<in> set (ptrs (ts ! i))" "p \<noteq> c" using that pc(13) unfolding ci by auto
    then show ?thesis using ok'(5)[of p] pc(12,14) by (auto simp: heap a_def)
  qed
  have "bt_heap t' a = Some (InnerN ln)" "bt_heap t' (Suc a) = Some (InnerN rn)"
    using pc(10,11) ci by (auto simp: heap a_def)
  then have reps: "repr (bt_slots t) (bt_heap t') l" "repr (bt_slots t) (bt_heap t') r"
    using half(2) kids by blast+
  define s' where "s' = repl k j (split_shape (sub k j s) i (cks ! m) l r) s"
  have fields: "bt_slots t' = bt_slots t" "bt_root t' = bt_root t" "bt_split_node t' = None" "bt_next t' = Suc (Suc (bt_next t))"
    "bt_dflt t' = bt_dflt t" "bt_epoch t' = bt_epoch t"
    by (simp_all add: t'_def t1 a_def)
  have cells: "bt_heap t' p = bt_heap t p" if "p \<noteq> q" "p \<noteq> c" "p < bt_next t" for p using that by (simp add: heap a_def)
  have q': "bt_heap t' q = Some (InnerN nd')" using pc(12) ci by (simp add: heap)
  note tree = split_inner_parent_tree[OF ok(1) j(1) subs(1) i_def q(2) ci m(1) refl l_def[unfolded a_def] r_def[unfolded a_def] q' up(2-5)
      cells reps fields(1-4) s'_def]
  have "anc k e s' = anc k e s" if "e < d" for e
    using tree(4) j that by (intro anc_below[OF tree(7)]) auto
  moreover have "anc k d s' = (if k \<le> cks ! m then l else r)" "anc k (Suc d) s' = split_shape (sub k j s) i (cks ! m) l r"
    unfolding anc_def using tree(4-6) j(3) by (simp_all add: j_def del: sub.simps)
  then have "roomy (bt_slots t) (anc k d s')" "sptr (anc k (Suc d) s') = q"
    using m(1) c(2) by (simp_all add: roomy_def l_def r_def ci left_half_def right_half_def subs(1) split_shape_def)
  ultimately have "split_done k d t s t' s'" "sptr (anc k (Suc d) s') = q"
    using tree ok(2) fields by (simp_all add: split_done_def)
  then show ?thesis using run by blast
qed

text \<open>A new root above two nodes that share the range of the old one.\<close>

lemma tree_new_root:
  assumes ok: "2 \<le> bt_slots t'" "bst (bt_slots t') None (Some mk) l" "bst (bt_slots t') (Some mk) None r" "slevel l = lv" "slevel r = lv"
    and rep: "repr (bt_slots t') (bt_heap t') l" "repr (bt_slots t') (bt_heap t') r"
    and ptr: "distinct (ptrs l @ ptrs r)" "\<And>p. p \<in> set (ptrs l @ ptrs r) \<Longrightarrow> p < rp" "bt_next t' = Suc rp"
    and root: "bt_heap t' rp = Some (InnerN (fresh_inner (bt_slots t') d (Suc lv) [mk] [Some (sptr l), Some (sptr r)]))"
      "bt_root t' = Some rp" "bt_split_node t' = None"
    and links: "dlink (bt_heap t') None (sleaves l @ sleaves r) None"
  shows "tree_ok t' (SInner rp (Suc lv) [mk] [l, r])"
proof -
  let ?s = "SInner rp (Suc lv) [mk] [l, r]"
  have "bst (bt_slots t') None None ?s" using ok by (intro bst_empty_new_root) auto
  moreover have "repr (bt_slots t') (bt_heap t') ?s"
    using rep root(1) fresh_inner_ok[of "[mk]" "bt_slots t'" "[Some (sptr l), Some (sptr r)]" d "Suc lv"] ok(1) by auto
  moreover have "distinct (ptrs ?s)" using ptr(1,2) by fastforce
  moreover have "\<forall>p\<in>set (ptrs ?s). p < bt_next t'" using ptr(2,3) by (auto simp: less_SucI)
  ultimately show ?thesis using ok(1) root links unfolding tree_ok_def by simp
qed

lemma create_new_root_ok:
  assumes "bt_split_node t = bt_root t" "bt_root t = Some c" "bt_heap t c = Some nd" "0 < bt_slots t"
  shows "create_new_root t key (Some l) (Some r) = Inr (t\<lparr>bt_root := Some (bt_next t), bt_next := Suc (bt_next t),
     bt_heap := (bt_heap t)(bt_next t \<mapsto> InnerN (fresh_inner (bt_slots t) (fst (bt_dflt t)) (Suc (node_level nd)) [key] [Some l, Some r]))\<rparr>)"
  using assms by (simp add: create_new_root_def guarded_def bt_deref_def inner_node_new_ok allocate_def)

lemma split_inner_root:
  assumes ok: "tree_ok t s" and c: "s = SInner c lv cks cts" "length cks = bt_slots t"
  shows "\<exists>t' s'. split_inner_node t (Some c) None = Inr t' \<and> split_done k (slevel s) t s t' s' \<and> slevel s' = Suc (slevel s)"
proof -
  note ok' = tree_okD[OF ok]
  define m a where "m = length cks div 2" and "a = bt_next t"
  define l r where "l = left_half a m (SInner c lv cks cts)" and "r = right_half (Suc a) m (SInner c lv cks cts)"
  have m: "cks \<noteq> []" "m < length cks" "length cts = Suc (length cks)" "sorted_wrt (<) cks"
    using c ok'(1,2) by (auto simp: m_def)
  note halves = bst_halves[OF ok'(2)[unfolded c(1)] m(2)]
  obtain ln rn where half: "split_half (t\<lparr>bt_split_node := Some c\<rparr>) (Some c) =
        Inr (cks ! m, with_halves (t\<lparr>bt_split_node := Some c\<rparr>) (InnerN ln) (InnerN rn))"
      "\<And>h'. h' a = Some (InnerN ln) \<Longrightarrow> h' (Suc a) = Some (InnerN rn) \<Longrightarrow> (\<forall>p\<in>set (concat (map ptrs cts)). h' p = bt_heap t p) \<Longrightarrow>
        repr (bt_slots t) h' l \<and> repr (bt_slots t) h' r"
    using split_half_shape[OF ok'(3)[unfolded c(1)] ok'(2)[unfolded c(1)] m(1) m_def a_def l_def r_def] by blast
  have old: "\<forall>p\<in>set (ptrs (SInner c lv cks cts)). p < a" using ok'(5) c(1) by (simp add: a_def)
  note hd = halves_distinct[OF ok'(4)[unfolded c(1)] old m(2,3) l_def r_def]
  obtain nd where nd: "bt_heap t c = Some nd" "node_level nd = lv" using repr_root[OF ok'(3,2)] c(1) by auto
  define t1 where "t1 = with_halves (t\<lparr>bt_split_node := Some c\<rparr>) (InnerN ln) (InnerN rn)"
  define root :: "('a, 'b) bnode" where "root = InnerN (fresh_inner (bt_slots t) (fst (bt_dflt t)) (Suc lv) [cks ! m] [Some a, Some (Suc a)])"
  define t2 where "t2 = t1\<lparr>bt_root := Some (Suc (Suc a)), bt_next := Suc (Suc (Suc a)), bt_heap := (bt_heap t1)(Suc (Suc a) \<mapsto> root)\<rparr>"
  define t' where "t' = without_split c t2"
  have ca: "c < a" using old by simp
  have "create_new_root t1 (cks ! m) (Some a) (Some (Suc a)) = Inr t2"
    using create_new_root_ok[of t1 c nd "cks ! m" a "Suc a"] ok'(1,7) c(1) nd ca
    by (simp add: t1_def t2_def root_def a_def del: fun_upd_apply) (simp add: a_def)
  moreover have "deallocate_split t2 = Inr t'"
    unfolding t'_def using nd(1) ca by (intro deallocate_split_ok[of _ _ nd]) (simp_all add: t2_def t1_def a_def)
  ultimately have run: "split_inner_node t (Some c) None = Inr t'"
    using half(1) ok'(7,8) c(1) by (simp add: split_inner_node_def guarded_def t1_def a_def)
  have heap: "bt_heap t' = ((bt_heap t)(a \<mapsto> InnerN ln, Suc a \<mapsto> InnerN rn, Suc (Suc a) \<mapsto> root))(c := None)"
    by (simp add: t'_def t2_def t1_def a_def)
  have cells: "bt_heap t' p = bt_heap t p" if "p \<noteq> c" "p < a" for p using that by (simp add: heap)
  have "bt_heap t' p = bt_heap t p" if "p \<in> set (concat (map ptrs cts))" for p
    using that ok'(4) c(1) old by (intro cells) auto
  then have reps: "repr (bt_slots t) (bt_heap t') l \<and> repr (bt_slots t) (bt_heap t') r"
    using ca by (intro half(2)) (simp_all add: heap del: set_concat)
  have leaf: "bt_heap t' p = bt_heap t p" if "p \<in> set (sleaves s)" for p
    using dlink_cell[OF ok'(6) that] that leaves_ptrs[of s] ok'(3) old c(1) by (intro cells) auto
  have fields: "bt_slots t' = bt_slots t" "bt_root t' = Some (Suc (Suc a))" "bt_split_node t' = None" "bt_next t' = Suc (Suc (Suc a))"
    "bt_dflt t' = bt_dflt t" "bt_epoch t' = bt_epoch t" by (simp_all add: t'_def t2_def t1_def)
  let ?s = "SInner (Suc (Suc a)) (Suc lv) [cks ! m] [l, r]"
  have "tree_ok t' ?s"
  proof (rule tree_new_root[of _ _ _ _ _ _ "fst (bt_dflt t)"])
    show "bst (bt_slots t') None (Some (cks ! m)) l" "bst (bt_slots t') (Some (cks ! m)) None r"
      using halves(1,2) fields(1) by (simp_all add: l_def r_def left_half_def right_half_def del: bst.simps)
    show "p < Suc (Suc a)" if "p \<in> set (ptrs l @ ptrs r)" for p
    proof -
      have "p = a \<or> p = Suc a \<or> p \<in> set (ptrs (SInner c lv cks cts))" using that hd(2) by auto
      then show ?thesis using old by (auto simp del: ptrs.simps)
    qed
    show "dlink (bt_heap t') None (sleaves l @ sleaves r) None"
      unfolding hd(3) c(1)[symmetric] using leaf by (intro dlink_cong[OF ok'(6)]) simp
  qed (use ok'(1) hd reps fields ca in \<open>simp_all add: heap root_def\<close>)
  moreover have "sleaves ?s = sleaves s" "sentries ?s = sentries s" using hd(3,4) c(1) by simp_all
  moreover have sub1: "sub k 1 ?s = (if k \<le> cks ! m then l else r)" by (auto simp: kid_def lower_bound_def)
  then have sub2: "sub k 2 ?s = sub k 1 s"
    unfolding numeral_2_eq_2 sub_Suc[of k "Suc 0"] using kid_halves[OF m(4,2,3), of k] c(1) by (simp add: l_def r_def)
  have "anc k e ?s = anc k e s" if "e < lv" for e
    using that c(1) by (intro anc_below[OF sub2]) auto
  moreover have "roomy (bt_slots t) (anc k lv ?s)"
    unfolding anc_def using sub1 m(2) c(2) by (simp add: roomy_def l_def r_def left_half_def right_half_def)
  ultimately have "split_done k (slevel s) t s t' ?s" using leaf fields c(1) by (simp add: split_done_def)
  then show ?thesis using run c(1) by fastforce
qed

end
