(* ===== verification/BTreeInsert.thy ===== *)
theory BTreeInsert
  imports BTreeSplit
begin

text \<open>
  Insertion into the persistent B+ tree: the full inner nodes on the way of the key are split from the
  top, then the leaf takes the entry or is split.
\<close>

subsection \<open>Splitting the full nodes on a path\<close>

lemma anc_inner:
  assumes "bst n lo hi s" "Suc d \<le> slevel s"
  obtains q ks ts where "anc k (Suc d) s = SInner q (Suc d) ks ts"
  using anc_level[OF assms, of k] slevel_Suc by metis

lemma anc_kid:
  assumes "Suc d \<le> slevel s"
  shows "anc k d s = kid k (anc k (Suc d) s)"
proof -
  have "slevel s - d = Suc (slevel s - Suc d)" using assms by simp
  then show ?thesis by (simp add: anc_def sub_Suc del: sub.simps)
qed

lemma anc_ptr:
  assumes "tree_ok t s" "Suc d \<le> slevel s" "anc k (Suc d) s = SInner q lv ks ts"
  shows "\<exists>nd. bt_heap t q = Some (InnerN nd) \<and> inner_wf (bt_slots t) nd \<and> inner_keys nd = ks \<and> inner_size nd = length ks
     \<and> inner_get_child nd k = Inr (Some (sptr (anc k d s)))"
proof -
  note ok = tree_okD[OF assms(1)]
  have j: "slevel s - Suc d \<le> slevel s" by simp
  have "repr (bt_slots t) (bt_heap t) (SInner q lv ks ts)" "length ts = Suc (length ks)"
    using repr_sub[OF ok(3,2) j, of k] sub_bst(1)[OF ok(2) j, of k] assms(3) unfolding anc_def by simp_all
  then obtain nd where nd: "bt_heap t q = Some (InnerN nd)" "inner_wf (bt_slots t) nd" "inner_keys nd = ks"
      "inner_kids nd = map (\<lambda>t. Some (sptr t)) ts" by auto
  then show ?thesis
    using inner_get_child_ok[OF nd(2), of k] inner_wfD(3)[OF nd(2)] lower_bound_child[of ts ks k] \<open>length ts = Suc (length ks)\<close>
    by (simp add: anc_kid[OF assms(2)] assms(3) kid_def)
qed

text \<open>Splits compose.\<close>

lemma split_done_trans:
  assumes "split_done k d t s t1 s1" "split_done k e t1 s1 t2 s2" "e \<le> d"
  shows "split_done k e t s t2 s2"
  using assms by (auto simp: split_done_def)

lemma split_path_ok:
  assumes "tree_ok t s" "Suc d \<le> slevel s" "roomy (bt_slots t) (anc k (Suc d) s)"
    and "\<And>e. 0 < e \<Longrightarrow> e \<le> d \<Longrightarrow> crowded (bt_slots t) (anc k e s)"
  shows "\<exists>t' s'. split_path k (map (\<lambda>e. Some (sptr (anc k e s))) (rev [1..<Suc d])) t (Some (sptr (anc k (Suc d) s)))
       = Inr (Some (sptr (anc k 1 s')), t')
     \<and> tree_ok t' s' \<and> 1 \<le> slevel s' \<and> anc k 0 s' = anc k 0 s \<and> roomy (bt_slots t) (anc k 1 s') \<and> sentries s' = sentries s \<and> sleaves s' = sleaves s
     \<and> (\<forall>p\<in>set (sleaves s). bt_heap t' p = bt_heap t p)
     \<and> bt_slots t' = bt_slots t \<and> bt_dflt t' = bt_dflt t \<and> bt_epoch t' = bt_epoch t"
  using assms
proof (induction d arbitrary: t s)
  case 0
  then show ?case by (intro exI[of _ t] exI[of _ s]) simp
next
  case (Suc d)
  note ok = tree_okD[OF Suc.prems(1)]
  obtain q ks ts where q: "anc k (Suc (Suc d)) s = SInner q (Suc (Suc d)) ks ts"
    by (rule anc_inner[OF ok(2) Suc.prems(2)])
  have le: "Suc d \<le> slevel s" using Suc.prems(2) by simp
  obtain c cks cts where c: "anc k (Suc d) s = SInner c (Suc d) cks cts"
    by (rule anc_inner[OF ok(2) le])
  have room: "length ks < bt_slots t" "length cks = bt_slots t"
    using Suc.prems(3) Suc.prems(4)[of "Suc d"] by (simp_all add: q c roomy_def crowded_def)
  obtain t1 s1 where t1: "split_inner_node t (Some c) (Some q) = Inr t1" "split_done k (Suc d) t s t1 s1" "sptr (anc k (Suc (Suc d)) s1) = q"
    using split_inner_parent[OF Suc.prems(1,2) _ q room(1) c room(2)] by auto
  then have s1: "tree_ok t1 s1" "Suc (Suc d) \<le> slevel s1" "bt_slots t1 = bt_slots t"
    "\<And>e. e \<le> d \<Longrightarrow> anc k e s1 = anc k e s" "roomy (bt_slots t) (anc k (Suc d) s1)"
    by (simp_all add: split_done_def)
  have le1: "Suc d \<le> slevel s1" using s1(2) by simp
  obtain q' ks' ts' where q': "anc k (Suc (Suc d)) s1 = SInner q' (Suc (Suc d)) ks' ts'"
    by (rule anc_inner[OF tree_okD(2)[OF s1(1)] s1(2)])
  then have "q' = q" using t1(3) by simp
  then obtain nd where nd: "get_inner t1 (Some q) = Inr nd" "inner_get_child nd k = Inr (Some (sptr (anc k (Suc d) s1)))"
    using anc_ptr[OF s1(1,2) q'] get_innerI by blast
  have rev_path: "rev [1..<Suc (Suc d)] = Suc d # rev [1..<Suc d]" by simp
  have same: "map (\<lambda>e. Some (sptr (anc k e s))) (rev [1..<Suc d]) = map (\<lambda>e. Some (sptr (anc k e s1))) (rev [1..<Suc d])"
    using s1(4) by (auto simp: less_Suc_eq_le simp del: upt_Suc)
  have step: "split_path k (map (\<lambda>e. Some (sptr (anc k e s))) (rev [1..<Suc (Suc d)])) t (Some (sptr (anc k (Suc (Suc d)) s)))
     = split_path k (map (\<lambda>e. Some (sptr (anc k e s1))) (rev [1..<Suc d])) t1 (Some (sptr (anc k (Suc d) s1)))"
    unfolding rev_path list.map same using t1(1) q c nd by (simp del: upt_Suc)
  have "crowded (bt_slots t1) (anc k e s1)" if "0 < e" "e \<le> d" for e using Suc.prems(4)[of e] s1(3,4) that by simp
  from Suc.IH[OF s1(1) le1 _ this] s1(3,5) obtain t' s' where
    "split_path k (map (\<lambda>e. Some (sptr (anc k e s1))) (rev [1..<Suc d])) t1 (Some (sptr (anc k (Suc d) s1))) = Inr (Some (sptr (anc k 1 s')), t')"
    "tree_ok t' s'" "1 \<le> slevel s'" "anc k 0 s' = anc k 0 s1" "roomy (bt_slots t1) (anc k 1 s')" "sentries s' = sentries s1" "sleaves s' = sleaves s1"
    "\<forall>p\<in>set (sleaves s1). bt_heap t' p = bt_heap t1 p" "bt_slots t' = bt_slots t1" "bt_dflt t' = bt_dflt t1" "bt_epoch t' = bt_epoch t1"
    by auto
  then show ?case
    unfolding step using t1(2) s1(4)[of 0] by (intro exI[of _ t'] exI[of _ s']) (auto simp: split_done_def)
qed

lemma find_full_from_ok:
  assumes "tree_ok t s" "i < slevel s"
    and "path = map (\<lambda>j. Some (sptr (sub k j s))) [0..<slevel s]"
  shows "\<exists>i'\<le>i. find_full_from t path i = Inr i' \<and> (i' = 0 \<or> roomy (bt_slots t) (sub k i' s))
     \<and> (\<forall>j. i' < j \<and> j \<le> i \<longrightarrow> crowded (bt_slots t) (sub k j s))"
  using assms(2)
proof (induction i)
  case (Suc i)
  note ok = tree_okD[OF assms(1)]
  let ?d = "slevel s - Suc (Suc i)"
  have d: "Suc ?d = slevel s - Suc i" using Suc.prems by simp
  have le: "Suc ?d \<le> slevel s" by (subst d) simp
  have sub: "anc k (Suc ?d) s = sub k (Suc i) s" unfolding anc_def d using Suc.prems by (simp add: less_imp_le del: sub.simps)
  obtain q ks ts where q: "anc k (Suc ?d) s = SInner q (Suc ?d) ks ts" by (rule anc_inner[OF ok(2) le])
  then obtain nd where nd: "get_inner t (Some q) = Inr nd" "inner_size nd = length ks" "inner_wf (bt_slots t) nd"
    using anc_ptr[OF assms(1) le q] get_innerI by blast
  have get: "get_inner t (path ! Suc i) = Inr nd" using nd(1) q sub assms(3) Suc.prems by (simp del: sub.simps upt_Suc)
  have shape: "sub k (Suc i) s = SInner q (Suc ?d) ks ts" using q sub by simp
  show ?case
  proof (cases "length ks = bt_slots t")
    case True
    then have "find_full_from t path (Suc i) = find_full_from t path i" using get nd(2) by (simp add: inner_full_def)
    moreover have "crowded (bt_slots t) (sub k (Suc i) s)" unfolding shape using True by (simp add: crowded_def)
    ultimately show ?thesis using Suc.IH Suc.prems by (metis Suc_lessD le_SucI le_Suc_eq)
  next
    case False
    then have "length ks < bt_slots t" using inner_wfD(2)[OF nd(3)] nd(2) by simp
    then have "roomy (bt_slots t) (sub k (Suc i) s)" unfolding shape by (simp add: roomy_def)
    moreover have "find_full_from t path (Suc i) = Inr (Suc i)" using get nd(2) False by (simp add: inner_full_def)
    ultimately show ?thesis by auto
  qed
qed simp

subsection \<open>The leaf that is split\<close>

lemma leaf_links [simp]:
  "leaf_wf n (l\<lparr>lf_next := x\<rparr>) = leaf_wf n l" "leaf_list (l\<lparr>lf_next := x\<rparr>) = leaf_list l"
  "leaf_wf n (l\<lparr>lf_prev := x\<rparr>) = leaf_wf n l" "leaf_list (l\<lparr>lf_prev := x\<rparr>) = leaf_list l"
  by (simp_all add: leaf_wf_def leaf_list_def leaf_size_def leaf_consistent_def leaf_working_copy_def)

lemma leaves_distinct: "distinct (ptrs s) \<Longrightarrow> distinct (sleaves s)"
proof (induction s)
  case (SInner p lv ks ts)
  then have "distinct (concat (map ptrs ts))" by simp
  moreover have "\<forall>u\<in>set ts. distinct (ptrs u) \<longrightarrow> distinct (sleaves u)" using SInner.IH by blast
  ultimately have "distinct (concat (map sleaves ts))"
  proof (induction ts)
    case (Cons u us)
    have "set (concat (map sleaves us)) \<subseteq> set (concat (map ptrs us))" using leaves_ptrs by fastforce
    moreover have "set (ptrs u) \<inter> set (concat (map ptrs us)) = {}" "distinct (ptrs u)" "distinct (concat (map ptrs us))"
      using Cons.prems(1) by simp_all
    moreover have "distinct (concat (map sleaves us))" using Cons.IH Cons.prems(2) \<open>distinct (concat (map ptrs us))\<close> by simp
    ultimately have "set (sleaves u) \<inter> set (concat (map sleaves us)) = {}" using leaves_ptrs[of u] by blast
    then show ?case using Cons.prems(2) \<open>distinct (ptrs u)\<close> \<open>distinct (concat (map sleaves us))\<close> by simp
  qed simp
  then show ?case by simp
qed simp

lemma dlink_upd [simp]: "x \<notin> set ps \<Longrightarrow> dlink (h(x := v)) c ps d = dlink h c ps d"
  by (induction ps arbitrary: c) auto

lemma dlink_last:
  assumes "dlink h c (xs @ [x]) d" "h x = Some (LeafN l)" "x \<notin> set xs"
  shows "dlink (h(x \<mapsto> LeafN (l\<lparr>lf_next := d'\<rparr>))) c (xs @ [x]) d'"
  using assms by (auto simp: dlink_append)

lemma dlink_hd:
  assumes "dlink h c (y # ys) d" "h y = Some (LeafN l)" "y \<notin> set ys"
  shows "dlink (h(y \<mapsto> LeafN (l\<lparr>lf_prev := c'\<rparr>))) c' (y # ys) d"
  using assms by auto

text \<open>The neighbours of a leaf are linked to the two leaves that replace it.\<close>

lemma correct_leaf_node_links_ok:
  assumes "dlink (bt_heap t) None (xs @ p # ys) None" "distinct (xs @ p # ys)"
  shows "\<exists>h'. correct_leaf_node_links t (Some p) (Some a) (Some b) = Inr (t\<lparr>bt_heap := h'\<rparr>)
     \<and> dlink h' None xs (Some a) \<and> dlink h' (Some b) ys None
     \<and> (\<forall>q. q \<notin> set (xs @ ys) \<longrightarrow> h' q = bt_heap t q) \<and> (\<forall>q. same_view n (bt_heap t q) (h' q))"
proof -
  obtain l where l: "bt_heap t p = Some (LeafN l)" "lf_prev l = (if xs = [] then None else Some (last xs))"
      "lf_next l = (if ys = [] then None else Some (hd ys))" "dlink (bt_heap t) None xs (Some p)" "dlink (bt_heap t) (Some p) ys None"
    using assms(1) by (auto simp: dlink_append split: if_splits)
  have "\<exists>h1. (if lf_prev l \<noteq> None
        then andthen (get_leaf t (lf_prev l)) (\<lambda>l'. Inr (put_node (lf_prev l) (LeafN (l'\<lparr>lf_next := Some a\<rparr>)) t))
        else Inr t) = Inr (t\<lparr>bt_heap := h1\<rparr>) \<and> dlink h1 None xs (Some a)
       \<and> (\<forall>q. q \<notin> set xs \<longrightarrow> h1 q = bt_heap t q) \<and> (\<forall>q. same_view n (bt_heap t q) (h1 q))"
  proof (cases xs rule: rev_cases)
    case Nil
    then show ?thesis using l(2) by (intro exI[of _ "bt_heap t"]) simp
  next
    case (snoc zs x)
    then obtain lx where lx: "bt_heap t x = Some (LeafN lx)" using dlink_cell[OF l(4), of x] by auto
    let ?h = "(bt_heap t)(x \<mapsto> LeafN (lx\<lparr>lf_next := Some a\<rparr>))"
    have "dlink ?h None xs (Some a)" using dlink_last[of "bt_heap t" None zs x "Some p" lx "Some a"] l(4) lx snoc assms(2) by simp
    then show ?thesis
      using l(2) snoc get_leafI[OF lx] lx by (intro exI[of _ ?h]) (auto simp: put_node_def same_view_def)
  qed
  then obtain h1 where h1: "(if lf_prev l \<noteq> None
        then andthen (get_leaf t (lf_prev l)) (\<lambda>l'. Inr (put_node (lf_prev l) (LeafN (l'\<lparr>lf_next := Some a\<rparr>)) t))
        else Inr t) = Inr (t\<lparr>bt_heap := h1\<rparr>)" "dlink h1 None xs (Some a)"
      "\<And>q. q \<notin> set xs \<Longrightarrow> h1 q = bt_heap t q" "\<And>q. same_view n (bt_heap t q) (h1 q)"
    by blast
  let ?t = "t\<lparr>bt_heap := h1\<rparr>"
  have cur: "get_leaf ?t (Some p) = Inr l" using h1(3)[of p] assms(2) l(1) by (intro get_leafI) auto
  have disj: "q \<notin> set xs" if "q \<in> set ys" for q using assms(2) that by auto
  have ys: "dlink h1 (Some p) ys None" using h1(3) disj by (intro dlink_cong[OF l(5)]) simp
  have "\<exists>h2. (if lf_next l \<noteq> None
        then andthen (get_leaf ?t (lf_next l)) (\<lambda>l'. Inr (put_node (lf_next l) (LeafN (l'\<lparr>lf_prev := Some b\<rparr>)) ?t))
        else Inr ?t) = Inr (t\<lparr>bt_heap := h2\<rparr>) \<and> dlink h2 (Some b) ys None
       \<and> (\<forall>q. q \<notin> set ys \<longrightarrow> h2 q = h1 q) \<and> (\<forall>q. same_view n (h1 q) (h2 q))"
  proof (cases ys)
    case Nil
    then show ?thesis using l(3) by (intro exI[of _ h1]) simp
  next
    case (Cons y zs)
    then obtain ly where ly: "h1 y = Some (LeafN ly)" using dlink_cell[OF ys, of y] by auto
    let ?h = "h1(y \<mapsto> LeafN (ly\<lparr>lf_prev := Some b\<rparr>))"
    have "dlink ?h (Some b) ys None" using dlink_hd[of h1 "Some p" y zs None ly "Some b"] ys ly Cons assms(2) by simp
    moreover have "get_leaf ?t (Some y) = Inr ly" using ly by (intro get_leafI) simp
    ultimately show ?thesis
      using l(3) Cons ly by (intro exI[of _ ?h]) (auto simp: put_node_def same_view_def)
  qed
  then obtain h2 where h2: "(if lf_next l \<noteq> None
        then andthen (get_leaf ?t (lf_next l)) (\<lambda>l'. Inr (put_node (lf_next l) (LeafN (l'\<lparr>lf_prev := Some b\<rparr>)) ?t))
        else Inr ?t) = Inr (t\<lparr>bt_heap := h2\<rparr>)" "dlink h2 (Some b) ys None"
      "\<And>q. q \<notin> set ys \<Longrightarrow> h2 q = h1 q" "\<And>q. same_view n (h1 q) (h2 q)"
    by blast
  have "correct_leaf_node_links t (Some p) (Some a) (Some b) = Inr (t\<lparr>bt_heap := h2\<rparr>)"
    unfolding correct_leaf_node_links_def get_leafI[OF l(1)] andthen_simps h1(1) cur by (rule h2(1))
  moreover have "dlink h2 None xs (Some a)" using h2(3) disj by (intro dlink_cong[OF h1(2)]) (metis same_links_refl)
  moreover have "same_view n (bt_heap t q) (h2 q)" for q by (rule same_view_trans[OF h1(4) h2(4)])
  ultimately show ?thesis using h1(3) h2(2,3) by (intro exI[of _ h2]) auto
qed

text \<open>The two halves of a full leaf with the new entry.\<close>

lemma split_leaf_halves_ok:
  assumes l: "leaf_wf (bt_slots t) l" "leaf_list l = es" "length es = bt_slots t" "2 \<le> bt_slots t" "fst e \<notin> fst ` set es"
    and a: "a = bt_next t"
  shows "\<exists>ls rs. split_leaf_halves t l e = Inr (Some (if e \<in> set ls then a else Suc a), with_halves t
       (LeafN (fresh_leaf (bt_slots t) (bt_dflt t) (bt_epoch t) (lf_prev l) None ls))
       (LeafN (fresh_leaf (bt_slots t) (bt_dflt t) (bt_epoch t) (Some a) (lf_next l) rs)))
     \<and> ls \<noteq> [] \<and> rs \<noteq> [] \<and> length ls \<le> bt_slots t \<and> length rs \<le> bt_slots t \<and> sorted_wrt (<) (map fst (ls @ rs)) \<and> set (ls @ rs) = insert e (set es)"
proof -
  define n m where "n = bt_slots t" and "m = n div 2"
  have m: "0 < m" "m < n" "m < length es" "leaf_size l = n" using l leaf_wfD(7)[OF l(1)] by (auto simp: m_def n_def)
  have sorted: "sorted_wrt (<) (map fst es)" using leaf_wfD(6)[OF l(1)] l(2) by simp
  have split: "sorted_wrt (<) (map fst (take m es))" "sorted_wrt (<) (map fst (drop m es))"
    "\<And>x y. x \<in> set (take m es) \<Longrightarrow> y \<in> set (drop m es) \<Longrightarrow> fst x < fst y"
    using sorted sorted_wrt_append[of "(<)" "map fst (take m es)" "map fst (drop m es)"] unfolding map_append[symmetric] by auto
  have first: "drop m es = es ! m # drop (Suc m) es" using m(3) by (simp add: Cons_nth_drop_Suc)
  have mid: "fst (es ! m) \<le> fst y" if "y \<in> set (drop m es)" for y using that split(2) unfolding first by auto
  have nth: "leaf_nth l m = Inr (es ! m)" using leaf_nth_ok[OF l(1), of m] m l(2) by simp
  have notin: "fst e \<notin> fst ` set (take m es)" "fst e \<notin> fst ` set (drop m es)"
    using l(5) by (auto dest: in_set_takeD in_set_dropD)
  have all: "set (take m es) \<union> set (drop m es) = set es" by (metis append_take_drop_id set_append)
  show ?thesis
  proof (cases "fst e < fst (es ! m)")
    case True
    define h ls where "h = lower_bound (map fst (take m es)) (fst e)" and "ls = take h (take m es) @ e # drop h (take m es)"
    have left: "leaf_node_copy_insert n (bt_dflt t) (bt_epoch t) e l 0 m (lf_prev l) None =
        Inr (fresh_leaf n (bt_dflt t) (bt_epoch t) (lf_prev l) None ls)" "length ls = Suc m" "sorted_wrt (<) (map fst ls)"
      using leaf_node_copy_insert_ok[OF l(1), of 0 m n "take m es" e h ls] m l(2) notin(1) h_def ls_def by simp_all
    have right: "leaf_node_copy n (bt_dflt t) (bt_epoch t) l m n (Some a) (lf_next l) =
        Inr (fresh_leaf n (bt_dflt t) (bt_epoch t) (Some a) (lf_next l) (drop m es))"
      using leaf_node_copy_ok[OF l(1), of m n n "drop m es"] m l(2,3) by (simp add: n_def)
    have set: "set ls = insert e (set (take m es))" unfolding ls_def by (metis append_take_drop_id list.simps(15) set_append Un_insert_right)
    have "fst e < fst y" if "y \<in> set (drop m es)" for y using less_le_trans[OF True mid[OF that]] .
    then have "sorted_wrt (<) (map fst (ls @ drop m es))"
      using left(3) split(2,3) by (auto simp: sorted_wrt_append set)
    moreover have "split_leaf_halves t l e = Inr (Some a, with_halves t
       (LeafN (fresh_leaf n (bt_dflt t) (bt_epoch t) (lf_prev l) None ls)) (LeafN (fresh_leaf n (bt_dflt t) (bt_epoch t) (Some a) (lf_next l) (drop m es))))"
      using nth left(1) right True m(4)
      by (simp add: split_leaf_halves_def n_def[symmetric] m_def[symmetric] allocate_def a[symmetric] with_halves_def Let_def)
    ultimately show ?thesis
      using left(2) m l(3) set all first by (intro exI[of _ ls] exI[of _ "drop m es"]) (auto simp: n_def)
  next
    case False
    define h rs where "h = lower_bound (map fst (drop m es)) (fst e)" and "rs = take h (drop m es) @ e # drop h (drop m es)"
    have left: "leaf_node_copy n (bt_dflt t) (bt_epoch t) l 0 m (lf_prev l) None =
        Inr (fresh_leaf n (bt_dflt t) (bt_epoch t) (lf_prev l) None (take m es))"
      using leaf_node_copy_ok[OF l(1), of 0 m n "take m es"] m l(2) by simp
    have right: "leaf_node_copy_insert n (bt_dflt t) (bt_epoch t) e l m n (Some a) (lf_next l) =
        Inr (fresh_leaf n (bt_dflt t) (bt_epoch t) (Some a) (lf_next l) rs)" "length rs = n - m + 1" "sorted_wrt (<) (map fst rs)"
      using leaf_node_copy_insert_ok[OF l(1), of m n n "drop m es" e h rs] m l(2,3) notin(2) h_def rs_def by (simp_all add: n_def)
    have set: "set rs = insert e (set (drop m es))" unfolding rs_def by (metis append_take_drop_id list.simps(15) set_append Un_insert_right)
    have "fst x < fst e" if "x \<in> set (take m es)" for x using split(3)[OF that, of "es ! m"] False first by auto
    then have "sorted_wrt (<) (map fst (take m es @ rs))"
      using right(3) split(1,3) by (auto simp: sorted_wrt_append set)
    moreover have "e \<notin> set (take m es)" using notin(1) by auto
    moreover have "split_leaf_halves t l e = Inr (Some (Suc a), with_halves t
       (LeafN (fresh_leaf n (bt_dflt t) (bt_epoch t) (lf_prev l) None (take m es))) (LeafN (fresh_leaf n (bt_dflt t) (bt_epoch t) (Some a) (lf_next l) rs)))"
      using nth left right(1) False m(4)
      by (simp add: split_leaf_halves_def n_def[symmetric] m_def[symmetric] allocate_def a[symmetric] with_halves_def Let_def)
    moreover have "rs \<noteq> []" "length rs \<le> n" "take m es \<noteq> []" using right(2) m by auto
    ultimately show ?thesis
      using m l(3) set all by (intro exI[of _ "take m es"] exI[of _ rs]) (auto simp: n_def)
  qed
qed

text \<open>The search that ends a leaf split.\<close>

definition leaf_split_end :: "('k::linorder, 'v) b_tree \<Rightarrow> nat option \<Rightarrow> 'k \<times> 'v \<Rightarrow> ((nat option \<times> nat) \<times> ('k, 'v) b_tree) res" where
  "leaf_split_end t insert_node entry =
     andthen (get_leaf t insert_node) (\<lambda>l.
     andthen (leaf_find l (fst entry)) (\<lambda>it.
     guarded (it \<noteq> leaf_size l) Assert_failed
       (andthen (leaf_nth l it) (\<lambda>x. guarded (x = entry) Assert_failed (Inr ((insert_node, it), t))))))"

lemma leaf_found:
  assumes "leaf_wf n l" "e \<in> set (leaf_list l)" "i = lower_bound (map fst (leaf_list l)) (fst e)"
  shows "i < leaf_size l" "leaf_list l ! i = e" "leaf_find l (fst e) = Inr i" "leaf_nth l i = Inr e"
proof -
  note wf = leaf_wfD[OF assms(1)]
  have key: "fst e \<in> fst ` set (leaf_list l)" using assms(2) by simp
  have i: "i < length (leaf_list l)" "fst (leaf_list l ! i) = fst e"
    using lower_bound_found[OF strict_sorted_imp_sorted[OF wf(6)], of "fst e"] key assms(3) by auto
  then show "i < leaf_size l" using wf(7) by simp
  have "distinct (map fst (leaf_list l))" using wf(6) by (simp add: strict_sorted_iff)
  then have "inj_on fst (set (leaf_list l))" by (simp add: distinct_map)
  then show "leaf_list l ! i = e" using i(2) assms(2) nth_mem[OF i(1)] by (simp add: inj_on_eq_iff)
  then show "leaf_nth l i = Inr e" using leaf_nth_ok[OF assms(1) \<open>i < leaf_size l\<close>] by simp
  show "leaf_find l (fst e) = Inr i" using leaf_find_ok[OF assms(1), of "fst e"] key assms(3) by simp
qed

lemma leaf_split_end_ok:
  assumes "bt_heap t p = Some (LeafN l)" "leaf_wf n l" "e \<in> set (leaf_list l)"
  shows "\<exists>it. leaf_split_end t (Some p) e = Inr ((Some p, it), t) \<and> it_deref t (Some p, it) = Inr e"
  using leaf_found[OF assms(2,3) refl]
  by (simp add: leaf_split_end_def it_deref_def get_leafI[OF assms(1)] guarded_def)

text \<open>A leaf split up to the update of the parent: two new leaves, linked in place of the old one.\<close>

lemma split_leaf_start:
  assumes ok: "tree_ok t s" "k = fst e" "sub k (slevel s) s = SLeaf p es" "length es = bt_slots t" "k \<notin> fst ` set es" "sleaves s = xs @ p # ys"
    and a: "a = bt_next t"
  shows "\<exists>ls rs h la ra. (\<forall>par. split_leaf_node t par (Some p) e =
        andthen (if par \<noteq> None
                 then update_parent (t\<lparr>bt_split_node := Some p, bt_left_child := Some a, bt_right_child := Some (Suc a), bt_next := Suc (Suc a), bt_heap := h\<rparr>) par (fst (last ls))
                 else create_new_root (t\<lparr>bt_split_node := Some p, bt_left_child := Some a, bt_right_child := Some (Suc a), bt_next := Suc (Suc a), bt_heap := h\<rparr>) (fst (last ls)) (Some a) (Some (Suc a)))
          (\<lambda>t4. andthen (deallocate_split t4) (\<lambda>t5. leaf_split_end t5 (Some (if e \<in> set ls then a else Suc a)) e)))
     \<and> ls \<noteq> [] \<and> rs \<noteq> [] \<and> length ls \<le> bt_slots t \<and> length rs \<le> bt_slots t \<and> sorted_wrt (<) (map fst (ls @ rs)) \<and> set (ls @ rs) = insert e (set es)
     \<and> h a = Some (LeafN la) \<and> leaf_wf (bt_slots t) la \<and> leaf_list la = ls \<and> h (Suc a) = Some (LeafN ra) \<and> leaf_wf (bt_slots t) ra \<and> leaf_list ra = rs
     \<and> (\<forall>q<a. same_view (bt_slots t) (bt_heap t q) (h q)) \<and> dlink h None (xs @ a # Suc a # ys) None"
proof -
  note ok' = tree_okD[OF ok(1)]
  let ?n = "bt_slots t"
  obtain l where l: "bt_heap t p = Some (LeafN l)" "leaf_wf ?n l" "leaf_list l = es"
    using repr_sub[OF ok'(3,2) order_refl, of k] ok(3) by auto
  have size: "leaf_size l = ?n" using leaf_wfD(7)[OF l(2)] l(3) ok(4) by simp
  have lv: "set (xs @ p # ys) \<subseteq> set (ptrs s)" using leaves_ptrs[of s] ok(6) by simp
  then have old: "q < a" if "q \<in> set (xs @ p # ys)" for q using ok'(5) that a by blast
  let ?t0 = "t\<lparr>bt_split_node := Some p\<rparr>"
  obtain ls rs where halves: "split_leaf_halves ?t0 l e = Inr (Some (if e \<in> set ls then a else Suc a), with_halves ?t0
       (LeafN (fresh_leaf ?n (bt_dflt t) (bt_epoch t) (lf_prev l) None ls)) (LeafN (fresh_leaf ?n (bt_dflt t) (bt_epoch t) (Some a) (lf_next l) rs)))"
     "ls \<noteq> []" "rs \<noteq> []" "length ls \<le> ?n" "length rs \<le> ?n" "sorted_wrt (<) (map fst (ls @ rs))" "set (ls @ rs) = insert e (set es)"
    using split_leaf_halves_ok[of ?t0 l es e a] l(2,3) ok(2,4,5) ok'(1) a by auto
  define ra where "ra = fresh_leaf ?n (bt_dflt t) (bt_epoch t) (Some a) (lf_next l) rs"
  define la0 where "la0 = fresh_leaf ?n (bt_dflt t) (bt_epoch t) (lf_prev l) None ls"
  define la where "la = la0\<lparr>lf_next := Some (Suc a)\<rparr>"
  have wf: "leaf_wf ?n la" "leaf_list la = ls" "leaf_wf ?n ra" "leaf_list ra = rs"
    using halves(4-6) by (auto simp: la_def la0_def ra_def sorted_wrt_append intro!: fresh_leaf_wf)
  define t2 where "t2 = put_node (Some a) (LeafN la) (with_halves ?t0 (LeafN la0) (LeafN ra))"
  have heap2: "bt_heap t2 = (bt_heap t)(a \<mapsto> LeafN la, Suc a \<mapsto> LeafN ra)"
    using a by (auto simp: t2_def fun_eq_iff)
  have links: "dlink (bt_heap t) None (xs @ p # ys) None" "distinct (xs @ p # ys)"
    using ok'(6) ok(6) ok'(4) leaves_distinct[of s] by simp_all
  have na: "a \<notin> set (xs @ p # ys)" "Suc a \<notin> set (xs @ p # ys)" using old[of a] old[of "Suc a"] by auto
  then have "dlink (bt_heap t2) None (xs @ p # ys) None" using links(1) unfolding heap2 by simp
  from correct_leaf_node_links_ok[OF this links(2), of a "Suc a" ?n] obtain h where
    h: "correct_leaf_node_links t2 (Some p) (Some a) (Some (Suc a)) = Inr (t2\<lparr>bt_heap := h\<rparr>)" "dlink h None xs (Some a)" "dlink h (Some (Suc a)) ys None"
      "\<And>q. q \<notin> set (xs @ ys) \<Longrightarrow> h q = bt_heap t2 q" "\<And>q. same_view ?n (bt_heap t2 q) (h q)"
    by blast
  have cells: "h a = Some (LeafN la)" "h (Suc a) = Some (LeafN ra)" using h(4)[of a] h(4)[of "Suc a"] na by (simp_all add: heap2)
  have "lf_prev la = (if xs = [] then None else Some (last xs))" "lf_next la = Some (Suc a)" "lf_prev ra = Some a"
      "lf_next ra = (if ys = [] then None else Some (hd ys))"
    using links(1) l(1) by (auto simp: la_def la0_def ra_def dlink_append)
  then have dl: "dlink h None (xs @ a # Suc a # ys) None" using h(2,3) cells by (simp add: dlink_append)
  have view: "\<forall>q<a. same_view ?n (bt_heap t q) (h q)" using h(5) unfolding heap2 by (metis Suc_lessD fun_upd_other less_irrefl_nat less_not_refl2 lessI)
  let ?t3 = "t\<lparr>bt_split_node := Some p, bt_left_child := Some a, bt_right_child := Some (Suc a), bt_next := Suc (Suc a), bt_heap := h\<rparr>"
  have t3: "t2\<lparr>bt_heap := h\<rparr> = ?t3" by (simp add: t2_def with_halves_def put_node_def a)
  have "leaf_full ?n l" using size by (simp add: leaf_full_def)
  moreover have "get_leaf (with_halves ?t0 (LeafN la0) (LeafN ra)) (Some a) = Inr la0" using a by (intro get_leafI) simp
  moreover have "get_leaf ?t3 (Some a) = Inr la" using cells by (intro get_leafI) simp
  moreover have "leaf_back la = Inr (last ls)" using leaf_back_ok[OF wf(1)] wf(2) halves(2) by simp
  ultimately have "split_leaf_node t par (Some p) e =
        andthen (if par \<noteq> None then update_parent ?t3 par (fst (last ls)) else create_new_root ?t3 (fst (last ls)) (Some a) (Some (Suc a)))
          (\<lambda>t4. andthen (deallocate_split t4) (\<lambda>t5. leaf_split_end t5 (Some (if e \<in> set ls then a else Suc a)) e))" for par
    using halves(1) h(1) unfolding t3 split_leaf_node_def leaf_split_end_def la0_def[symmetric] ra_def[symmetric]
    by (simp add: get_leafI[OF l(1)] guarded_def a[symmetric] la_def[symmetric] t2_def[symmetric] del: fun_upd_apply)
  then show ?thesis using halves(2-7) cells wf view dl by blast
qed

lemma leaf_halves_bst:
  assumes "bst n lo hi (SLeaf p es)" "over_key lo (fst e)" "upto_key hi (fst e)"
    and "ls \<noteq> []" "rs \<noteq> []" "length ls \<le> n" "length rs \<le> n" "sorted_wrt (<) (map fst (ls @ rs))" "set (ls @ rs) = insert e (set es)"
    and "sep = fst (last ls)"
  shows "bst n lo (Some sep) (SLeaf a ls)" "bst n (Some sep) hi (SLeaf b rs)" "over_key lo sep" "below_key hi sep"
proof -
  have keys: "over_key lo (fst x) \<and> upto_key hi (fst x)" if "x \<in> set (ls @ rs)" for x
    using that assms(1-3) unfolding assms(9) by auto
  have sorted: "sorted_wrt (<) (map fst ls)" "sorted_wrt (<) (map fst rs)"
    and cross: "\<And>x y. x \<in> set ls \<Longrightarrow> y \<in> set rs \<Longrightarrow> fst x < fst y"
    using assms(8) by (auto simp: sorted_wrt_append)
  have last: "last ls \<in> set ls" using assms(4) by simp
  have "fst x \<le> sep" if "x \<in> set ls" for x
  proof -
    obtain zs z where ls: "ls = zs @ [z]" using assms(4) by (cases ls rule: rev_cases) auto
    show ?thesis using that sorted(1) unfolding assms(10) ls by (auto simp: sorted_wrt_append)
  qed
  then show "bst n lo (Some sep) (SLeaf a ls)" using keys sorted(1) assms(6) by auto
  show "bst n (Some sep) hi (SLeaf b rs)" using keys sorted(2) assms(7,10) cross[OF last] by auto
  show "over_key lo sep" using keys[of "last ls"] last assms(10) by simp
  obtain y where y: "y \<in> set rs" using assms(5) by (cases rs) auto
  have "sep < fst y" "upto_key hi (fst y)" using cross[OF last y] keys[of y] y assms(10) by auto
  then show "below_key hi sep" by (cases hi) auto
qed

lemma content_insert:
  assumes "bst n lo hi s" "bst n' lo' hi' s'" "set (sentries s') = insert e (set (sentries s))" "content s (fst e) = None"
  shows "content s' = (content s)(fst e \<mapsto> snd e)"
proof (rule content_eqI[OF assms(2)])
  fix k v
  have "(fst e, v) \<notin> set (sentries s)" for v using assms(4) content_iff[OF assms(1), of "fst e" v] by simp
  then show "(k, v) \<in> set (sentries s') \<longleftrightarrow> ((content s)(fst e \<mapsto> snd e)) k = Some v"
    unfolding assms(3) using content_iff[OF assms(1), of k v] by (cases e) auto
qed

text \<open>The leaf below a node and its halves, in the leaf list and among the entries.\<close>

lemma leaf_child_context:
  assumes "bst n lo hi s" "j \<le> slevel s" "sub k j s = SInner q lv ks ts" "i < length ts" "ts ! i = SLeaf p es"
  obtains xs ys where "sleaves s = xs @ p # ys"
    "\<forall>mk a b ls rs. sleaves (repl k j (split_shape (sub k j s) i mk (SLeaf a ls) (SLeaf b rs)) s) = xs @ a # b # ys"
    "\<forall>mk a b ls rs. set (ls @ rs) = insert e (set es) \<longrightarrow>
       set (sentries (repl k j (split_shape (sub k j s) i mk (SLeaf a ls) (SLeaf b rs)) s)) = insert e (set (sentries s))"
proof -
  obtain xs ys where l: "sleaves s = xs @ sleaves (sub k j s) @ ys" "\<And>x. sleaves (repl k j x s) = xs @ sleaves x @ ys"
    using repl_leaves[OF assms(1,2), of k] by auto
  obtain us vs where e: "sentries s = us @ sentries (sub k j s) @ vs" "\<And>x. sentries (repl k j x s) = us @ sentries x @ vs"
    using repl_entries[OF assms(1,2), of k] by auto
  show thesis
  proof (rule that)
    show "sleaves s = (xs @ concat (map sleaves (take i ts))) @ p # (concat (map sleaves (drop (Suc i) ts)) @ ys)"
      using concat_nth_split[OF assms(4), of sleaves] assms(3,5) by (simp add: l(1))
    show "\<forall>mk a b ls rs. sleaves (repl k j (split_shape (sub k j s) i mk (SLeaf a ls) (SLeaf b rs)) s) =
       (xs @ concat (map sleaves (take i ts))) @ a # b # (concat (map sleaves (drop (Suc i) ts)) @ ys)"
      by (simp add: l(2) assms(3) split_shape_def)
    show "\<forall>mk a b ls rs. set (ls @ rs) = insert e (set es) \<longrightarrow>
       set (sentries (repl k j (split_shape (sub k j s) i mk (SLeaf a ls) (SLeaf b rs)) s)) = insert e (set (sentries s))"
    proof (intro allI impI)
      fix mk a b and ls rs :: "('a \<times> 'b) list"
      assume "set (ls @ rs) = insert e (set es)"
      then have "set (concat (map sentries (take i ts @ SLeaf a ls # SLeaf b rs # drop (Suc i) ts))) = insert e (set (concat (map sentries ts)))"
        unfolding concat_nth_split[OF assms(4), of sentries] using assms(5) by auto
      then show "set (sentries (repl k j (split_shape (sub k j s) i mk (SLeaf a ls) (SLeaf b rs)) s)) = insert e (set (sentries s))"
        unfolding e assms(3) by (auto simp: split_shape_def)
    qed
  qed
qed

lemma split_leaf_parent:
  assumes ok: "tree_ok t s" "1 \<le> slevel s" "k = fst e" "anc k 0 s = SLeaf p es" "length es = bt_slots t" "content s k = None"
    and q: "anc k 1 s = SInner q lv ks ts" "length ks < bt_slots t"
  shows "\<exists>it t' s'. split_leaf_node t (Some q) (Some p) e = Inr (it, t') \<and> tree_ok t' s' \<and> content s' = (content s)(k \<mapsto> snd e)
     \<and> it_deref t' it = Inr e"
proof -
  note ok' = tree_okD[OF ok(1)]
  define j i a where "j = slevel s - 1" and "i = lower_bound ks k" and "a = bt_next t"
  have j: "j < slevel s" "j \<le> slevel s" "Suc j = slevel s" using ok(2) by (auto simp: j_def)
  have subs: "sub k j s = SInner q lv ks ts" "sub k (slevel s) s = SLeaf p es"
    using q(1) ok(4) by (simp_all add: anc_def j_def)
  obtain lo hi where b: "bounds k j (None, None) s = (lo, hi)" by (cases "bounds k j (None, None) s")
  note pc = parent_child[OF ok(1) j(1) subs(1) i_def b]
  have pi: "ts ! i = SLeaf p es" using pc(1) subs(2) j(3) by simp
  have qb: "bst (bt_slots t) lo hi (SInner q lv ks ts)" using sub_bst(1)[OF ok'(2) j(2), of k] subs(1) b by simp
  have key: "over_key (lob lo ks i) (fst e)" "upto_key (hib hi ks i) (fst e)"
    using bounds_key[OF ok'(2) j(2), of k] b child_of_key[OF pc(5), of lo k hi] by (simp_all add: i_def ok(3))
  obtain xs ys where ctx: "sleaves s = xs @ p # ys"
      "\<forall>mk a b ls rs. sleaves (repl k j (split_shape (sub k j s) i mk (SLeaf a ls) (SLeaf b rs)) s) = xs @ a # b # ys"
      "\<forall>mk a b ls rs. set (ls @ rs) = insert e (set es) \<longrightarrow>
         set (sentries (repl k j (split_shape (sub k j s) i mk (SLeaf a ls) (SLeaf b rs)) s)) = insert e (set (sentries s))"
    by (rule leaf_child_context[OF ok'(2) j(2) subs(1) pc(2) pi])
  have new: "k \<notin> fst ` set es" using content_None[OF ok'(2) subs(2)] ok(6) by simp
  obtain ls rs h la ra where start: "\<And>par. split_leaf_node t par (Some p) e =
        andthen (if par \<noteq> None
                 then update_parent (t\<lparr>bt_split_node := Some p, bt_left_child := Some a, bt_right_child := Some (Suc a), bt_next := Suc (Suc a), bt_heap := h\<rparr>) par (fst (last ls))
                 else create_new_root (t\<lparr>bt_split_node := Some p, bt_left_child := Some a, bt_right_child := Some (Suc a), bt_next := Suc (Suc a), bt_heap := h\<rparr>) (fst (last ls)) (Some a) (Some (Suc a)))
          (\<lambda>t4. andthen (deallocate_split t4) (\<lambda>t5. leaf_split_end t5 (Some (if e \<in> set ls then a else Suc a)) e))"
      and ls: "ls \<noteq> []" "rs \<noteq> []" "length ls \<le> bt_slots t" "length rs \<le> bt_slots t" "sorted_wrt (<) (map fst (ls @ rs))" "set (ls @ rs) = insert e (set es)"
      and h: "h a = Some (LeafN la)" "leaf_wf (bt_slots t) la" "leaf_list la = ls" "h (Suc a) = Some (LeafN ra)" "leaf_wf (bt_slots t) ra" "leaf_list ra = rs"
        "\<forall>q<a. same_view (bt_slots t) (bt_heap t q) (h q)" "dlink h None (xs @ a # Suc a # ys) None"
    using split_leaf_start[OF ok(1,3) subs(2) ok(5) new ctx(1) a_def] by blast
  define t3 where "t3 = t\<lparr>bt_split_node := Some p, bt_left_child := Some a, bt_right_child := Some (Suc a), bt_next := Suc (Suc a), bt_heap := h\<rparr>"
  note halves = leaf_halves_bst[OF pc(6)[unfolded pi] key ls refl]
  obtain nd where nd: "bt_heap t q = Some (InnerN nd)" "inner_wf (bt_slots t) nd" "in_level nd = lv" "inner_keys nd = ks"
      "inner_kids nd = map (\<lambda>t. Some (sptr t)) ts" using pc(9) by blast
  have "h q = Some (InnerN nd)" using h(7) nd(1) pc(10) by (auto simp: same_view_def a_def)
  then obtain nd' where up: "update_parent t3 (Some q) (fst (last ls)) = Inr (put_node (Some q) (InnerN nd') t3)" "inner_wf (bt_slots t) nd'"
     "in_level nd' = lv" "inner_keys nd' = take i ks @ fst (last ls) # drop i ks"
     "inner_kids nd' = map (\<lambda>t. Some (sptr t)) (take i ts @ SLeaf a ls # SLeaf (Suc a) rs # drop (Suc i) ts)"
    using update_parent_ok[OF _ _ nd(4,5) pc(4) _ pc(5,3) halves(3,4), of t3 q "SLeaf a ls" "SLeaf (Suc a) rs"] nd q(2) pi by (auto simp: t3_def)
  have p: "p < a" "p \<noteq> q" "\<exists>x. h p = Some x"
    using pc(8,11,12) pi h(7) by (auto simp: a_def same_view_def)
  define t' where "t' = without_split p (put_node (Some q) (InnerN nd') t3)"
  have free: "deallocate_split (put_node (Some q) (InnerN nd') t3) = Inr t'"
    unfolding t'_def using p by (intro deallocate_split_ok[of _ _ "the (h p)"]) (auto simp: t3_def)
  have heap: "bt_heap t' = (h(q \<mapsto> InnerN nd'))(p := None)" by (simp add: t'_def t3_def)
  have fields: "bt_slots t' = bt_slots t" "bt_root t' = bt_root t" "bt_split_node t' = None" "bt_next t \<le> bt_next t'" "bt_next t' = Suc (Suc a)"
    by (simp_all add: t'_def t3_def a_def)
  have q_a: "q < a" using pc(10) by (simp add: a_def)
  have cells: "bt_heap t' a = Some (LeafN la)" "bt_heap t' (Suc a) = Some (LeafN ra)" "bt_heap t' q = Some (InnerN nd')"
    using h(1,4) p(1,2) q_a by (simp_all add: heap)
  define s' where "s' = repl k j (split_shape (sub k j s) i (fst (last ls)) (SLeaf a ls) (SLeaf (Suc a) rs)) s"
  have inner: "q \<notin> set (xs @ a # Suc a # ys)" "p \<notin> set (xs @ a # Suc a # ys)"
  proof -
    have "\<exists>l. h x = Some (LeafN l)" if "x \<in> set (xs @ a # Suc a # ys)" for x using dlink_cell[OF h(8) that] .
    then show "q \<notin> set (xs @ a # Suc a # ys)" using \<open>h q = Some (InnerN nd)\<close> by force
    show "p \<notin> set (xs @ a # Suc a # ys)" using leaves_distinct[OF ok'(4)] p(1) ctx(1) by auto
  qed
  have tree: "tree_ok t' s'"
    unfolding s'_def
  proof (rule tree_split_child[OF ok(1) j(1) subs(1) i_def q(2) b halves(3,4,1) _ _ halves(2)])
    show "dlink (bt_heap t') None (sleaves (repl k j (split_shape (sub k j s) i (fst (last ls)) (SLeaf a ls) (SLeaf (Suc a) rs)) s)) None"
      unfolding ctx(2)[rule_format] heap using h(8) inner by simp
    show "same_view (bt_slots t) (bt_heap t x) (bt_heap t' x)" if "x \<in> set (ptrs s)" "x \<noteq> q" "x \<notin> set (ptrs (ts ! i))" for x
      using h(7) that pi ok'(5)[of x] by (simp add: heap a_def)
  qed (use h cells up(2-5) pc(7) pi fields in \<open>auto simp: a_def\<close>)
  moreover have "content s' = (content s)(k \<mapsto> snd e)"
    using content_insert[OF ok'(2) tree_okD(2)[OF tree]] ctx(3)[rule_format, OF ls(6)] ok(3,6) by (simp add: s'_def)
  moreover obtain it where "leaf_split_end t' (Some (if e \<in> set ls then a else Suc a)) e = Inr (it, t')" "it_deref t' it = Inr e"
    using leaf_split_end_ok[OF cells(1) h(2), of e] leaf_split_end_ok[OF cells(2) h(5), of e] h(3,6) ls(6) by (cases "e \<in> set ls") auto
  then have "split_leaf_node t (Some q) (Some p) e = Inr (it, t')" "it_deref t' it = Inr e"
    using start[of "Some q"] up(1) free by (simp_all add: t3_def[symmetric])
  ultimately show ?thesis by blast
qed

lemma split_leaf_root:
  assumes ok: "tree_ok t s" "s = SLeaf p es" "length es = bt_slots t" "content s (fst e) = None"
  shows "\<exists>it t' s'. split_leaf_node t None (Some p) e = Inr (it, t') \<and> tree_ok t' s' \<and> content s' = (content s)(fst e \<mapsto> snd e)
     \<and> it_deref t' it = Inr e"
proof -
  note ok' = tree_okD[OF ok(1)]
  define a where "a = bt_next t"
  have sub: "sub (fst e) (slevel s) s = SLeaf p es" "sleaves s = [] @ p # []" using ok(2) by simp_all
  have new: "fst e \<notin> fst ` set es" using content_None[OF ok'(2) sub(1)] ok(4) by simp
  obtain ls rs h la ra where start: "\<And>par. split_leaf_node t par (Some p) e =
        andthen (if par \<noteq> None
                 then update_parent (t\<lparr>bt_split_node := Some p, bt_left_child := Some a, bt_right_child := Some (Suc a), bt_next := Suc (Suc a), bt_heap := h\<rparr>) par (fst (last ls))
                 else create_new_root (t\<lparr>bt_split_node := Some p, bt_left_child := Some a, bt_right_child := Some (Suc a), bt_next := Suc (Suc a), bt_heap := h\<rparr>) (fst (last ls)) (Some a) (Some (Suc a)))
          (\<lambda>t4. andthen (deallocate_split t4) (\<lambda>t5. leaf_split_end t5 (Some (if e \<in> set ls then a else Suc a)) e))"
      and ls: "ls \<noteq> []" "rs \<noteq> []" "length ls \<le> bt_slots t" "length rs \<le> bt_slots t" "sorted_wrt (<) (map fst (ls @ rs))" "set (ls @ rs) = insert e (set es)"
      and h: "h a = Some (LeafN la)" "leaf_wf (bt_slots t) la" "leaf_list la = ls" "h (Suc a) = Some (LeafN ra)" "leaf_wf (bt_slots t) ra" "leaf_list ra = rs"
        "\<forall>q<a. same_view (bt_slots t) (bt_heap t q) (h q)" "dlink h None ([] @ a # Suc a # []) None"
    using split_leaf_start[OF ok(1) refl sub(1) ok(3) new sub(2) a_def] by blast
  define t3 where "t3 = t\<lparr>bt_split_node := Some p, bt_left_child := Some a, bt_right_child := Some (Suc a), bt_next := Suc (Suc a), bt_heap := h\<rparr>"
  note halves = leaf_halves_bst[OF ok'(2)[unfolded ok(2)] _ _ ls refl, simplified]
  obtain lp where "bt_heap t p = Some (LeafN lp)" "p < a" using ok'(3,5) ok(2) by (auto simp: a_def)
  then obtain lp where lp: "h p = Some (LeafN lp)" "p < a" using h(7) by (auto simp: same_view_def)
  define root :: "('a, 'b) bnode" where "root = InnerN (fresh_inner (bt_slots t) (fst (bt_dflt t)) 1 [fst (last ls)] [Some a, Some (Suc a)])"
  define t4 where "t4 = t3\<lparr>bt_root := Some (Suc (Suc a)), bt_next := Suc (Suc (Suc a)), bt_heap := h(Suc (Suc a) \<mapsto> root)\<rparr>"
  have new_root: "create_new_root t3 (fst (last ls)) (Some a) (Some (Suc a)) = Inr t4"
    using create_new_root_ok[of t3 p "LeafN lp" "fst (last ls)" a "Suc a"] ok'(1,7) ok(2) lp
    by (simp add: t3_def t4_def root_def node_level_def)
  define t' where "t' = without_split p t4"
  have free: "deallocate_split t4 = Inr t'"
    unfolding t'_def using lp by (intro deallocate_split_ok[of _ _ "LeafN lp"]) (simp_all add: t4_def t3_def)
  have heap: "bt_heap t' = (h(Suc (Suc a) \<mapsto> root))(p := None)" by (simp add: t'_def t4_def)
  have cells: "bt_heap t' a = Some (LeafN la)" "bt_heap t' (Suc a) = Some (LeafN ra)" using h(1,4) lp(2) by (simp_all add: heap)
  let ?s = "SInner (Suc (Suc a)) (Suc 0) [fst (last ls)] [SLeaf a ls, SLeaf (Suc a) rs]"
  have tree: "tree_ok t' ?s"
  proof (rule tree_new_root[of _ _ _ _ _ _ "fst (bt_dflt t)"])
    show "bst (bt_slots t') None (Some (fst (last ls))) (SLeaf a ls)" "bst (bt_slots t') (Some (fst (last ls))) None (SLeaf (Suc a) rs)"
      using halves by (simp_all add: t'_def t4_def t3_def)
    show "dlink (bt_heap t') None (sleaves (SLeaf a ls) @ sleaves (SLeaf (Suc a) rs)) None" using h(8) lp(2) by (simp add: heap)
  qed (use ok'(1) h(1-6) lp(2) in \<open>auto simp: heap root_def t'_def t4_def t3_def\<close>)
  moreover have "content ?s = (content s)(fst e \<mapsto> snd e)"
    using content_insert[OF ok'(2) tree_okD(2)[OF tree] _ ok(4)] ls(6) ok(2) by simp
  moreover obtain it where "leaf_split_end t' (Some (if e \<in> set ls then a else Suc a)) e = Inr (it, t')" "it_deref t' it = Inr e"
    using leaf_split_end_ok[OF cells(1) h(2), of e] leaf_split_end_ok[OF cells(2) h(5), of e] h(3,6) ls(6) by (cases "e \<in> set ls") auto
  then have "split_leaf_node t None (Some p) e = Inr (it, t')" "it_deref t' it = Inr e"
    using start[of None] new_root free by (simp_all add: t3_def[symmetric])
  ultimately show ?thesis by blast
qed

subsection \<open>Insertion\<close>

text \<open>What an insertion returns: an iterator at the entry with the key, and whether it is a new one.\<close>

definition inserted ::
  "'k::linorder \<times> 'v \<Rightarrow> ('k \<rightharpoonup> 'v) \<Rightarrow> (nat option \<times> nat) \<times> bool \<times> ('k, 'v) b_tree \<Rightarrow> bool" where
  "inserted e m = (\<lambda>(it, new, t'). (new \<longleftrightarrow> m (fst e) = None)
     \<and> it_deref t' it = Inr (fst e, case m (fst e) of None \<Rightarrow> snd e | Some v \<Rightarrow> v)
     \<and> (\<exists>s'. tree_ok t' s' \<and> content s' = (case m (fst e) of None \<Rightarrow> m(fst e \<mapsto> snd e) | Some _ \<Rightarrow> m)
          \<and> (\<forall>v. m (fst e) = Some v \<longrightarrow> (\<exists>p es i. sub (fst e) (slevel s') s' = SLeaf p es \<and> it = (Some p, i) \<and> i < length es
                \<and> es ! i = (fst e, v)))))"

lemma insert_into_leaf:
  assumes ok: "tree_ok t s" "sub (fst e) (slevel s) s = SLeaf p es" "bt_heap t p = Some (LeafN l)" "leaf_wf (bt_slots t) l" "leaf_list l = es"
    and room: "leaf_size l < bt_slots t"
  shows "runs (andthen (leaf_insert (bt_slots t) l e) (\<lambda>(pos, new, l'). Inr ((Some p, pos), new, put_node (Some p) (LeafN l') t))) (inserted e (content s))"
proof -
  note ok' = tree_okD[OF ok(1)]
  show ?thesis
  proof (cases "content s (fst e)")
    case (Some v)
    then have kv: "(fst e, v) \<in> set (leaf_list l)" using content_leaf[OF ok'(2) ok(2)] ok(5) by simp
    then have "fst e \<in> fst ` set (leaf_list l)" by (metis fst_conv image_eqI)
    note ins = leaf_insert_found[OF ok(4) room this]
    have same: "put_node (Some p) (LeafN l) t = t" using ok(3) by (simp add: put_node_def fun_upd_idem)
    show ?thesis
      using Some ok(1,2,5) ins leaf_found[OF ok(4) kv refl, simplified] get_leafI[OF ok(3)] same leaf_wfD(7)[OF ok(4)]
      by (auto simp: inserted_def runs_iff it_deref_def)
  next
    case None
    then have new: "fst e \<notin> fst ` set (leaf_list l)" using content_None[OF ok'(2) ok(2)] ok(5) by simp
    let ?h = "lower_bound (map fst (leaf_list l)) (fst e)"
    let ?es = "take ?h (leaf_list l) @ e # drop ?h (leaf_list l)"
    obtain l' where l': "leaf_insert (bt_slots t) l e = Inr (?h, True, l')" "leaf_wf (bt_slots t) l'" "leaf_list l' = ?es" "leaf_frame l l'"
      using leaf_insert_new[OF ok(4) room new refl] by (auto simp: runs_iff)
    have set: "set ?es = insert e (set es)"
      using ok(5) by (metis append_take_drop_id list.simps(15) set_append Un_insert_right)
    let ?s = "repl (fst e) (slevel s) (SLeaf p ?es) s"
    have tree: "tree_ok (put_node (Some p) (LeafN l') t) ?s"
      using set by (intro tree_leaf_update[OF ok(1-3) l'(2-4)]) auto
    obtain xs ys where "sentries s = xs @ es @ ys" "sentries ?s = xs @ ?es @ ys" using repl_leaf_entries[OF ok'(2) ok(2)] by metis
    then have "set (sentries ?s) = insert e (set (sentries s))" using set by auto
    note cont = content_insert[OF ok'(2) tree_okD(2)[OF tree] this None]
    have "it_deref (put_node (Some p) (LeafN l') t) (Some p, ?h) = Inr e"
      using leaf_nth_ok[OF l'(2), of ?h] l'(3) leaf_wfD(7)[OF l'(2)] lower_bound_le[of "map fst (leaf_list l)" "fst e"]
      by (simp add: it_deref_def get_leaf_def bt_deref_def put_node_def nth_append)
    then show ?thesis using None l'(1) tree cont by (auto simp: inserted_def runs_iff)
  qed
qed

lemma path_tail:
  assumes "i < slevel s"
  shows "drop (i + 1) (map (\<lambda>j. Some (sptr (sub k j s))) [0..<slevel s]) = map (\<lambda>e. Some (sptr (anc k e s))) (rev [1..<slevel s - i])"
proof (rule nth_equalityI)
  fix j assume "j < length (drop (i + 1) (map (\<lambda>j. Some (sptr (sub k j s))) [0..<slevel s]))"
  then have j: "j < slevel s - i - 1" by simp
  then have "rev [1..<slevel s - i] ! j = slevel s - (i + 1 + j)" by (simp add: rev_nth)
  moreover have "slevel s - (slevel s - (i + 1 + j)) = i + 1 + j" using j by simp
  ultimately show "drop (i + 1) (map (\<lambda>j. Some (sptr (sub k j s))) [0..<slevel s]) ! j =
      map (\<lambda>e. Some (sptr (anc k e s))) (rev [1..<slevel s - i]) ! j"
    using j by (simp add: anc_def del: sub.simps)
qed (use assms in simp)

text \<open>The splits above the leaf: the full nodes at the end of the path, with a new root if all are full.\<close>

definition split_above :: "('k::linorder, 'v) b_tree \<Rightarrow> 'k \<Rightarrow> nat option list \<Rightarrow> (nat option \<times> ('k, 'v) b_tree) res" where
  "split_above t key path =
     andthen (find_full_node t path) (\<lambda>i.
     andthen (get_inner t (path ! i)) (\<lambda>nd.
     andthen
       (if inner_full (bt_slots t) nd then
          andthen (split_inner_node t (path ! i) None) (\<lambda>t2.
          andthen (get_inner t2 (bt_root t2)) (\<lambda>r.
          andthen (inner_get_child r key) (\<lambda>c. Inr (c, t2))))
        else Inr (path ! i, t))
       (\<lambda>(parent_node, t2). split_path key (drop (i + 1) path) t2 parent_node)))"

definition ready :: "'k::linorder \<Rightarrow> ('k, 'v) b_tree \<Rightarrow> ('k, 'v) shape \<Rightarrow> nat option \<times> ('k, 'v) b_tree \<Rightarrow> bool" where
  "ready k t s = (\<lambda>(par, t'). \<exists>s'. par = Some (sptr (anc k 1 s')) \<and> tree_ok t' s' \<and> 1 \<le> slevel s' \<and> anc k 0 s' = anc k 0 s
     \<and> roomy (bt_slots t) (anc k 1 s') \<and> sentries s' = sentries s \<and> bt_slots t' = bt_slots t)"

lemma split_path_ready:
  assumes "tree_ok t s" "Suc d \<le> slevel s" "roomy (bt_slots t) (anc k (Suc d) s)"
    and "\<And>e. 0 < e \<Longrightarrow> e \<le> d \<Longrightarrow> crowded (bt_slots t) (anc k e s)"
  shows "runs (split_path k (map (\<lambda>e. Some (sptr (anc k e s))) (rev [1..<Suc d])) t (Some (sptr (anc k (Suc d) s)))) (ready k t s)"
  using split_path_ok[OF assms] unfolding runs_iff ready_def by fast

lemma split_above_ok:
  assumes ok: "tree_ok t s" "1 \<le> slevel s" and path: "path = map (\<lambda>j. Some (sptr (sub k j s))) [0..<slevel s]"
  shows "runs (split_above t k path) (ready k t s)"
proof -
  note ok' = tree_okD[OF ok(1)]
  have "length path - 1 < slevel s" using ok(2) path by simp
  from find_full_from_ok[OF ok(1) this path] obtain i where
    i: "find_full_node t path = Inr i" "i = 0 \<or> roomy (bt_slots t) (sub k i s)" "i < slevel s"
      "\<And>j. i < j \<Longrightarrow> j < slevel s \<Longrightarrow> crowded (bt_slots t) (sub k j s)"
    using ok(2) path by (auto simp: find_full_node_def)
  define d where "d = slevel s - i - 1"
  have d: "Suc d \<le> slevel s" "slevel s - Suc d = i" "slevel s - i = Suc d" using i(3) by (auto simp: d_def)
  have crowded: "crowded (bt_slots t) (anc k e s)" if "0 < e" "e \<le> d" for e
    unfolding anc_def using that d i(3) by (intro i(4)) auto
  have anc: "anc k (Suc d) s = sub k i s" by (simp add: anc_def d(2))
  obtain q ks ts where q: "anc k (Suc d) s = SInner q (Suc d) ks ts" by (rule anc_inner[OF ok'(2) d(1)])
  obtain nd where nd: "get_inner t (Some q) = Inr nd" "inner_size nd = length ks" "length ks \<le> bt_slots t"
    using anc_ptr[OF ok(1) d(1) q] get_innerI inner_wfD(2) by metis
  have here: "path ! i = Some q" using path i(3) q anc by simp
  have tail: "drop (i + 1) path = map (\<lambda>e. Some (sptr (anc k e s))) (rev [1..<Suc d])"
    using path_tail[OF i(3), of k] path d(3) by simp
  show ?thesis
  proof (cases "length ks = bt_slots t")
    case False
    then have "roomy (bt_slots t) (anc k (Suc d) s)" using q nd(3) by (simp add: roomy_def)
    from split_path_ready[OF ok(1) d(1) this crowded] show ?thesis
      using i(1) here nd(1,2) False q tail unfolding split_above_def by (simp add: inner_full_def del: upt_Suc)
  next
    case True
    then have i0: "i = 0" using i(2) q anc by (auto simp: roomy_def)
    then have s: "s = SInner q (Suc d) ks ts" "slevel s = Suc d" using q anc d(3) by simp_all
    obtain t2 s2 where t2: "split_inner_node t (Some q) None = Inr t2" "split_done k (Suc d) t s t2 s2" "slevel s2 = Suc (Suc d)"
      using split_inner_root[OF ok(1) s(1) True, of k] s(2) by auto
    then have s2: "tree_ok t2 s2" "bt_slots t2 = bt_slots t" "\<And>e. e < Suc d \<Longrightarrow> anc k e s2 = anc k e s" "roomy (bt_slots t) (anc k (Suc d) s2)" "sentries s2 = sentries s"
      by (simp_all add: split_done_def)
    have le2: "Suc (Suc d) \<le> slevel s2" "Suc d \<le> slevel s2" using t2(3) by simp_all
    obtain r rks rts where r: "anc k (Suc (Suc d)) s2 = SInner r (Suc (Suc d)) rks rts" by (rule anc_inner[OF tree_okD(2)[OF s2(1)] le2(1)])
    then have "bt_root t2 = Some r" using tree_okD(7)[OF s2(1)] t2(3) by (simp add: anc_def)
    then obtain rn where rn: "get_inner t2 (bt_root t2) = Inr rn" "inner_get_child rn k = Inr (Some (sptr (anc k (Suc d) s2)))"
      using anc_ptr[OF s2(1) le2(1) r] get_innerI by metis
    have "crowded (bt_slots t2) (anc k e s2)" if "0 < e" "e \<le> d" for e using crowded[OF that] s2(2,3) that by simp
    from split_path_ready[OF s2(1) le2(2) _ this] s2(2,4)
    have "runs (split_path k (map (\<lambda>e. Some (sptr (anc k e s2))) (rev [1..<Suc d])) t2 (Some (sptr (anc k (Suc d) s2)))) (ready k t2 s2)" by simp
    moreover have "map (\<lambda>e. Some (sptr (anc k e s2))) (rev [1..<Suc d]) = drop (i + 1) path"
      unfolding tail using s2(3) by (auto simp: less_Suc_eq_le simp del: upt_Suc)
    moreover have "ready k t2 s2 = ready k t s" unfolding ready_def using s2(2,3,5) by simp
    ultimately show ?thesis
      using i(1) here nd(1,2) True t2(1) rn unfolding split_above_def by (simp add: inner_full_def del: upt_Suc)
  qed
qed

lemma insert_descend_split:
  assumes "find_leaf_to_insert t (fst e) = Inr (path, node, t1)" "get_leaf t1 node = Inr l" "leaf_size l = bt_slots t1"
    and "leaf_find l (fst e) = Inr (leaf_size l)" "path \<noteq> []"
  shows "insert_descend t e = andthen (split_above t1 (fst e) path) (\<lambda>(par, t2).
     andthen (split_leaf_node t2 par node e) (\<lambda>(it, t3). Inr (it, True, t3)))"
  using assms by (simp add: insert_descend_def split_above_def leaf_full_def andthen_assoc split_def Let_def cong: if_cong)

lemma insert_descend_ok:
  assumes "tree_ok t s"
  shows "runs (insert_descend t e) (inserted e (content s))"
proof -
  note ok = tree_okD[OF assms]
  let ?k = "fst e"
  let ?path = "map (\<lambda>j. Some (sptr (sub ?k j s))) [0..<slevel s]"
  obtain p es where leaf: "sub ?k (slevel s) s = SLeaf p es" by (rule sub_leaf[OF ok(2)])
  obtain t1 l where t1: "walk_down t (\<lambda>i. inner_get_child i ?k) = Inr (?path, Some p, t1)" "tree_ok t1 s" "bt_slots t1 = bt_slots t"
      "bt_heap t1 p = Some (LeafN l)" "leaf_wf (bt_slots t1) l" "leaf_list l = es"
    using walk_key_ok[OF assms leaf] by auto
  note ok1 = tree_okD[OF t1(2)]
  have find: "find_leaf_to_insert t ?k = Inr (?path, Some p, t1)" using t1(1) ok(7) by (simp add: find_leaf_to_insert_def guarded_def)
  note get = get_leafI[OF t1(4)]
  show ?thesis
  proof (cases "leaf_size l = bt_slots t1")
    case False
    then have "leaf_size l < bt_slots t1" using leaf_wfD(3)[OF t1(5)] by simp
    from insert_into_leaf[OF t1(2) leaf t1(4-6) this] show ?thesis
      using False find get by (simp add: insert_descend_def leaf_full_def)
  next
    case True
    then have full: "length es = bt_slots t1" using leaf_wfD(7)[OF t1(5)] t1(6) by simp
    show ?thesis
    proof (cases "content s ?k")
      case (Some v)
      then have kv: "(?k, v) \<in> set (leaf_list l)" using content_leaf[OF ok(2) leaf] t1(6) by simp
      note found = leaf_found[OF t1(5) kv refl, simplified]
      show ?thesis
        using Some found True find get t1(2,6) leaf leaf_wfD(7)[OF t1(5)]
        by (auto simp: insert_descend_def leaf_full_def inserted_def runs_iff it_deref_def)
    next
      case None
      then have "leaf_find l ?k = Inr (leaf_size l)"
        using content_None[OF ok(2) leaf] leaf_find_ok[OF t1(5), of ?k] t1(6) by simp
      note step = this find get True
      show ?thesis
      proof (cases "slevel s")
        case 0
        then have "s = SLeaf p es" using leaf by simp
        then obtain it t' s' where "split_leaf_node t1 None (Some p) e = Inr (it, t')" "tree_ok t' s'" "content s' = (content s)(?k \<mapsto> snd e)" "it_deref t' it = Inr e"
          using split_leaf_root[OF t1(2) _ full None] by blast
        then show ?thesis using step 0 None by (auto simp: insert_descend_def leaf_full_def inserted_def runs_iff)
      next
        case (Suc lv)
        then obtain par t2 where up: "split_above t1 ?k ?path = Inr (par, t2)" "ready ?k t1 s (par, t2)"
          using split_above_ok[OF t1(2) _ refl, of ?k] unfolding runs_iff by (metis le_add1 plus_1_eq_Suc surj_pair)
        then obtain s2 where s2: "par = Some (sptr (anc ?k 1 s2))" "tree_ok t2 s2" "1 \<le> slevel s2" "anc ?k 0 s2 = SLeaf p es"
            "roomy (bt_slots t1) (anc ?k 1 s2)" "sentries s2 = sentries s" "bt_slots t2 = bt_slots t1"
          using leaf by (auto simp: ready_def anc_def)
        obtain q ks ts where q: "anc ?k 1 s2 = SInner q 1 ks ts"
          using anc_inner[OF tree_okD(2)[OF s2(2)], of 0 ?k] s2(3) by auto
        have same: "content s2 = content s" by (simp add: content_def s2(6))
        have "length ks < bt_slots t2" "length es = bt_slots t2" "content s2 ?k = None" using s2(5,7) q full None same by (simp_all add: roomy_def)
        from split_leaf_parent[OF s2(2,3) refl s2(4) this(2,3) q this(1)] obtain it t' s' where
          "split_leaf_node t2 par (Some p) e = Inr (it, t')" "tree_ok t' s'" "content s' = (content s)(?k \<mapsto> snd e)" "it_deref t' it = Inr e"
          using s2(1) q same by auto
        then show ?thesis
          using insert_descend_split[OF step(2,3,4,1)] Suc None up(1) by (auto simp: inserted_def runs_iff simp del: upt_Suc)
      qed
    qed
  qed
qed

end
