(* ===== verification/BTreeMap.thy ===== *)
theory BTreeMap
  imports BTreeInsert
begin

text \<open>
  What the persistent B+ tree promises its clients: insertion, search and removal act on the finite map
  that the tree represents, whatever the number of nodes on the way that have to be split.
\<close>

lemma empty_leaf_tree:
  assumes "bt_root t = None" "2 \<le> bt_slots t" "bt_split_node t = None"
  shows "\<exists>t1 s. (let (p, t1) = allocate (LeafN (leaf_node_new (bt_slots t) (bt_dflt t) (bt_epoch t))) t in t1\<lparr>bt_root := p\<rparr>) = t1
     \<and> bt_root t1 \<noteq> None \<and> tree_ok t1 s \<and> content s = Map.empty"
proof -
  let ?s = "SLeaf (bt_next t) []"
  have "leaf_wf (bt_slots t) (leaf_node_new (bt_slots t) (bt_dflt t) (bt_epoch t))" "leaf_list (leaf_node_new (bt_slots t) (bt_dflt t) (bt_epoch t)) = []"
    "lf_prev (leaf_node_new (bt_slots t) (bt_dflt t) (bt_epoch t)) = None" "lf_next (leaf_node_new (bt_slots t) (bt_dflt t) (bt_epoch t)) = None"
    unfolding leaf_node_new_eq by (simp_all add: fresh_leaf_wf)
  then have "tree_ok (let (p, t1) = allocate (LeafN (leaf_node_new (bt_slots t) (bt_dflt t) (bt_epoch t))) t in t1\<lparr>bt_root := p\<rparr>) ?s"
    using assms by (auto simp: allocate_def tree_ok_def)
  moreover have "content ?s = Map.empty" by (simp add: content_def)
  ultimately show ?thesis by (auto simp: allocate_def)
qed

lemma bt_insert_inserted:
  assumes "bt_repr t m"
  shows "runs (bt_insert t e) (inserted e m)"
proof (cases "bt_root t")
  case None
  with assms have t: "2 \<le> bt_slots t" "bt_split_node t = None" "m = Map.empty"
    by (auto simp: bt_repr_def tree_ok_def)
  obtain t1 s where t1: "(let (p, t1) = allocate (LeafN (leaf_node_new (bt_slots t) (bt_dflt t) (bt_epoch t))) t in t1\<lparr>bt_root := p\<rparr>) = t1"
      "bt_root t1 \<noteq> None" "tree_ok t1 s" "content s = Map.empty"
    using empty_leaf_tree[OF None t(1,2)] by blast
  then have "bt_insert t e = insert_descend t1 e" using None by (simp add: bt_insert_def guarded_def)
  then show ?thesis using insert_descend_ok[OF t1(3), of e] t1(4) t(3) by simp
next
  case (Some r)
  with assms obtain s where "tree_ok t s" "content s = m" by (auto simp: bt_repr_def)
  moreover have "bt_insert t e = insert_descend t e" using Some by (simp add: bt_insert_def guarded_def)
  ultimately show ?thesis using insert_descend_ok[of t s e] by simp
qed

lemma inserted_repr:
  assumes "inserted (k, v) m (it, new, t')"
  shows "(new \<longleftrightarrow> m k = None) \<and> it_deref t' it = Inr (k, case m k of None \<Rightarrow> v | Some w \<Rightarrow> w)
     \<and> bt_repr t' (if m k = None then m(k \<mapsto> v) else m)"
  using assms by (auto simp: inserted_def bt_repr_def split: option.splits)

lemma it_deref_tree:
  assumes "tree_ok t s" "sub k (slevel s) s = SLeaf p es" "i < length es"
  shows "it_deref t (Some p, i) = Inr (es ! i)"
proof -
  note ok = tree_okD[OF assms(1)]
  obtain l where l: "bt_heap t p = Some (LeafN l)" "leaf_wf (bt_slots t) l" "leaf_list l = es"
    using repr_sub[OF ok(3,2) order_refl, of k] assms(2) by auto
  show ?thesis
    using leaf_nth_ok[OF l(2), of i] leaf_wfD(7)[OF l(2)] l(3) assms(3) get_leafI[OF l(1)] by (simp add: it_deref_def)
qed

text \<open>A search followed by the comparison with the end iterator, as the clients of the tree do it.\<close>

definition bt_lookup :: "('k::linorder, 'v) b_tree \<Rightarrow> 'k \<Rightarrow> ('v option \<times> ('k, 'v) b_tree) res" where
  "bt_lookup t k =
     andthen (bt_find t k) (\<lambda>(it, t1).
     andthen (bt_end t1) (\<lambda>(e, t2).
       if it = e then Inr (None, t2) else andthen (it_deref t2 it) (\<lambda>x. Inr (Some (snd x), t2))))"

lemma bt_lookup_ok:
  assumes "bt_repr t m"
  shows "runs (bt_lookup t k) (\<lambda>(r, t'). r = m k \<and> bt_repr t' m)"
proof (cases "bt_root t")
  case None
  then have "bt_find t k = Inr ((None, 0), t)" "bt_end t = Inr ((None, 0), t)"
    by (simp_all add: bt_find_def find_leaf_node_def bt_end_def rightmost_leaf_def)
  moreover have "m = Map.empty" using assms None by (auto simp: bt_repr_def tree_ok_def)
  ultimately show ?thesis using assms by (simp add: bt_lookup_def runs_iff)
next
  case (Some r)
  with assms obtain s where s: "tree_ok t s" "content s = m" by (auto simp: bt_repr_def)
  obtain it t1 where f: "bt_find t k = Inr (it, t1)" "tree_ok t1 s" "case content s k of
       Some v \<Rightarrow> it_deref t1 it = Inr (k, v) \<and> holds (bt_end t1) (\<lambda>(it', _). it' \<noteq> it)
         \<and> (\<exists>p es i. sub k (slevel s) s = SLeaf p es \<and> it = (Some p, i) \<and> i < length es \<and> es ! i = (k, v))
     | None \<Rightarrow> holds (bt_end t1) (\<lambda>(it', _). it' = it)"
    using bt_find_tree[OF s(1), of k] by (auto simp: runs_iff)
  obtain e t2 where e: "bt_end t1 = Inr (e, t2)" "tree_ok t2 s" using bt_end_tree[OF f(2)] by blast
  have "bt_repr t2 m" using e(2) s(2) by (auto simp: bt_repr_def)
  moreover have "bt_lookup t k = Inr (m k, t2)"
  proof (cases "m k")
    case None
    then show ?thesis using f(1,3) e(1) s(2) by (simp add: bt_lookup_def)
  next
    case (Some v)
    then obtain p es i where i: "sub k (slevel s) s = SLeaf p es" "it = (Some p, i)" "i < length es" "es ! i = (k, v)" "e \<noteq> it"
      using f(3) e(1) s(2) by auto
    then show ?thesis using it_deref_tree[OF e(2) i(1,3)] f(1) e(1) Some by (simp add: bt_lookup_def)
  qed
  ultimately show ?thesis by simp
qed

lemma bt_erase_ok:
  assumes "bt_repr t m"
  shows "runs (bt_erase t k) (\<lambda>(c, t'). c = (if m k = None then 0 else 1) \<and> bt_repr t' (m(k := None)))"
proof (cases "bt_root t")
  case None
  moreover have "m = Map.empty" using assms None by (auto simp: bt_repr_def tree_ok_def)
  ultimately show ?thesis using assms by (simp add: bt_erase_def find_leaf_node_def runs_iff)
next
  case (Some r)
  with assms obtain s where s: "tree_ok t s" "content s = m" by (auto simp: bt_repr_def)
  then show ?thesis using bt_erase_tree[OF s(1), of k] by (force simp: runs_iff bt_repr_def)
qed

end
