(* ===== verification/BTreeClaims.thy ===== *)
theory BTreeClaims
  imports BTreeMap
begin

text \<open>
  Properties of the persistent B+ tree: sequences of operations refine those of a finite map, the
  iterator that insertion returns, and the cases in which recovery and iteration go wrong.
\<close>

subsection \<open>Stores that refine a map\<close>

datatype ('k, 'v) map_op = Ins 'k 'v | Look 'k | Del 'k

datatype 'v map_ans = Added bool | Found "'v option" | Removed bool

primrec map_step :: "('k, 'v) map_op \<Rightarrow> ('k \<rightharpoonup> 'v) \<Rightarrow> 'v map_ans \<times> ('k \<rightharpoonup> 'v)" where
  "map_step (Ins k v) m = (Added (m k = None), if m k = None then m(k \<mapsto> v) else m)"
| "map_step (Look k) m = (Found (m k), m)"
| "map_step (Del k) m = (Removed (m k \<noteq> None), m(k := None))"

primrec map_run :: "('k, 'v) map_op list \<Rightarrow> ('k \<rightharpoonup> 'v) \<Rightarrow> 'v map_ans list \<times> ('k \<rightharpoonup> 'v)" where
  "map_run [] m = ([], m)"
| "map_run (x # xs) m = (let (a, m1) = map_step x m; (as, m2) = map_run xs m1 in (a # as, m2))"

primrec store_step ::
  "('s \<Rightarrow> 'k \<Rightarrow> 'v \<Rightarrow> (bool \<times> 's) res) \<Rightarrow> ('s \<Rightarrow> 'k \<Rightarrow> ('v option \<times> 's) res) \<Rightarrow> ('s \<Rightarrow> 'k \<Rightarrow> (bool \<times> 's) res) \<Rightarrow>
     ('k, 'v) map_op \<Rightarrow> 's \<Rightarrow> ('v map_ans \<times> 's) res" where
  "store_step ins look del (Ins k v) s = andthen (ins s k v) (\<lambda>(b, s1). Inr (Added b, s1))"
| "store_step ins look del (Look k) s = andthen (look s k) (\<lambda>(r, s1). Inr (Found r, s1))"
| "store_step ins look del (Del k) s = andthen (del s k) (\<lambda>(b, s1). Inr (Removed b, s1))"

primrec store_run ::
  "('s \<Rightarrow> 'k \<Rightarrow> 'v \<Rightarrow> (bool \<times> 's) res) \<Rightarrow> ('s \<Rightarrow> 'k \<Rightarrow> ('v option \<times> 's) res) \<Rightarrow> ('s \<Rightarrow> 'k \<Rightarrow> (bool \<times> 's) res) \<Rightarrow>
     ('k, 'v) map_op list \<Rightarrow> 's \<Rightarrow> ('v map_ans list \<times> 's) res" where
  "store_run ins look del [] s = Inr ([], s)"
| "store_run ins look del (x # xs) s =
     andthen (store_step ins look del x s) (\<lambda>(a, s1).
     andthen (store_run ins look del xs s1) (\<lambda>(as, s2). Inr (a # as, s2)))"

locale map_store =
  fixes rep :: "'s \<Rightarrow> ('k \<rightharpoonup> 'v) \<Rightarrow> bool"
    and ins :: "'s \<Rightarrow> 'k \<Rightarrow> 'v \<Rightarrow> (bool \<times> 's) res"
    and look :: "'s \<Rightarrow> 'k \<Rightarrow> ('v option \<times> 's) res"
    and del :: "'s \<Rightarrow> 'k \<Rightarrow> (bool \<times> 's) res"
  assumes ins_ok: "rep s m \<Longrightarrow> runs (ins s k v) (\<lambda>(b, s'). b = (m k = None) \<and> rep s' (if m k = None then m(k \<mapsto> v) else m))"
    and look_ok: "rep s m \<Longrightarrow> runs (look s k) (\<lambda>(r, s'). r = m k \<and> rep s' m)"
    and del_ok: "rep s m \<Longrightarrow> runs (del s k) (\<lambda>(b, s'). b = (m k \<noteq> None) \<and> rep s' (m(k := None)))"
begin

lemma step_refines:
  assumes "rep s m"
  shows "runs (store_step ins look del x s) (\<lambda>(a, s'). a = fst (map_step x m) \<and> rep s' (snd (map_step x m)))"
proof (cases x)
  case (Ins k v)
  then show ?thesis using ins_ok[OF assms, of k v] by (auto simp: runs_iff)
next
  case (Look k)
  then show ?thesis using look_ok[OF assms, of k] by (auto simp: runs_iff)
next
  case (Del k)
  then show ?thesis using del_ok[OF assms, of k] by (auto simp: runs_iff)
qed

lemma run_refines:
  assumes "rep s m"
  shows "runs (store_run ins look del xs s) (\<lambda>(as, s'). as = fst (map_run xs m) \<and> rep s' (snd (map_run xs m)))"
  using assms
proof (induction xs arbitrary: s m)
  case (Cons x xs)
  obtain s1 where s1: "store_step ins look del x s = Inr (fst (map_step x m), s1)" "rep s1 (snd (map_step x m))"
    using step_refines[OF Cons.prems, of x] by (auto simp: runs_iff)
  obtain s2 where "store_run ins look del xs s1 = Inr (fst (map_run xs (snd (map_step x m))), s2)" "rep s2 (snd (map_run xs (snd (map_step x m))))"
    using Cons.IH[OF s1(2)] by (auto simp: runs_iff)
  then show ?case using s1(1) by (simp add: runs_iff split_def Let_def)
qed simp

end

text \<open>The tree as such a store.\<close>

definition bt_add :: "('k::linorder, 'v) b_tree \<Rightarrow> 'k \<Rightarrow> 'v \<Rightarrow> (bool \<times> ('k, 'v) b_tree) res" where
  "bt_add t k v = andthen (bt_insert t (k, v)) (\<lambda>(_, new, t1). Inr (new, t1))"

definition bt_del :: "('k::linorder, 'v) b_tree \<Rightarrow> 'k \<Rightarrow> (bool \<times> ('k, 'v) b_tree) res" where
  "bt_del t k = andthen (bt_erase t k) (\<lambda>(c, t1). Inr (c = 1, t1))"

interpretation tree: map_store bt_repr bt_add bt_lookup bt_del
proof
  fix t :: "('a, 'b) b_tree" and m k
  assume rep: "bt_repr t m"
  show "runs (bt_add t k v) (\<lambda>(b, t'). b = (m k = None) \<and> bt_repr t' (if m k = None then m(k \<mapsto> v) else m))" for v
    using bt_insert_inserted[OF rep, of "(k, v)"] inserted_repr[of k v m] unfolding bt_add_def runs_iff by fastforce
  show "runs (bt_lookup t k) (\<lambda>(r, t'). r = m k \<and> bt_repr t' m)" by (rule bt_lookup_ok[OF rep])
  show "runs (bt_del t k) (\<lambda>(b, t'). b = (m k \<noteq> None) \<and> bt_repr t' (m(k := None)))"
    using bt_erase_ok[OF rep, of k] unfolding bt_del_def runs_iff by fastforce
qed

subsection \<open>Properties\<close>

text \<open>C4: every sequence of insertions, searches and removals runs to completion on a well-formed tree of
  any degree, gives the answers that a finite map gives, and ends in a well-formed tree that represents
  the map at the end. All splits of leaves, inner nodes and the root are covered.\<close>

theorem btree_refines_map:
  assumes "bt_repr t m"
  shows "runs (store_run bt_add bt_lookup bt_del ops t) (\<lambda>(as, t'). as = fst (map_run ops m) \<and> bt_repr t' (snd (map_run ops m)))"
  by (rule tree.run_refines[OF assms])

theorem btree_refines_map_witness:
  "holds (store_run bt_add bt_lookup bt_del
        [Ins 2 20, Ins 4 40, Ins 6 60, Ins 1 10, Ins 4 41, Ins 3 30, Ins 5 50, Look 4, Del 2, Look 2, Look 5] (b_tree_new 3 (0 :: nat, 0 :: nat)))
       (\<lambda>(as, t'). as = [Added True, Added True, Added True, Added True, Added False, Added True, Added True,
          Found (Some 40), Removed True, Found None, Found (Some 50)])"
proof -
  have rep: "bt_repr (b_tree_new 3 (0 :: nat, 0 :: nat)) Map.empty" by (simp add: bt_repr_def b_tree_new_def)
  show ?thesis
    using btree_refines_map[OF rep, of "[Ins 2 20, Ins 4 40, Ins 6 60, Ins 1 10, Ins 4 41, Ins 3 30, Ins 5 50, Look 4, Del 2, Look 2, Look 5]"]
    by (auto simp: runs_iff holds_iff)
qed

text \<open>C29: an insertion returns an iterator at the entry of the key: the new entry if the key was absent, and
  otherwise the entry that was there, which the insertion leaves as it is.\<close>

theorem insert_returns_entry:
  assumes "bt_repr t m"
  shows "runs (bt_insert t (k, v)) (\<lambda>(it, new, t'). (new \<longleftrightarrow> m k = None)
     \<and> it_deref t' it = Inr (k, case m k of None \<Rightarrow> v | Some w \<Rightarrow> w)
     \<and> bt_repr t' (if m k = None then m(k \<mapsto> v) else m))"
  using bt_insert_inserted[OF assms, of "(k, v)"] inserted_repr[of k v m] unfolding runs_iff by fastforce

theorem insert_returns_entry_witness:
  "runs (bt_insert (b_tree_new 64 (0 :: int, ''a'')) (7, ''b'')) (\<lambda>(it, new, t'). new \<and> it_deref t' it = Inr (7, ''b''))"
proof -
  have "bt_repr (b_tree_new 64 (0 :: int, ''a'')) Map.empty" by (simp add: bt_repr_def b_tree_new_def)
  from insert_returns_entry[OF this, of 7 "''b''"] show ?thesis by (auto simp: runs_iff)
qed



subsection \<open>Recovery and iteration\<close>

definition bt_fill :: "('k::linorder \<times> 'v) list \<Rightarrow> ('k, 'v) b_tree \<Rightarrow> ('k, 'v) b_tree res" where
  "bt_fill es t = foldres (\<lambda>e t. andthen (bt_insert t e) (\<lambda>(_, _, t1). Inr t1)) es t"


text \<open>An iteration can start at an entry that has been removed. When every entry of the leftmost leaf has
  been removed the leaf stays in the tree, and \<open>begin\<close> points at a slot that still holds the removed
  entry; a step forward from there stays in the empty leaf.\<close>

lemma begin_reads_removed_entry:
  "andthen (bt_fill [(1, 10), (2, 20), (3, 30)] (b_tree_new 3 (0 :: nat, 0 :: nat))) (\<lambda>t.
   andthen (bt_erase t 1) (\<lambda>(_, t1).
   andthen (bt_lookup t1 1) (\<lambda>(r, t2).
   andthen (bt_begin t2) (\<lambda>(it, t3).
   andthen (it_deref t3 it) (\<lambda>x.
   andthen (it_next t3 it) (\<lambda>it1. Inr (r, x, fst it1 = fst it)))))))
   = Inr (None, (1, 10), True)"
  by code_simp

end
