(* ===== verification/PmemRpc.thy ===== *)
theory PmemRpc
  imports Prelude "HOL-Library.Word"
begin

text \<open>
  The requests and responses of the data-structure library, pmemds/include/pmemds-common.h: a 32-bit
  metadata word with fields for the operation, the type and the identifier of the data structure and the
  status, a key of 64 bits and a value buffer of 16 bytes. The macros that set a field or into the word.
\<close>

unbundle bit_operations_syntax

datatype opname =
    OPEN | CLOSE | CREATE_DS | CLOSE_DS | REMOVE_DS | GET | PUT | DELETE
  | INSERT | INCREASE_PRIO | DECREASE_PRIO | GET_TOPK
  | ADD_EDGE | REMOVE_EDGE | ADD_NODE | REMOVE_NODE | VERTEX_OUTDEGREE | INCIDENT_TRIANGLES

primrec op_code :: "opname \<Rightarrow> 32 word" where
  "op_code OPEN = 0" | "op_code CLOSE = 1" | "op_code CREATE_DS = 2" | "op_code CLOSE_DS = 3"
| "op_code REMOVE_DS = 4" | "op_code GET = 5" | "op_code PUT = 6" | "op_code DELETE = 7"
| "op_code INSERT = 8" | "op_code INCREASE_PRIO = 9" | "op_code DECREASE_PRIO = 10" | "op_code GET_TOPK = 11"
| "op_code ADD_EDGE = 12" | "op_code REMOVE_EDGE = 13" | "op_code ADD_NODE = 14" | "op_code REMOVE_NODE = 15"
| "op_code VERTEX_OUTDEGREE = 16" | "op_code INCIDENT_TRIANGLES = 17"

datatype dstype =
  SORTED_BTREE | CONCURRENT_HASHMAP | SHARDED_HASHMAP | SHARDED_PRIORITY_QUEUE | ADJACENCY_VECTOR | VECTOR

primrec ds_code :: "dstype \<Rightarrow> 32 word" where
  "ds_code SORTED_BTREE = 0" | "ds_code CONCURRENT_HASHMAP = 1" | "ds_code SHARDED_HASHMAP = 2"
| "ds_code SHARDED_PRIORITY_QUEUE = 3" | "ds_code ADJACENCY_VECTOR = 4" | "ds_code VECTOR = 5"

datatype pm_status = FAILED | OK | NOT_FOUND | INVALID_OP

primrec status_code :: "pm_status \<Rightarrow> 32 word" where
  "status_code FAILED = 255" | "status_code OK = 0" | "status_code NOT_FOUND = 1" | "status_code INVALID_OP = 2"

definition OP_ID :: "32 word \<Rightarrow> 32 word" where
  "OP_ID x = x AND 0xff"

definition TYPE_ID :: "32 word \<Rightarrow> 32 word" where
  "TYPE_ID x = drop_bit 8 x AND 0xf"

definition DS_ID :: "32 word \<Rightarrow> 32 word" where
  "DS_ID x = drop_bit 12 x AND 0xff"

definition SET_OP_ID :: "32 word \<Rightarrow> 32 word \<Rightarrow> 32 word" where
  "SET_OP_ID x y = x OR y"

definition SET_TYPE_ID :: "32 word \<Rightarrow> 32 word \<Rightarrow> 32 word" where
  "SET_TYPE_ID x y = x OR push_bit 8 y"

definition SET_DS_ID :: "32 word \<Rightarrow> 32 word \<Rightarrow> 32 word" where
  "SET_DS_ID x y = x OR push_bit 12 y"

definition STATUS :: "32 word \<Rightarrow> 32 word" where
  "STATUS x = drop_bit 20 x AND 0xf"

definition SET_STATUS :: "32 word \<Rightarrow> pm_status \<Rightarrow> 32 word" where
  "SET_STATUS x y = x OR push_bit 20 (status_code y)"

definition MAX_VAL_LENGTH :: nat where
  "MAX_VAL_LENGTH = 16"

record pm_rpc =
  rpc_meta :: "32 word"
  rpc_key :: "64 word"
  rpc_value :: "8 word list"

text \<open>A zeroed record, as \<open>SAFECALLOC\<close> and the initialisers of the clients give it.\<close>

definition rpc_zero :: pm_rpc where
  "rpc_zero = \<lparr>rpc_meta = 0, rpc_key = 0, rpc_value = replicate MAX_VAL_LENGTH 0\<rparr>"

text \<open>The string in a character buffer: without a terminating zero the read leaves the buffer.\<close>

definition c_str :: "8 word list \<Rightarrow> 8 word list res" where
  "c_str buf = guarded (0 \<in> set buf) Undefined_behaviour (Inr (takeWhile (\<lambda>c. c \<noteq> 0) buf))"

text \<open>\<open>snprintf(buf, MAX_VAL_LENGTH, "%s", s)\<close>.\<close>

definition snprintf_s :: "8 word list \<Rightarrow> 8 word list \<Rightarrow> 8 word list" where
  "snprintf_s buf s =
     (let out = take (MAX_VAL_LENGTH - 1) s @ [0] in out @ drop (length out) buf)"

subsection \<open>Fields of the metadata word\<close>

named_theorems meta_simps \<open>the macros on the metadata word\<close>

lemmas [meta_simps] = OP_ID_def TYPE_ID_def DS_ID_def SET_OP_ID_def SET_TYPE_ID_def SET_DS_ID_def STATUS_def SET_STATUS_def

lemma small_word_bits:
  fixes w :: "'a::len word"
  assumes "w < 2 ^ n" "n \<le> LENGTH('a)"
  shows "\<not> bit w i \<or> i < n"
  using assms
  by (metis bit_take_bit_iff less_mask_eq order_less_le take_bit_eq_mask word_2p_lem wsst_TYs(3))

lemma field_masks: "(0xff::32 word) = mask 8" "(0xf::32 word) = mask 4"
  by (simp_all add: mask_eq_exp_minus_1)

lemma op_code_small: "op_code op < 2 ^ 8"
  by (cases op) (simp_all add: word_less_def)

lemma ds_code_small: "ds_code ty < 2 ^ 4"
  by (cases ty) (simp_all add: word_less_def)

lemma op_code_inj: "op_code a = op_code b \<longleftrightarrow> a = b"
  by (cases a; cases b) simp_all

text \<open>The metadata word of a request.\<close>

definition request_meta :: "opname \<Rightarrow> dstype \<Rightarrow> 16 word \<Rightarrow> 32 word" where
  "request_meta op ty ds_id = SET_DS_ID (SET_TYPE_ID (SET_OP_ID 0 (op_code op)) (ds_code ty)) (ucast ds_id)"

lemma request_fields:
  "OP_ID (request_meta op ty d) = op_code op" "TYPE_ID (request_meta op ty d) = ds_code ty" "DS_ID (request_meta op ty d) = ucast d AND 0xff"
proof -
  have o: "i < 8" if "bit (op_code op) i" for i using small_word_bits[OF op_code_small, of op i] that by simp
  have t: "i < 4" if "bit (ds_code ty) i" for i using small_word_bits[OF ds_code_small, of ty i] that by simp
  note bits = bit_simps meta_simps request_meta_def field_masks
  show "OP_ID (request_meta op ty d) = op_code op"
    by (intro bit_word_eqI) (auto simp: bits dest: o)
  show "TYPE_ID (request_meta op ty d) = ds_code ty"
    by (intro bit_word_eqI) (auto simp: bits dest: o t)
  show "DS_ID (request_meta op ty d) = ucast d AND 0xff"
    by (intro bit_word_eqI) (auto simp: bits dest: o t)
qed

lemma response_status: "STATUS (SET_STATUS 0 st) = status_code st AND 0xf"
  by (cases st) (simp_all add: meta_simps)

end
