(* ===== verification/PmemEngine.thy ===== *)
theory PmemEngine
  imports PmemRpc BTreeMap "HOL-Library.List_Lexorder"
begin

text \<open>
  The B+ tree engine, pmemds/src/tree/btree.cc: keys are numbers of 64 bits that are stored as decimal
  strings, values are strings. A persistent string is a list of bytes, compared lexicographically as
  \<open>std::lexicographical_compare\<close> does (pmemds/include/tree/btree/pstring.h); an exception that nothing
  catches ends the process. The tree of the engine is the one of its memory pool.
\<close>

type_synonym pstr = "8 word list"
type_synonym pm_tree = "(pstr, pstr) b_tree"

subsection \<open>Strings\<close>

definition MAX_KEY_SIZE :: nat where
  "MAX_KEY_SIZE = 20"

definition MAX_VALUE_SIZE :: nat where
  "MAX_VALUE_SIZE = 200"

definition DEGREE :: nat where
  "DEGREE = 64"

text \<open>The constructor of \<open>pstring\<close>.\<close>

definition pstring_init :: "nat \<Rightarrow> pstr \<Rightarrow> pstr res" where
  "pstring_init capacity s = guarded (length s \<le> capacity) Uncaught_exception (Inr s)"

text \<open>\<open>std::to_string\<close> of an unsigned number.\<close>

fun digits :: "nat \<Rightarrow> nat list" where
  "digits n = (if n < 10 then [n] else digits (n div 10) @ [n mod 10])"

declare digits.simps [simp del]

definition to_string :: "64 word \<Rightarrow> pstr" where
  "to_string w = map (\<lambda>d. of_nat (48 + d)) (digits (unat w))"

definition undigits :: "nat list \<Rightarrow> nat" where
  "undigits ds = foldl (\<lambda>acc d. 10 * acc + d) 0 ds"

lemma undigits_digits: "undigits (digits n) = n"
  by (induction n rule: digits.induct) (subst digits.simps, auto simp: undigits_def)

lemma digits_range: "d \<in> set (digits n) \<Longrightarrow> d < 10"
proof (induction n rule: digits.induct)
  case (1 n)
  then show ?case by (cases "n < 10") (auto simp: digits.simps[of n])
qed

lemma digits_length: "n < 10 ^ Suc k \<Longrightarrow> length (digits n) \<le> Suc k"
proof (induction k arbitrary: n)
  case 0
  then show ?case by (simp add: digits.simps)
next
  case (Suc k)
  then have "n div 10 < 10 ^ Suc k" by (simp add: less_mult_imp_div_less)
  then show ?case using Suc.IH[of "n div 10"] by (subst digits.simps) simp
qed

lemma digit_bytes_inj: "inj_on (\<lambda>d. of_nat (48 + d) :: 8 word) {..<10}"
proof (rule inj_onI)
  fix a b :: nat
  assume *: "a \<in> {..<10}" "b \<in> {..<10}" "(of_nat (48 + a) :: 8 word) = of_nat (48 + b)"
  have "unat (of_nat (48 + d) :: 8 word) = 48 + d" if "d < 10" for d
    unfolding unat_of_nat using that by simp
  then have "48 + a = 48 + b" using * by (metis lessThan_iff)
  then show "a = b" by simp
qed

lemma to_string_inj: "to_string a = to_string b \<longleftrightarrow> a = b"
proof
  assume "to_string a = to_string b"
  moreover have "inj_on (\<lambda>d. of_nat (48 + d) :: 8 word) (set (digits (unat a)) \<union> set (digits (unat b)))"
    by (rule inj_on_subset[OF digit_bytes_inj]) (auto dest: digits_range)
  ultimately have "digits (unat a) = digits (unat b)" unfolding to_string_def by (simp add: inj_on_map_eq_map)
  then have "unat a = unat b" using undigits_digits by metis
  then show "a = b" by (simp add: word_unat_eq_iff)
qed simp

lemma to_string_length: "length (to_string w) \<le> MAX_KEY_SIZE"
proof -
  have "unat w < 2 ^ 64" using unsigned_less[of w] by simp
  then have "unat w < 10 ^ Suc 19" by simp
  from digits_length[OF this] show ?thesis by (simp add: to_string_def MAX_KEY_SIZE_def)
qed

subsection \<open>The operations of the engine\<close>

text \<open>An assignment to the value that an iterator points at.\<close>

definition it_assign :: "('k, 'v) b_tree \<Rightarrow> nat option \<times> nat \<Rightarrow> 'v \<Rightarrow> ('k, 'v) b_tree res" where
  "it_assign t it v =
     (case it of (p, pos) \<Rightarrow>
        andthen (get_leaf t p) (\<lambda>l.
        andthen (arr_get (le_idxs (leaf_consistent l)) (int pos)) (\<lambda>i.
        andthen (arr_get (lf_entries l) (int i)) (\<lambda>e.
          Inr (put_node p (LeafN (l\<lparr>lf_entries := (lf_entries l)[i := (fst e, v)]\<rparr>)) t)))))"

definition set_status :: "pm_status \<Rightarrow> pm_rpc \<Rightarrow> pm_rpc" where
  "set_status st resp = resp\<lparr>rpc_meta := SET_STATUS (rpc_meta resp) st\<rparr>"

definition be_exists :: "pm_tree \<Rightarrow> 64 word \<Rightarrow> pm_rpc \<Rightarrow> (pm_rpc \<times> pm_tree) res" where
  "be_exists t key resp =
     andthen (pstring_init 20 (to_string key)) (\<lambda>k.
     andthen (bt_find t k) (\<lambda>(it, t1).
     andthen (bt_end t1) (\<lambda>(e, t2).
       if it = e then Inr (set_status NOT_FOUND resp, t2) else Inr (set_status OK resp, t2))))"

definition be_get :: "pm_tree \<Rightarrow> 64 word \<Rightarrow> pm_rpc \<Rightarrow> (pm_rpc \<times> pm_tree) res" where
  "be_get t key resp =
     andthen (pstring_init MAX_KEY_SIZE (to_string key)) (\<lambda>k.
     andthen (bt_find t k) (\<lambda>(it, t1).
     andthen (bt_end t1) (\<lambda>(e, t2).
       if it = e then Inr (set_status NOT_FOUND resp, t2)
       else andthen (it_deref t2 it) (\<lambda>x.
         let resp1 = set_status OK resp in
         Inr (resp1\<lparr>rpc_value := snprintf_s (rpc_value resp1) (takeWhile (\<lambda>c. c \<noteq> 0) (snd x))\<rparr>, t2)))))"

definition be_put :: "pm_tree \<Rightarrow> 64 word \<Rightarrow> pstr \<Rightarrow> pm_rpc \<Rightarrow> (pm_rpc \<times> pm_tree) res" where
  "be_put t key val resp =
     andthen (pstring_init MAX_KEY_SIZE (to_string key)) (\<lambda>k.
     andthen (pstring_init MAX_VALUE_SIZE val) (\<lambda>v.
     andthen (bt_insert t (k, v)) (\<lambda>(it, new, t1).
     andthen (if \<not> new then andthen (pstring_init MAX_VALUE_SIZE val) (it_assign t1 it) else Inr t1) (\<lambda>t2.
       Inr (set_status OK resp, t2)))))"

definition be_remove :: "pm_tree \<Rightarrow> 64 word \<Rightarrow> pm_rpc \<Rightarrow> (pm_rpc \<times> pm_tree) res" where
  "be_remove t key resp =
     andthen (pstring_init MAX_KEY_SIZE (to_string key)) (\<lambda>k.
     andthen (bt_erase t k) (\<lambda>(result, t1).
       let resp1 = (if result = 1 then set_status OK resp else resp) in
       Inr (set_status NOT_FOUND resp1, t1)))"

definition be_exec :: "pm_tree \<Rightarrow> 32 word \<Rightarrow> pm_rpc \<Rightarrow> (pm_rpc \<times> pm_tree) res" where
  "be_exec t op_name req =
     (let resp = rpc_zero in
      if op_name = op_code GET then be_get t (rpc_key req) resp
      else if op_name = op_code PUT then
        andthen (c_str (rpc_value req)) (\<lambda>in_val. be_put t (rpc_key req) in_val resp)
      else Inr (set_status INVALID_OP resp, t))"

text \<open>\<open>Recover\<close>: the tree of a pool that already has one is repaired, a new pool gets an empty one.\<close>

definition be_recover :: "pm_tree option \<Rightarrow> pm_tree res" where
  "be_recover stored = (case stored of Some t \<Rightarrow> garbage_collection t | None \<Rightarrow> Inr (b_tree_new DEGREE ([], [])))"

subsection \<open>What the engine does to the map of its tree\<close>

lemma be_get_lookup:
  "be_get t key resp =
     andthen (pstring_init MAX_KEY_SIZE (to_string key)) (\<lambda>k.
     andthen (bt_lookup t k) (\<lambda>(r, t2).
       case r of None \<Rightarrow> Inr (set_status NOT_FOUND resp, t2)
       | Some v \<Rightarrow> Inr ((set_status OK resp)\<lparr>rpc_value := snprintf_s (rpc_value resp) (takeWhile (\<lambda>c. c \<noteq> 0) v)\<rparr>, t2)))"
  unfolding be_get_def bt_lookup_def
  by (auto simp: pstring_init_def guarded_def andthen_assoc set_status_def Let_def split_def if_distrib[where f = "\<lambda>m. andthen m _"] intro!: andthen_cong)

lemma leaf_assign:
  assumes "leaf_wf n l" "i < leaf_size l" "x = le_idxs (leaf_consistent l) ! i"
    and "l' = l\<lparr>lf_entries := (lf_entries l)[x := (fst (lf_entries l ! x), v)]\<rparr>"
  shows "leaf_list l' = (leaf_list l)[i := (fst (leaf_list l ! i), v)]" "leaf_wf n l'" "leaf_frame l l'" "x < n" "lf_entries l ! x = leaf_list l ! i"
proof -
  note wf = leaf_wfD[OF assms(1)]
  let ?u = "take (leaf_size l) (le_idxs (leaf_consistent l))"
  have i: "i < length ?u" "?u ! i = x" using assms(2,3) wf(3,4) by simp_all
  have "x \<in> set ?u" using nth_mem[OF i(1)] i(2) by simp
  then show x: "x < n" using wf(8) by auto
  have same: "leaf_size l' = leaf_size l" "leaf_consistent l' = leaf_consistent l" "leaf_working_copy l' = leaf_working_copy l"
    by (simp_all add: assms(4) leaf_size_def leaf_consistent_def leaf_working_copy_def)
  have ents: "lf_entries l' = (lf_entries l)[x := (fst (lf_entries l ! x), v)]" by (simp add: assms(4))
  show at: "lf_entries l ! x = leaf_list l ! i" using i by (simp add: leaf_list_def)
  show list: "leaf_list l' = (leaf_list l)[i := (fst (leaf_list l ! i), v)]"
  proof (rule nth_equalityI)
    fix j assume "j < length (leaf_list l')"
    then have j: "j < length ?u" by (simp add: leaf_list_def same)
    then have "?u ! j = x \<longleftrightarrow> j = i" using wf(9) i nth_eq_iff_index_eq by metis
    then show "leaf_list l' ! j = (leaf_list l)[i := (fst (leaf_list l ! i), v)] ! j"
      using j i x at wf(2) by (auto simp: leaf_list_def same ents nth_list_update)
  qed (simp add: leaf_list_def same)
  have "map fst (leaf_list l') = map fst (leaf_list l)"
    unfolding list using i(1) by (simp add: map_update list_update_same_conv leaf_list_def)
  then show "leaf_wf n l'" using assms(1) by (simp add: leaf_wf_def same ents) (simp add: assms(4))
  show "leaf_frame l l'" by (simp add: leaf_frame_def assms(4))
qed

lemma content_assign:
  assumes "bst n lo hi s" "bst n' lo' hi' s'" "sentries s = xs @ (k, w) # ys" "sentries s' = xs @ (k, v) # ys"
  shows "content s' = (content s)(k \<mapsto> v)"
proof (rule content_eqI[OF assms(2)])
  fix k' v'
  have "sorted_wrt (<) (map fst (sentries s))" by (rule bst_sorted[OF assms(1)])
  then have "(k, u) \<notin> set (xs @ ys)" for u unfolding assms(3) by (auto simp: sorted_wrt_append)
  then show "(k', v') \<in> set (sentries s') \<longleftrightarrow> ((content s)(k \<mapsto> v)) k' = Some v'"
    using content_iff[OF assms(1), of k' v'] unfolding assms(3,4) by auto
qed

lemma it_assign_tree:
  assumes ok: "tree_ok t s" "sub k (slevel s) s = SLeaf p es" "i < length es" "es ! i = (k, w)"
  shows "\<exists>t' s'. it_assign t (Some p, i) v = Inr t' \<and> tree_ok t' s' \<and> content s' = (content s)(k \<mapsto> v)"
proof -
  note ok' = tree_okD[OF ok(1)]
  obtain l where l: "bt_heap t p = Some (LeafN l)" "leaf_wf (bt_slots t) l" "leaf_list l = es"
    using repr_sub[OF ok'(3,2) order_refl, of k] ok(2) by auto
  note wf = leaf_wfD[OF l(2)]
  have i: "i < leaf_size l" using ok(3) wf(7) l(3) by simp
  define x l' where "x = le_idxs (leaf_consistent l) ! i" and "l' = l\<lparr>lf_entries := (lf_entries l)[x := (fst (lf_entries l ! x), v)]\<rparr>"
  note l' = leaf_assign[OF l(2) i x_def l'_def]
  let ?es = "es[i := (k, v)]"
  let ?t = "put_node (Some p) (LeafN l') t" and ?s = "repl k (slevel s) (SLeaf p ?es) s"
  have run: "it_assign t (Some p, i) v = Inr ?t"
    using l'(4) i wf(2-4) by (simp add: it_assign_def get_leafI[OF l(1)] x_def[symmetric] l'_def)
  have es': "leaf_list l' = ?es" using l'(1) l(3) ok(4) by simp
  have "fst ` set ?es \<subseteq> fst ` set es" using set_update_subset_insert[of es i "(k, v)"] nth_mem[OF ok(3)] ok(4) by force
  then have tree: "tree_ok ?t ?s" using l'(2,3) es' by (intro tree_leaf_update[OF ok(1,2) l(1)]) auto
  obtain xs ys where e: "sentries s = xs @ es @ ys" "sentries ?s = xs @ ?es @ ys"
    using repl_leaf_entries[OF ok'(2) ok(2)] by metis
  have "sentries s = (xs @ take i es) @ (k, w) # (drop (Suc i) es @ ys)" "sentries ?s = (xs @ take i es) @ (k, v) # (drop (Suc i) es @ ys)"
    unfolding e using id_take_nth_drop[OF ok(3)] ok(3,4) by (simp_all add: upd_conv_take_nth_drop)
  from content_assign[OF ok'(2) tree_okD(2)[OF tree] this] show ?thesis using run tree by blast
qed

text \<open>The map of an engine: what is stored under a number of 64 bits.\<close>

definition be_repr :: "pm_tree \<Rightarrow> (64 word \<rightharpoonup> pstr) \<Rightarrow> bool" where
  "be_repr t m \<longleftrightarrow> (\<exists>mt. bt_repr t mt \<and> (\<forall>key. m key = mt (to_string key)))"

lemma key_init [simp]: "pstring_init MAX_KEY_SIZE (to_string key) = Inr (to_string key)" "pstring_init 20 (to_string key) = Inr (to_string key)"
  using to_string_length[of key] by (simp_all add: pstring_init_def guarded_def MAX_KEY_SIZE_def)

lemma be_repr_upd:
  "bt_repr t (mt(to_string key := v)) \<Longrightarrow> \<forall>key. m key = mt (to_string key) \<Longrightarrow> be_repr t (m(key := v))"
  unfolding be_repr_def by (intro exI[of _ "mt(to_string key := v)"]) (auto simp: to_string_inj)

lemma be_get_ok:
  assumes "be_repr t m"
  shows "runs (be_get t key resp) (\<lambda>(r, t'). be_repr t' m \<and> r = (case m key of None \<Rightarrow> set_status NOT_FOUND resp
     | Some v \<Rightarrow> (set_status OK resp)\<lparr>rpc_value := snprintf_s (rpc_value resp) (takeWhile (\<lambda>c. c \<noteq> 0) v)\<rparr>))"
proof -
  obtain mt where mt: "bt_repr t mt" "\<forall>key. m key = mt (to_string key)" using assms by (auto simp: be_repr_def)
  obtain t' where "bt_lookup t (to_string key) = Inr (m key, t')" "bt_repr t' mt"
    using bt_lookup_ok[OF mt(1), of "to_string key"] mt(2) by (auto simp: runs_iff)
  then show ?thesis using mt(2) by (auto simp: be_get_lookup runs_iff be_repr_def split: option.splits)
qed

lemma be_put_ok:
  assumes "be_repr t m" "length val \<le> MAX_VALUE_SIZE"
  shows "runs (be_put t key val resp) (\<lambda>(r, t'). r = set_status OK resp \<and> be_repr t' (m(key \<mapsto> val)))"
proof -
  obtain mt where mt: "bt_repr t mt" "\<forall>key. m key = mt (to_string key)" using assms by (auto simp: be_repr_def)
  let ?k = "to_string key"
  have v: "pstring_init MAX_VALUE_SIZE val = Inr val" using assms(2) by (simp add: pstring_init_def guarded_def)
  obtain it new t1 where ins: "bt_insert t (?k, val) = Inr (it, new, t1)" "inserted (?k, val) mt (it, new, t1)"
    using bt_insert_inserted[OF mt(1), of "(?k, val)"] by (auto simp: runs_iff)
  show ?thesis
  proof (cases "mt ?k")
    case None
    then have "new" "bt_repr t1 (mt(?k \<mapsto> val))" using inserted_repr[OF ins(2)] by auto
    then show ?thesis using ins(1) v be_repr_upd[OF _ mt(2)] by (simp add: be_put_def runs_iff)
  next
    case (Some w)
    then have "\<not> new" using inserted_repr[OF ins(2)] by auto
    from ins(2) Some obtain s p es i where s: "tree_ok t1 s" "content s = mt" "sub ?k (slevel s) s = SLeaf p es" "it = (Some p, i)"
        "i < length es" "es ! i = (?k, w)"
      by (auto simp: inserted_def)
    obtain t2 s2 where "it_assign t1 it val = Inr t2" "tree_ok t2 s2" "content s2 = mt(?k \<mapsto> val)"
      using it_assign_tree[OF s(1,3,5,6), of val] s(2,4) by auto
    moreover from this have "bt_repr t2 (mt(?k \<mapsto> val))" by (auto simp: bt_repr_def)
    ultimately show ?thesis using ins(1) v \<open>\<not> new\<close> be_repr_upd[OF _ mt(2)] by (simp add: be_put_def runs_iff)
  qed
qed

lemma be_remove_ok:
  assumes "be_repr t m"
  shows "runs (be_remove t key resp) (\<lambda>(r, t'). STATUS (rpc_meta r) = STATUS (rpc_meta resp) OR 1 \<and> be_repr t' (m(key := None)))"
proof -
  obtain mt where mt: "bt_repr t mt" "\<forall>key. m key = mt (to_string key)" using assms by (auto simp: be_repr_def)
  have "STATUS (rpc_meta (set_status NOT_FOUND (if c then set_status OK resp else resp))) = STATUS (rpc_meta resp) OR 1" for c
    by (simp add: set_status_def meta_simps bit.conj_disj_distrib2)
  then show ?thesis using bt_erase_ok[OF mt(1), of "to_string key"] be_repr_upd[OF _ mt(2), of _ key None]
    by (auto simp: be_remove_def runs_iff Let_def)
qed

end
