(* ===== verification/PmemLib.thy ===== *)
theory PmemLib
  imports PmemEngine
begin

text \<open>
  The library that routes requests to data structures, pmemds/src/pmemds.cc, and the client of its B+ tree,
  pmemds/src/tree/btree-client.cc. A pool file is an inode with a directory entry, so that a file that is
  removed while its pool is open stays usable. Opening a pool that is open already fails with an
  exception, as libpmemobj does it. The engines whose containers come from libpmemobj (hash maps,
  priority queue, adjacency vector) are parameters: the record \<open>pm_ext\<close> holds their constructors and their
  \<open>exec\<close> functions. The transport between client and library is a parameter of the client operations; a
  call that fails leaves the response pointer of the client unset.
\<close>

subsection \<open>The library\<close>

datatype 'e pm_engine = BTreeEng nat | ExtEng 'e

record 'e pm_lib =
  lib_engines :: "(16 word \<times> 'e pm_engine) list option"
  lib_files :: "16 word \<rightharpoonup> nat"
  lib_pools :: "nat \<rightharpoonup> pm_tree"
  lib_busy :: "nat list"
  lib_inode :: nat

record 'e pm_ext =
  ext_make :: "32 word \<Rightarrow> 16 word \<Rightarrow> 'e"
  ext_exec :: "'e \<Rightarrow> 32 word \<Rightarrow> pm_rpc \<Rightarrow> (pm_rpc \<times> 'e) res"
  ext_topk :: "'e pm_lib \<Rightarrow> pm_rpc \<Rightarrow> (pm_rpc \<times> 'e pm_lib) res"

definition lib_map :: "'e pm_lib \<Rightarrow> (16 word \<times> 'e pm_engine) list res" where
  "lib_map lib = (case lib_engines lib of None \<Rightarrow> Inl Undefined_behaviour | Some em \<Rightarrow> Inr em)"

definition lib_open :: "'e pm_lib \<Rightarrow> int \<times> 'e pm_lib" where
  "lib_open lib = (0, lib\<lparr>lib_engines := Some []\<rparr>)"

text \<open>\<open>close\<close> erases from the map that it iterates over: after the first engine the iterator is invalid.\<close>

definition lib_close :: "'e pm_lib \<Rightarrow> (int \<times> 'e pm_lib) res" where
  "lib_close lib = andthen (lib_map lib) (\<lambda>em. guarded (em = []) Undefined_behaviour (Inr (0, lib)))"

text \<open>\<open>find_ds\<close> dereferences the end iterator when there is no such data structure.\<close>

definition find_ds :: "'e pm_lib \<Rightarrow> 16 word \<Rightarrow> 'e pm_engine res" where
  "find_ds lib d =
     andthen (lib_map lib) (\<lambda>em. case map_of em d of None \<Rightarrow> Inl Undefined_behaviour | Some e \<Rightarrow> Inr e)"

text \<open>The constructor of \<open>BTreeEngine\<close>: the pool is created or opened, and \<open>Recover\<close> runs on it.\<close>

definition btree_engine_new :: "'e pm_lib \<Rightarrow> 16 word \<Rightarrow> (nat \<times> 'e pm_lib) res" where
  "btree_engine_new lib d =
     (case lib_files lib d of
        None \<Rightarrow>
          andthen (be_recover None) (\<lambda>t.
          let ino = lib_inode lib in
          Inr (ino, lib\<lparr>lib_files := (lib_files lib)(d \<mapsto> ino), lib_pools := (lib_pools lib)(ino \<mapsto> t),
                        lib_busy := ino # lib_busy lib, lib_inode := ino + 1\<rparr>))
      | Some ino \<Rightarrow>
          guarded (ino \<notin> set (lib_busy lib)) Uncaught_exception
            (andthen (be_recover (lib_pools lib ino)) (\<lambda>t.
             Inr (ino, lib\<lparr>lib_pools := (lib_pools lib)(ino \<mapsto> t), lib_busy := ino # lib_busy lib\<rparr>))))"

text \<open>\<open>std::map::insert\<close> keeps an entry that is there already.\<close>

definition lib_add :: "16 word \<Rightarrow> 'e pm_engine \<Rightarrow> 'e pm_lib \<Rightarrow> 'e pm_lib res" where
  "lib_add d e lib =
     andthen (lib_map lib) (\<lambda>em. Inr (lib\<lparr>lib_engines := Some (if map_of em d = None then (d, e) # em else em)\<rparr>))"

definition create_ds :: "'e pm_ext \<Rightarrow> 32 word \<Rightarrow> 16 word \<Rightarrow> 'e pm_lib \<Rightarrow> (int \<times> 'e pm_lib) res" where
  "create_ds ext ds_type d lib =
     (if ds_type = ds_code SORTED_BTREE then
        andthen (btree_engine_new lib d) (\<lambda>(ino, lib1).
        andthen (lib_add d (BTreeEng ino) lib1) (\<lambda>lib2. Inr (0, lib2)))
      else if ds_type = ds_code VECTOR then Inr (- 1, lib)
      else if ds_type = ds_code CONCURRENT_HASHMAP \<or> ds_type = ds_code SHARDED_HASHMAP
        \<or> ds_type = ds_code SHARDED_PRIORITY_QUEUE \<or> ds_type = ds_code ADJACENCY_VECTOR then
        andthen (lib_add d (ExtEng (ext_make ext ds_type d)) lib) (\<lambda>lib1. Inr (0, lib1))
      else Inl (Exited (- 1)))"

definition close_ds :: "16 word \<Rightarrow> 'e pm_lib \<Rightarrow> (int \<times> 'e pm_lib) res" where
  "close_ds d lib =
     andthen (lib_map lib) (\<lambda>em.
       case map_of em d of
         None \<Rightarrow> Inr (- 1, lib)
       | Some e \<Rightarrow>
           Inr (0, lib\<lparr>lib_engines := Some (filter (\<lambda>x. fst x \<noteq> d) em),
                      lib_busy := (case e of BTreeEng ino \<Rightarrow> remove1 ino (lib_busy lib) | ExtEng _ \<Rightarrow> lib_busy lib)\<rparr>))"

definition remove_ds :: "16 word \<Rightarrow> 'e pm_lib \<Rightarrow> int \<times> 'e pm_lib" where
  "remove_ds d lib =
     (if lib_files lib d = None then (- 1, lib) else (0, lib\<lparr>lib_files := (lib_files lib)(d := None)\<rparr>))"

text \<open>An engine executes on the state it refers to.\<close>

definition engine_exec ::
  "'e pm_ext \<Rightarrow> 16 word \<Rightarrow> 'e pm_engine \<Rightarrow> 32 word \<Rightarrow> pm_rpc \<Rightarrow> 'e pm_lib \<Rightarrow> (pm_rpc \<times> 'e pm_lib) res" where
  "engine_exec ext d e op_id req lib =
     (case e of
        BTreeEng ino \<Rightarrow>
          (case lib_pools lib ino of
             None \<Rightarrow> Inl Undefined_behaviour
           | Some t \<Rightarrow>
               andthen (be_exec t op_id req) (\<lambda>(resp, t1). Inr (resp, lib\<lparr>lib_pools := (lib_pools lib)(ino \<mapsto> t1)\<rparr>)))
      | ExtEng x \<Rightarrow>
          andthen (ext_exec ext x op_id req) (\<lambda>(resp, x1).
          andthen (lib_map lib) (\<lambda>em. Inr (resp, lib\<lparr>lib_engines := Some ((d, ExtEng x1) # filter (\<lambda>x. fst x \<noteq> d) em)\<rparr>))))"

definition reply :: "int \<times> 'e pm_lib \<Rightarrow> pm_rpc \<times> 'e pm_lib" where
  "reply = (\<lambda>(ret, lib). (set_status (if ret = 0 then OK else FAILED) rpc_zero, lib))"

definition lib_exec :: "'e pm_ext \<Rightarrow> pm_rpc \<Rightarrow> 'e pm_lib \<Rightarrow> (pm_rpc \<times> 'e pm_lib) res" where
  "lib_exec ext req lib =
     (let ds_type = TYPE_ID (rpc_meta req); op_id = OP_ID (rpc_meta req); d = ucast (DS_ID (rpc_meta req)) in
      if op_id = op_code OPEN then Inr (reply (lib_open lib))
      else if op_id = op_code CLOSE then andthen (lib_close lib) (\<lambda>x. Inr (reply x))
      else if op_id = op_code CREATE_DS then andthen (create_ds ext ds_type d lib) (\<lambda>x. Inr (reply x))
      else if op_id = op_code CLOSE_DS then andthen (close_ds d lib) (\<lambda>x. Inr (reply x))
      else if op_id = op_code REMOVE_DS then Inr (reply (remove_ds d lib))
      else if op_id = op_code GET_TOPK then ext_topk ext lib req
      else andthen (find_ds lib d) (\<lambda>e. engine_exec ext d e op_id req lib))"

subsection \<open>The client of a B+ tree\<close>

type_synonym 'w send = "pm_rpc \<Rightarrow> 'w \<Rightarrow> (pm_rpc option \<times> 'w) res"

text \<open>A synchronous call and the read of the response it leaves.\<close>

definition call :: "'w send \<Rightarrow> pm_rpc \<Rightarrow> 'w \<Rightarrow> (pm_rpc \<times> 'w) res" where
  "call send payload w =
     andthen (send payload w) (\<lambda>(r, w1).
       case r of None \<Rightarrow> Inl Undefined_behaviour | Some resp \<Rightarrow> Inr (resp, w1))"

definition outcome :: "pm_rpc \<times> 'w \<Rightarrow> pm_status \<times> 'w" where
  "outcome = (\<lambda>(resp, w). (if STATUS (rpc_meta resp) \<noteq> status_code OK then FAILED else OK, w))"

definition cl_create :: "16 word \<Rightarrow> 'w send \<Rightarrow> 'w \<Rightarrow> (pm_status \<times> 'w) res" where
  "cl_create ds_id send w =
     (let meta1 = SET_OP_ID 0 (op_code CREATE_DS); meta2 = SET_TYPE_ID meta1 (ds_code SORTED_BTREE);
          meta3 = SET_DS_ID meta2 (ucast ds_id) in
      andthen (call send (rpc_zero\<lparr>rpc_meta := meta3\<rparr>) w) (\<lambda>x. Inr (outcome x)))"

definition cl_close :: "16 word \<Rightarrow> 'w send \<Rightarrow> 'w \<Rightarrow> (pm_status \<times> 'w) res" where
  "cl_close ds_id send w =
     (let meta1 = SET_OP_ID 0 (op_code CLOSE_DS); meta2 = SET_TYPE_ID meta1 (ds_code SORTED_BTREE);
          meta3 = SET_DS_ID meta2 (ucast ds_id) in
      andthen (call send (rpc_zero\<lparr>rpc_meta := meta3\<rparr>) w) (\<lambda>x. Inr (outcome x)))"

definition cl_remove_ds :: "16 word \<Rightarrow> 'w send \<Rightarrow> 'w \<Rightarrow> (pm_status \<times> 'w) res" where
  "cl_remove_ds ds_id send w =
     (let meta1 = SET_OP_ID 0 (op_code REMOVE_DS); meta2 = SET_TYPE_ID meta1 (ds_code SORTED_BTREE);
          meta3 = SET_DS_ID meta2 (ucast ds_id) in
      andthen (call send (rpc_zero\<lparr>rpc_meta := meta3\<rparr>) w) (\<lambda>x. Inr (outcome x)))"

text \<open>\<open>get\<close> builds its result from all 16 bytes of the value, and from a null pointer when the status is
  not \<open>OK\<close>.\<close>

definition cl_get :: "16 word \<Rightarrow> 64 word \<Rightarrow> 'w send \<Rightarrow> 'w \<Rightarrow> (pstr \<times> 'w) res" where
  "cl_get ds_id key send w =
     (let meta1 = SET_DS_ID 0 (ucast ds_id); meta2 = SET_OP_ID meta1 (op_code GET);
          meta3 = SET_TYPE_ID meta2 (ds_code SORTED_BTREE) in
      andthen (call send (rpc_zero\<lparr>rpc_meta := meta3, rpc_key := key\<rparr>) w) (\<lambda>(resp, w1).
        if STATUS (rpc_meta resp) \<noteq> status_code OK then Inl Undefined_behaviour
        else Inr (take MAX_VAL_LENGTH (rpc_value resp), w1)))"

definition cl_put :: "16 word \<Rightarrow> 64 word \<Rightarrow> pstr \<Rightarrow> 'w send \<Rightarrow> 'w \<Rightarrow> (pm_status \<times> 'w) res" where
  "cl_put ds_id key val send w =
     (let meta1 = SET_DS_ID 0 (ucast ds_id); meta2 = SET_OP_ID meta1 (op_code PUT);
          meta3 = SET_TYPE_ID meta2 (ds_code SORTED_BTREE);
          payload = rpc_zero\<lparr>rpc_meta := meta3, rpc_key := key\<rparr>;
          payload1 = payload\<lparr>rpc_value := snprintf_s (rpc_value payload) (takeWhile (\<lambda>c. c \<noteq> 0) val)\<rparr> in
      andthen (call send payload1 w) (\<lambda>x. Inr (outcome x)))"

definition cl_remove :: "16 word \<Rightarrow> 64 word \<Rightarrow> 'w send \<Rightarrow> 'w \<Rightarrow> (pm_status \<times> 'w) res" where
  "cl_remove ds_id key send w =
     (let meta1 = SET_DS_ID 0 (ucast ds_id); meta2 = SET_OP_ID meta1 (op_code DELETE);
          meta3 = SET_TYPE_ID meta2 (ds_code SORTED_BTREE) in
      andthen (call send (rpc_zero\<lparr>rpc_meta := meta3, rpc_key := key\<rparr>) w) (\<lambda>x. Inr (outcome x)))"

subsection \<open>Requests that reach a tree\<close>

text \<open>A transport that hands every request to the library and its response back.\<close>

definition direct :: "'e pm_ext \<Rightarrow> 'e pm_lib send" where
  "direct ext req lib = andthen (lib_exec ext req lib) (\<lambda>(resp, lib1). Inr (Some resp, lib1))"

definition lib_repr :: "16 word \<Rightarrow> 'e pm_lib \<Rightarrow> (64 word \<rightharpoonup> pstr) \<Rightarrow> bool" where
  "lib_repr d lib m \<longleftrightarrow> (\<exists>em ino t. lib_engines lib = Some em \<and> map_of em d = Some (BTreeEng ino)
     \<and> lib_pools lib ino = Some t \<and> be_repr t m \<and> lib_files lib d = Some ino \<and> distinct (lib_busy lib))"

lemma request_orders:
  "SET_TYPE_ID (SET_OP_ID (SET_DS_ID 0 (ucast d)) (op_code op)) (ds_code ty) = request_meta op ty d"
  "SET_DS_ID (SET_TYPE_ID (SET_OP_ID 0 (op_code op)) (ds_code ty)) (ucast d) = request_meta op ty d"
  by (simp_all add: request_meta_def meta_simps ac_simps)

lemma ds_id_small:
  assumes "d < 256"
  shows "ucast (DS_ID (request_meta op ty d)) = (d :: 16 word)"
proof -
  have "d < 2 ^ 8" using assms by simp
  then have bits: "i < 8" if "bit d i" for i using that
    by (metis bit_take_bit_iff less_mask_eq order_less_le take_bit_eq_mask word_2p_lem wsst_TYs(3))
  show ?thesis
    unfolding request_fields(3) field_masks by (intro bit_word_eqI) (auto simp: bit_simps dest: bits)
qed

lemma tree_request:
  assumes "lib_repr d lib m" "d < 256" "rpc_meta req = request_meta op SORTED_BTREE d" "op \<in> {GET, PUT, DELETE}"
    and run: "\<And>t. be_repr t m \<Longrightarrow> runs (be_exec t (op_code op) req) (\<lambda>(resp, t'). Q resp \<and> be_repr t' m')"
  shows "runs (call (direct ext) req lib) (\<lambda>(resp, lib'). Q resp \<and> lib_repr d lib' m')"
proof -
  obtain em ino t where lib: "lib_engines lib = Some em" "map_of em d = Some (BTreeEng ino)" "lib_pools lib ino = Some t" "be_repr t m"
      "lib_files lib d = Some ino" "distinct (lib_busy lib)"
    using assms(1) by (auto simp: lib_repr_def)
  obtain resp t' where t': "be_exec t (op_code op) req = Inr (resp, t')" "Q resp" "be_repr t' m'"
    using run[OF lib(4)] by (auto simp: runs_iff)
  have "lib_exec ext req lib = Inr (resp, lib\<lparr>lib_pools := (lib_pools lib)(ino \<mapsto> t')\<rparr>)"
    using assms(4) lib(1-3) t'(1)
    by (auto simp: lib_exec_def Let_def assms(3) request_fields(1) ds_id_small[OF assms(2)] op_code_inj find_ds_def lib_map_def engine_exec_def)
  then show ?thesis using lib t'(2,3) by (auto simp: call_def direct_def runs_iff lib_repr_def)
qed

subsection \<open>Strings on the wire\<close>

text \<open>What arrives of a string: its first 15 bytes before the first zero.\<close>

definition wire :: "pstr \<Rightarrow> pstr" where
  "wire s = take (MAX_VAL_LENGTH - 1) (takeWhile (\<lambda>c. c \<noteq> 0) s)"

definition padded :: "pstr \<Rightarrow> pstr" where
  "padded s = s @ replicate (MAX_VAL_LENGTH - length s) 0"

lemma wire_props: "length (wire s) < MAX_VAL_LENGTH" "0 \<notin> set (wire s)"
proof -
  show "length (wire s) < MAX_VAL_LENGTH" by (simp add: wire_def MAX_VAL_LENGTH_def)
  show "0 \<notin> set (wire s)" unfolding wire_def by (auto dest!: in_set_takeD set_takeWhileD)
qed

lemma takeWhile_nonzero [simp]: "0 \<notin> set s \<Longrightarrow> takeWhile (\<lambda>c. c \<noteq> 0) s = s"
  by (rule takeWhile_eq_all_conv[THEN iffD2]) auto

lemma wire_id: "length s < MAX_VAL_LENGTH \<Longrightarrow> 0 \<notin> set s \<Longrightarrow> wire s = s"
  by (simp add: wire_def)

lemma snprintf_zero:
  "snprintf_s (rpc_value rpc_zero) (takeWhile (\<lambda>c. c \<noteq> 0) s) = padded (wire s)"
proof -
  have "length (wire s) < MAX_VAL_LENGTH" by (rule wire_props)
  then have "[0] @ replicate (MAX_VAL_LENGTH - Suc (length (wire s))) 0 = replicate (MAX_VAL_LENGTH - length (wire s)) (0 :: 8 word)"
    by (metis Suc_diff_Suc append_Cons append_Nil replicate_Suc)
  then show ?thesis unfolding snprintf_s_def wire_def[symmetric] Let_def by (simp add: padded_def rpc_zero_def)
qed

lemma c_str_padded:
  assumes "length s < MAX_VAL_LENGTH" "0 \<notin> set s"
  shows "c_str (padded s) = Inr s"
proof -
  obtain z where "padded s = s @ 0 # z" using assms(1) by (metis padded_def Suc_diff_Suc replicate_Suc)
  then show ?thesis using assms(2) by (simp add: c_str_def guarded_def takeWhile_append)
qed

lemma length_padded: "length s < MAX_VAL_LENGTH \<Longrightarrow> length (padded s) = MAX_VAL_LENGTH"
  by (simp add: padded_def)

subsection \<open>The client operations\<close>

definition client_repr :: "16 word \<Rightarrow> 'e pm_lib \<Rightarrow> (64 word \<rightharpoonup> pstr) \<Rightarrow> bool" where
  "client_repr d lib m \<longleftrightarrow> d < 256 \<and> lib_repr d lib m
     \<and> (\<forall>k v. m k = Some v \<longrightarrow> length v < MAX_VAL_LENGTH \<and> 0 \<notin> set v)"

lemma status_ok: "STATUS (rpc_meta (set_status st rpc_zero)) = status_code OK \<longleftrightarrow> st = OK"
  by (cases st) (simp_all add: set_status_def rpc_zero_def meta_simps)

lemma cl_put_ok:
  assumes "client_repr d lib m"
  shows "runs (cl_put d key val (direct ext) lib) (\<lambda>(st, lib'). st = OK \<and> client_repr d lib' (m(key \<mapsto> wire val)))"
proof -
  define req where "req = rpc_zero\<lparr>rpc_meta := request_meta PUT SORTED_BTREE d, rpc_key := key, rpc_value := padded (wire val)\<rparr>"
  have len: "length (wire val) \<le> MAX_VALUE_SIZE"
    using wire_props(1)[of val] by (simp add: MAX_VAL_LENGTH_def MAX_VALUE_SIZE_def)
  have "runs (call (direct ext) req lib) (\<lambda>(resp, lib'). resp = set_status OK rpc_zero \<and> lib_repr d lib' (m(key \<mapsto> wire val)))"
  proof (rule tree_request[of _ _ m _ PUT])
    show "runs (be_exec t (op_code PUT) req) (\<lambda>(resp, t'). resp = set_status OK rpc_zero \<and> be_repr t' (m(key \<mapsto> wire val)))" if "be_repr t m" for t
      using be_put_ok[OF that len, of key rpc_zero] c_str_padded[OF wire_props, of val] by (simp add: be_exec_def req_def)
  qed (use assms in \<open>simp_all add: client_repr_def req_def\<close>)
  then show ?thesis
    unfolding cl_put_def Let_def request_orders using assms wire_props[of val] status_ok[of OK]
    by (auto simp: snprintf_zero req_def runs_iff outcome_def client_repr_def)
qed

lemma cl_get_ok:
  assumes "client_repr d lib m" "m key = Some v"
  shows "runs (cl_get d key (direct ext) lib) (\<lambda>(x, lib'). x = padded v \<and> client_repr d lib' m)"
proof -
  define req where "req = rpc_zero\<lparr>rpc_meta := request_meta GET SORTED_BTREE d, rpc_key := key\<rparr>"
  define good where "good = (set_status OK rpc_zero)\<lparr>rpc_value := padded v\<rparr>"
  have v: "length v < MAX_VAL_LENGTH" "0 \<notin> set v" using assms by (auto simp: client_repr_def)
  have snp: "snprintf_s (rpc_value rpc_zero) v = padded v" using snprintf_zero[of v] v wire_id[OF v] by simp
  have "runs (call (direct ext) req lib) (\<lambda>(resp, lib'). resp = good \<and> lib_repr d lib' m)"
  proof (rule tree_request[of _ _ m _ GET])
    show "runs (be_exec t (op_code GET) req) (\<lambda>(resp, t'). resp = good \<and> be_repr t' m)" if "be_repr t m" for t
      using be_get_ok[OF that, of key rpc_zero] assms(2) v(2) snp by (auto simp: be_exec_def req_def good_def runs_iff)
  qed (use assms in \<open>simp_all add: client_repr_def req_def\<close>)
  moreover have "STATUS (rpc_meta good) = status_code OK" using status_ok[of OK] by (simp add: good_def)
  ultimately show ?thesis
    unfolding cl_get_def Let_def request_orders using assms length_padded[OF v(1)]
    by (auto simp: req_def runs_iff client_repr_def good_def)
qed

lemma cl_get_absent_key:
  assumes "client_repr d lib m" "m key = None"
  shows "cl_get d key (direct ext) lib = Inl Undefined_behaviour"
proof -
  define req where "req = rpc_zero\<lparr>rpc_meta := request_meta GET SORTED_BTREE d, rpc_key := key\<rparr>"
  have "runs (call (direct ext) req lib) (\<lambda>(resp, lib'). resp = set_status NOT_FOUND rpc_zero \<and> lib_repr d lib' m)"
  proof (rule tree_request[of _ _ m _ GET])
    show "runs (be_exec t (op_code GET) req) (\<lambda>(resp, t'). resp = set_status NOT_FOUND rpc_zero \<and> be_repr t' m)" if "be_repr t m" for t
      using be_get_ok[OF that, of key rpc_zero] assms(2) by (auto simp: be_exec_def req_def runs_iff)
  qed (use assms in \<open>simp_all add: client_repr_def req_def\<close>)
  then show ?thesis
    unfolding cl_get_def Let_def request_orders using status_ok[of NOT_FOUND] by (auto simp: req_def runs_iff)
qed

lemma cl_remove_fails:
  assumes "client_repr d lib m"
  shows "runs (cl_remove d key (direct ext) lib) (\<lambda>(st, lib'). st = FAILED \<and> client_repr d lib' m)"
proof -
  define req where "req = rpc_zero\<lparr>rpc_meta := request_meta DELETE SORTED_BTREE d, rpc_key := key\<rparr>"
  have "runs (call (direct ext) req lib) (\<lambda>(resp, lib'). resp = set_status INVALID_OP rpc_zero \<and> lib_repr d lib' m)"
    using assms by (intro tree_request[of _ _ m _ DELETE]) (simp_all add: client_repr_def req_def be_exec_def)
  then show ?thesis
    unfolding cl_remove_def Let_def request_orders using assms status_ok[of INVALID_OP]
    by (auto simp: req_def runs_iff outcome_def client_repr_def)
qed

subsection \<open>Closing and reopening\<close>

lemma recover_repr:
  assumes "be_repr t m"
  shows "\<exists>t'. be_recover (Some t) = Inr t' \<and> be_repr t' m"
proof -
  obtain mt where mt: "bt_repr t mt" "\<forall>key. m key = mt (to_string key)" using assms by (auto simp: be_repr_def)
  have "bt_split_node t = None" using mt(1) by (auto simp: bt_repr_def tree_ok_def)
  then have "be_recover (Some t) = Inr (t\<lparr>bt_epoch := bt_epoch t + 1\<rparr>)" by (simp add: be_recover_def garbage_collection_def)
  moreover have "bt_repr (t\<lparr>bt_epoch := bt_epoch t + 1\<rparr>) mt" using mt(1) by (simp add: bt_repr_def tree_ok_def)
  ultimately show ?thesis using mt(2) by (auto simp: be_repr_def)
qed

lemma recover_new: "be_recover None = Inr (b_tree_new DEGREE ([], []))" "be_repr (b_tree_new DEGREE ([], [])) Map.empty"
proof -
  have "bt_repr (b_tree_new DEGREE ([], [])) (Map.empty :: pstr \<rightharpoonup> pstr)" by (simp add: bt_repr_def b_tree_new_def DEGREE_def)
  then show "be_repr (b_tree_new DEGREE ([], [])) Map.empty" by (auto simp: be_repr_def)
qed (simp add: be_recover_def)

lemma cl_reopen_ok:
  assumes "client_repr d lib m"
  shows "runs (andthen (cl_close d (direct ext) lib) (\<lambda>(st, lib1). cl_create d (direct ext) lib1)) (\<lambda>(st, lib'). st = OK \<and> client_repr d lib' m)"
proof -
  have d: "d < 256" and lib: "lib_repr d lib m" and m: "\<forall>k v. m k = Some v \<longrightarrow> length v < MAX_VAL_LENGTH \<and> 0 \<notin> set v"
    using assms by (auto simp: client_repr_def)
  obtain em ino t where e: "lib_engines lib = Some em" "map_of em d = Some (BTreeEng ino)" "lib_pools lib ino = Some t" "be_repr t m"
      "lib_files lib d = Some ino" "distinct (lib_busy lib)" using lib by (auto simp: lib_repr_def)
  obtain t' where t': "be_recover (Some t) = Inr t'" "be_repr t' m" using recover_repr[OF e(4)] by blast
  let ?em = "filter (\<lambda>x. fst x \<noteq> d) em"
  define lib1 where "lib1 = lib\<lparr>lib_engines := Some ?em, lib_busy := remove1 ino (lib_busy lib)\<rparr>"
  define lib2 where "lib2 = lib1\<lparr>lib_engines := Some ((d, BTreeEng ino) # ?em), lib_pools := (lib_pools lib)(ino \<mapsto> t'), lib_busy := ino # remove1 ino (lib_busy lib)\<rparr>"
  have gone: "map_of ?em d = None" "ino \<notin> set (remove1 ino (lib_busy lib))" using e(6) by (auto simp: map_of_eq_None_iff)
  have "cl_close d (direct ext) lib = Inr (OK, lib1)"
    unfolding cl_close_def Let_def request_orders using e status_ok[of OK] ds_id_small[OF d, of CLOSE_DS SORTED_BTREE]
    by (simp add: call_def direct_def lib_exec_def Let_def request_fields(1,2) close_ds_def lib_map_def reply_def outcome_def lib1_def)
  moreover have "cl_create d (direct ext) lib1 = Inr (OK, lib2)"
    unfolding cl_create_def Let_def request_orders
    using e t'(1) gone status_ok[of OK] ds_id_small[OF d, of CREATE_DS SORTED_BTREE]
    by (simp add: call_def direct_def lib_exec_def Let_def request_fields(1,2) create_ds_def btree_engine_new_def lib_add_def lib_map_def
        guarded_def reply_def outcome_def lib1_def lib2_def)
  moreover have "client_repr d lib2 m"
    using d m e t'(2) gone by (auto simp: client_repr_def lib_repr_def lib1_def lib2_def)
  ultimately show ?thesis by (simp add: runs_iff)
qed

subsection \<open>A store of values under keys\<close>

text \<open>What a client relies on: a value that has been stored under a key is fetched from there until another
  one is stored. \<open>norm\<close> is what storing and fetching do to a value.\<close>

locale kv_store =
  fixes rep :: "'s \<Rightarrow> ('k \<rightharpoonup> 'v) \<Rightarrow> bool"
    and store :: "'k \<Rightarrow> 'v \<Rightarrow> 's \<Rightarrow> 's res"
    and fetch :: "'k \<Rightarrow> 's \<Rightarrow> ('v \<times> 's) res"
    and norm :: "'v \<Rightarrow> 'v"
  assumes store_ok: "rep s m \<Longrightarrow> runs (store k v s) (\<lambda>s'. rep s' (m(k \<mapsto> norm v)))"
    and fetch_ok: "rep s m \<Longrightarrow> m k = Some v \<Longrightarrow> runs (fetch k s) (\<lambda>(x, s'). x = v \<and> rep s' m)"
begin

lemma stores_ok:
  assumes "rep s m"
  shows "runs (foldres (\<lambda>(k, v). store k v) kvs s) (\<lambda>s'. rep s' (m ++ map_of (rev (map (\<lambda>(k, v). (k, norm v)) kvs))))"
  using assms
proof (induction kvs arbitrary: s m)
  case (Cons kv kvs)
  obtain k v where kv: "kv = (k, v)" by (cases kv)
  obtain s' where s': "store k v s = Inr s'" "rep s' (m(k \<mapsto> norm v))" using store_ok[OF Cons.prems, of k v] by (auto simp: runs_iff)
  have eq: "m(k \<mapsto> norm v) ++ map_of (rev (map (\<lambda>(k, v). (k, norm v)) kvs)) = m ++ map_of (rev (map (\<lambda>(k, v). (k, norm v)) (kv # kvs)))"
    by (simp add: kv map_add_assoc[symmetric])
  have "foldres (\<lambda>(k, v). store k v) (kv # kvs) s = foldres (\<lambda>(k, v). store k v) kvs s'" using s'(1) by (simp add: kv)
  then show ?case unfolding eq[symmetric] using Cons.IH[OF s'(2)] by (simp only:)
qed simp

lemma last_store:
  assumes "rep s m" "map_of (rev kvs) k = Some v"
  shows "runs (andthen (foldres (\<lambda>(k, v). store k v) kvs s) (fetch k)) (\<lambda>(x, s'). x = norm v)"
proof -
  let ?m = "m ++ map_of (rev (map (\<lambda>(k, v). (k, norm v)) kvs))"
  obtain s1 where s1: "foldres (\<lambda>(k, v). store k v) kvs s = Inr s1" "rep s1 ?m" using stores_ok[OF assms(1), of kvs] by (auto simp: runs_iff)
  have "map_of (map (\<lambda>(k, v). (k, norm v)) (rev kvs)) k = Some (norm v)" using assms(2) by (simp add: map_of_map)
  then have "?m k = Some (norm v)" by (simp add: rev_map map_add_Some_iff)
  from fetch_ok[OF s1(2) this] show ?thesis using s1(1) by (auto simp: runs_iff)
qed

end

definition cl_store :: "16 word \<Rightarrow> 'w send \<Rightarrow> 64 word \<Rightarrow> pstr \<Rightarrow> 'w \<Rightarrow> 'w res" where
  "cl_store d send key val w = andthen (cl_put d key val send w) (\<lambda>(st, w1). guarded (st = OK) Assert_failed (Inr w1))"

definition cl_view :: "16 word \<Rightarrow> 'e pm_lib \<Rightarrow> (64 word \<rightharpoonup> pstr) \<Rightarrow> bool" where
  "cl_view d lib m \<longleftrightarrow> (\<exists>m'. client_repr d lib m' \<and> m = (\<lambda>k. map_option padded (m' k)))"

interpretation client: kv_store "cl_view d" "cl_store d (direct ext)" "\<lambda>key. cl_get d key (direct ext)" "\<lambda>v. padded (wire v)" for d ext
proof
  fix lib :: "'a pm_lib" and m key val
  assume "cl_view d lib m"
  then obtain m' where m': "client_repr d lib m'" "m = (\<lambda>k. map_option padded (m' k))" by (auto simp: cl_view_def)
  show "runs (cl_store d (direct ext) key val lib) (\<lambda>lib'. cl_view d lib' (m(key \<mapsto> padded (wire val))))"
    using cl_put_ok[OF m'(1), of key val ext] m'(2)
    by (auto simp: cl_store_def runs_iff guarded_def cl_view_def fun_eq_iff intro!: exI[of _ "m'(key \<mapsto> wire val)"])
  show "runs (cl_get d key (direct ext) lib) (\<lambda>(x, lib'). x = v \<and> cl_view d lib' m)" if "m key = Some v" for v
    using that m'(2) cl_get_ok[OF m'(1), of key _ ext] m'(2) by (force simp: cl_view_def runs_iff)
qed

end
