(* ===== verification/PmemClaims.thy ===== *)
theory PmemClaims
  imports PmemLib
begin

text \<open>
  Properties of the data-structure library as its clients see it: from the call of a client operation
  through the request, the routing and the engine to the tree and back.
\<close>

subsection \<open>Creating a tree\<close>

lemma create_new:
  assumes "d < 256" "lib_engines lib = Some em" "map_of em d = None" "lib_files lib d = None"
    and "distinct (lib_busy lib)" "\<forall>i\<in>set (lib_busy lib). i < lib_inode lib"
  shows "runs (cl_create d (direct ext) lib) (\<lambda>(st, lib'). st = OK \<and> client_repr d lib' Map.empty)"
proof -
  let ?ino = "lib_inode lib" and ?t = "b_tree_new DEGREE ([], []) :: pm_tree"
  let ?lib = "lib\<lparr>lib_engines := Some ((d, BTreeEng ?ino) # em), lib_files := (lib_files lib)(d \<mapsto> ?ino), lib_pools := (lib_pools lib)(?ino \<mapsto> ?t),
      lib_busy := ?ino # lib_busy lib, lib_inode := ?ino + 1\<rparr>"
  have "cl_create d (direct ext) lib = Inr (OK, ?lib)"
    unfolding cl_create_def Let_def request_orders
    using assms recover_new(1) status_ok[of OK] ds_id_small[OF assms(1), of CREATE_DS SORTED_BTREE]
    by (simp add: call_def direct_def lib_exec_def Let_def request_fields(1,2) create_ds_def btree_engine_new_def lib_add_def lib_map_def
        reply_def outcome_def)
  moreover have "client_repr d ?lib Map.empty"
    using assms recover_new(2) by (auto simp: client_repr_def lib_repr_def)
  ultimately show ?thesis by (simp add: runs_iff)
qed

definition no_ext :: "unit pm_ext" where
  "no_ext = \<lparr>ext_make = (\<lambda>_ _. ()), ext_exec = (\<lambda>_ _ _. Inl Undefined_behaviour), ext_topk = (\<lambda>_ _. Inl Undefined_behaviour)\<rparr>"

definition opened_lib :: "unit pm_lib" where
  "opened_lib = snd (lib_open \<lparr>lib_engines = None, lib_files = Map.empty, lib_pools = Map.empty, lib_busy = [], lib_inode = 0\<rparr>)"

lemma opened_create:
  "d < 256 \<Longrightarrow> runs (cl_create d (direct no_ext) opened_lib) (\<lambda>(st, lib'). st = OK \<and> client_repr d lib' Map.empty)"
  by (rule create_new[of d _ "[]"]) (simp_all add: opened_lib_def lib_open_def)

subsection \<open>Properties\<close>

text \<open>C8: what a client reads under a key is what was last stored there, whatever was stored under other keys
  before, in between or after: the last value of any sequence of puts, cut at its first zero byte and at
  15 bytes, and padded with zeros to 16 bytes. Requests and responses, the routing by data structure,
  the decimal keys, the overwriting of existing entries and the splits of the tree are all on the way.\<close>

theorem client_reads_last_put:
  assumes "client_repr d lib m" "map_of (rev kvs) k = Some v"
  shows "runs (andthen (foldres (\<lambda>(k, v). cl_store d (direct ext) k v) kvs lib) (cl_get d k (direct ext))) (\<lambda>(x, _). x = padded (wire v))"
proof -
  have "cl_view d lib (\<lambda>k. map_option padded (m k))" using assms(1) by (auto simp: cl_view_def)
  from client.last_store[OF this assms(2)] show ?thesis .
qed

theorem client_reads_last_put_witness:
  "runs (cl_create 3 (direct no_ext) opened_lib) (\<lambda>(st, lib).
     runs (andthen (foldres (\<lambda>(k, v). cl_store 3 (direct no_ext) k v) [(7, [65, 66]), (9, [70]), (7, [67])] lib) (cl_get 3 7 (direct no_ext)))
       (\<lambda>(x, _). x = [67, 0, 0, 0, 0, 0, 0, 0, 0, 0, 0, 0, 0, 0, 0, 0]))"
proof -
  have "(3 :: 16 word) < 256" by simp
  from opened_create[OF this] obtain lib where lib: "cl_create 3 (direct no_ext) opened_lib = Inr (OK, lib)" "client_repr 3 lib Map.empty"
    by (auto simp: runs_iff)
  have "padded (wire [67]) = [67, 0, 0, 0, 0, 0, 0, 0, 0, 0, 0, 0, 0, 0, 0, 0]" by code_simp
  then show ?thesis
    using client_reads_last_put[OF lib(2), of "[(7, [65, 66]), (9, [70]), (7, [67])]" 7 "[67]" no_ext] lib(1) by (simp add: runs_iff)
qed

text \<open>C31: closing a tree and creating it again opens the pool that is there and keeps its contents.\<close>

theorem reopen_keeps_contents:
  assumes "client_repr d lib m"
  shows "runs (andthen (cl_close d (direct ext) lib) (\<lambda>(st, lib1). cl_create d (direct ext) lib1)) (\<lambda>(st, lib'). st = OK \<and> client_repr d lib' m)"
  by (rule cl_reopen_ok[OF assms])

theorem reopen_keeps_contents_witness:
  "runs (cl_create 3 (direct no_ext) opened_lib) (\<lambda>(st, lib). runs (cl_put 3 7 [65, 66] (direct no_ext) lib) (\<lambda>(st, lib1).
     runs (andthen (cl_close 3 (direct no_ext) lib1) (\<lambda>(st, lib2). cl_create 3 (direct no_ext) lib2)) (\<lambda>(st, lib3).
       st = OK \<and> client_repr 3 lib3 [7 \<mapsto> [65, 66]])))"
proof -
  have "(3 :: 16 word) < 256" by simp
  from opened_create[OF this] obtain lib where lib: "cl_create 3 (direct no_ext) opened_lib = Inr (OK, lib)" "client_repr 3 lib Map.empty"
    by (auto simp: runs_iff)
  obtain lib1 where lib1: "cl_put 3 7 [65, 66] (direct no_ext) lib = Inr (OK, lib1)" "client_repr 3 lib1 [7 \<mapsto> wire [65, 66]]"
    using cl_put_ok[OF lib(2), of 7 "[65, 66]" no_ext] by (auto simp: runs_iff)
  have "wire [65, 66] = [65, 66]" by code_simp
  then show ?thesis using reopen_keeps_contents[OF lib1(2), of no_ext] lib(1) lib1(1) by (simp add: runs_iff)
qed

text \<open>C32: the fields that a client sets in the metadata word are the ones that the library reads, whatever
  the order in which they are set; of the 16-bit identifier of the data structure the low 8 bits
  arrive.\<close>

theorem request_roundtrip:
  "OP_ID (SET_TYPE_ID (SET_OP_ID (SET_DS_ID 0 (ucast d)) (op_code op)) (ds_code ty)) = op_code op
   \<and> TYPE_ID (SET_TYPE_ID (SET_OP_ID (SET_DS_ID 0 (ucast d)) (op_code op)) (ds_code ty)) = ds_code ty
   \<and> DS_ID (SET_TYPE_ID (SET_OP_ID (SET_DS_ID 0 (ucast d)) (op_code op)) (ds_code ty)) = take_bit 8 (ucast (d :: 16 word))
   \<and> SET_DS_ID (SET_TYPE_ID (SET_OP_ID 0 (op_code op)) (ds_code ty)) (ucast d) = SET_TYPE_ID (SET_OP_ID (SET_DS_ID 0 (ucast d)) (op_code op)) (ds_code ty)"
  unfolding request_orders request_fields by (simp add: field_masks take_bit_eq_mask)

text \<open>C33: every 64-bit key has a decimal string that fits the keys of the tree, and different keys have
  different strings.\<close>

theorem keys_fit:
  "pstring_init MAX_KEY_SIZE (to_string a) = Inr (to_string a) \<and> (to_string a = to_string b \<longleftrightarrow> a = b)"
  using to_string_length[of a] by (simp add: pstring_init_def guarded_def to_string_inj)

text \<open>C38: a client that asks for a key that is not stored builds a string from a null pointer.\<close>

theorem get_of_absent_key:
  assumes "client_repr d lib m" "m key = None"
  shows "cl_get d key (direct ext) lib = Inl Undefined_behaviour"
  by (rule cl_get_absent_key[OF assms])

theorem get_of_absent_key_witness:
  "runs (cl_create 3 (direct no_ext) opened_lib) (\<lambda>(st, lib). cl_get 3 7 (direct no_ext) lib = Inl Undefined_behaviour)"
proof -
  have "(3 :: 16 word) < 256" by simp
  from opened_create[OF this] obtain lib where lib: "cl_create 3 (direct no_ext) opened_lib = Inr (OK, lib)" "client_repr 3 lib Map.empty"
    by (auto simp: runs_iff)
  then show ?thesis using get_of_absent_key[OF lib(2), of 7 no_ext] by (simp add: runs_iff)
qed

text \<open>C39: a client cannot remove a key. The engine has no case for the operation that the client sends, so the
  call reports a failure and the key keeps its value.\<close>

theorem client_cannot_remove:
  assumes "client_repr d lib m"
  shows "runs (cl_remove d key (direct ext) lib) (\<lambda>(st, lib'). st = FAILED \<and> client_repr d lib' m)"
  by (rule cl_remove_fails[OF assms])

theorem client_cannot_remove_witness:
  "runs (cl_create 3 (direct no_ext) opened_lib) (\<lambda>(st, lib).
     runs (cl_remove 3 7 (direct no_ext) lib) (\<lambda>(st, lib'). st = FAILED \<and> client_repr 3 lib' Map.empty))"
proof -
  have "(3 :: 16 word) < 256" by simp
  from opened_create[OF this] obtain lib where lib: "cl_create 3 (direct no_ext) opened_lib = Inr (OK, lib)" "client_repr 3 lib Map.empty"
    by (auto simp: runs_iff)
  then show ?thesis using client_cannot_remove[OF lib(2), of 7 no_ext] by (auto simp: runs_iff)
qed

text \<open>The engine's own removal deletes the key and reports that it was not found, whether it was there or
  not: the status field is set twice, and setting it is a bitwise or.\<close>

lemma remove_reports_not_found:
  assumes "be_repr t m"
  shows "runs (be_remove t key rpc_zero) (\<lambda>(resp, t'). STATUS (rpc_meta resp) = status_code NOT_FOUND \<and> be_repr t' (m(key := None)))"
  using be_remove_ok[OF assms, of key rpc_zero] by (auto simp: runs_iff rpc_zero_def STATUS_def)

end
