(* ===== verification/PrioQueue.thy ===== *)
theory PrioQueue
  imports Prelude "HOL-Library.Multiset"
begin

text \<open>
  The priority queue of pmemds/include/priority_queue/volatile_priority_queue.hpp: the elements with the
  highest priorities in a min-heap of fixed size, the others in a max-heap, and a map from keys to
  positions. The vectors hold pointers to elements that only the queue owns. Every pointer is in one
  place when an element is written, so the model keeps the elements themselves. \<open>at\<close> throws outside the
  vector. Indices are natural numbers: they are bounded by the sizes of vectors in memory. Priorities are 64-bit
  words, and adding to or subtracting from them wraps. Messages to the log are left out.
\<close>

subsection \<open>The queue\<close>

record pqelem =
  pe_key :: "64 word"
  pe_prio :: "64 word"

datatype heap_type = MIN_HEAP | MAX_HEAP

definition NTOP_K :: nat where
  "NTOP_K = 8"

record pq =
  minheap_size :: nat
  min_elems :: "pqelem list"
  max_elems :: "pqelem list"
  keymap :: "64 word \<rightharpoonup> nat"

definition pq_new :: "nat \<Rightarrow> pq res" where
  "pq_new npartitions =
     guarded (npartitions \<noteq> 0) Undefined_behaviour
       (Inr \<lparr>minheap_size = NTOP_K div npartitions, min_elems = [], max_elems = [], keymap = Map.empty\<rparr>)"

definition right_child :: "nat \<Rightarrow> nat" where
  "right_child idx = 2 * idx + 1"

definition left_child :: "nat \<Rightarrow> nat" where
  "left_child idx = 2 * idx + 2"

definition parent_of :: "nat \<Rightarrow> nat" where
  "parent_of idx = idx div 2"

definition gtol :: "pq \<Rightarrow> nat \<Rightarrow> nat" where
  "gtol q idx = (if idx < minheap_size q then idx else idx - minheap_size q)"

definition mintog :: "nat \<Rightarrow> nat" where
  "mintog idx = idx"

definition maxtog :: "pq \<Rightarrow> nat \<Rightarrow> nat" where
  "maxtog q idx = idx + minheap_size q"

definition is_minheap :: "pq \<Rightarrow> nat \<Rightarrow> bool" where
  "is_minheap q global_idx \<longleftrightarrow> global_idx < minheap_size q"

definition vec_at :: "'a list \<Rightarrow> nat \<Rightarrow> 'a res" where
  "vec_at xs i = (if i < length xs then Inr (xs ! i) else Inl Uncaught_exception)"

primrec elems :: "heap_type \<Rightarrow> pq \<Rightarrow> pqelem list" where
  "elems MIN_HEAP q = min_elems q"
| "elems MAX_HEAP q = max_elems q"

primrec set_elems :: "heap_type \<Rightarrow> pqelem list \<Rightarrow> pq \<Rightarrow> pq" where
  "set_elems MIN_HEAP xs q = q\<lparr>min_elems := xs\<rparr>"
| "set_elems MAX_HEAP xs q = q\<lparr>max_elems := xs\<rparr>"

primrec tog :: "heap_type \<Rightarrow> pq \<Rightarrow> nat \<Rightarrow> nat" where
  "tog MIN_HEAP q idx = mintog idx"
| "tog MAX_HEAP q idx = maxtog q idx"

text \<open>The comparison that the loops of a heap make between two priorities.\<close>

primrec before :: "heap_type \<Rightarrow> 64 word \<Rightarrow> 64 word \<Rightarrow> bool" where
  "before MIN_HEAP a b \<longleftrightarrow> a < b"
| "before MAX_HEAP a b \<longleftrightarrow> a > b"

definition swap_pq :: "heap_type \<Rightarrow> nat \<Rightarrow> nat \<Rightarrow> pq \<Rightarrow> pq res" where
  "swap_pq h idx1 idx2 q =
     andthen (vec_at (elems h q) idx1) (\<lambda>elem1.
     andthen (vec_at (elems h q) idx2) (\<lambda>elem2.
       if keymap q (pe_key elem1) = None then Inr q
       else if keymap q (pe_key elem2) = None then Inr q
       else Inr (set_elems h ((elems h q)[idx1 := elem2, idx2 := elem1])
                  (q\<lparr>keymap := (keymap q)(pe_key elem1 \<mapsto> tog h q idx2, pe_key elem2 \<mapsto> tog h q idx1)\<rparr>))))"

text \<open>The loop that moves an element towards the root, the same in \<open>insert\<close>, \<open>increase_prio\<close> and
  \<open>decrease_prio\<close>.\<close>

function sift_up :: "heap_type \<Rightarrow> nat \<Rightarrow> pq \<Rightarrow> pq res" where
  "sift_up h l_idx q =
     (if l_idx = 0 then Inr q
      else
        andthen (vec_at (elems h q) l_idx) (\<lambda>e.
        andthen (vec_at (elems h q) (parent_of l_idx)) (\<lambda>p.
          if before h (pe_prio e) (pe_prio p)
          then andthen (swap_pq h l_idx (parent_of l_idx) q) (\<lambda>q1. sift_up h (parent_of l_idx) q1)
          else Inr q)))"
  by pat_completeness auto
termination
  by (relation "measure (\<lambda>(h, l, q). l)") (auto simp: parent_of_def)

text \<open>\<open>c\<close> if it is a position whose priority comes before that at \<open>m\<close>, else \<open>m\<close>.\<close>

definition pick :: "heap_type \<Rightarrow> pqelem list \<Rightarrow> nat \<Rightarrow> nat \<Rightarrow> nat res" where
  "pick h xs c m =
     (if c < length xs then
        andthen (vec_at xs c) (\<lambda>a. andthen (vec_at xs m) (\<lambda>b. Inr (if before h (pe_prio a) (pe_prio b) then c else m)))
      else Inr m)"

lemma elems_set [simp]:
  "elems h (set_elems h xs q) = xs" "minheap_size (set_elems h xs q) = minheap_size q" "keymap (set_elems h xs q) = keymap q"
  "elems h (q\<lparr>keymap := m\<rparr>) = elems h q"
  by (cases h; simp)+

lemma swap_length: "swap_pq h i j q = Inr q1 \<Longrightarrow> length (elems h q1) = length (elems h q)"
  by (auto simp: swap_pq_def andthen_Inr_iff split: if_splits)

lemma pick_cases:
  "pick h xs c m = Inr x \<Longrightarrow> x = m \<or> x = c \<and> c < length xs"
  by (auto simp: pick_def andthen_Inr_iff split: if_splits)

function heapify :: "heap_type \<Rightarrow> nat \<Rightarrow> pq \<Rightarrow> pq res" where
  "heapify h idx q =
     andthen (pick h (elems h q) (right_child idx) idx) (\<lambda>m1.
     andthen (pick h (elems h q) (left_child idx) m1) (\<lambda>m2.
       if m2 \<noteq> idx then andthen (swap_pq h m2 idx q) (\<lambda>q1. heapify h m2 q1) else Inr q))"
  by pat_completeness auto
termination
  by (relation "measure (\<lambda>(h, i, q). length (elems h q) - i)")
    (auto dest!: pick_cases swap_length simp: right_child_def left_child_def)

declare sift_up.simps [simp del] heapify.simps [simp del]

definition min_heapify :: "nat \<Rightarrow> pq \<Rightarrow> pq res" where
  "min_heapify idx q = heapify MIN_HEAP idx q"

definition max_heapify :: "nat \<Rightarrow> pq \<Rightarrow> pq res" where
  "max_heapify idx q = heapify MAX_HEAP idx q"

text \<open>\<open>unordered_map::insert\<close> keeps an entry that is there already.\<close>

definition map_insert :: "64 word \<Rightarrow> nat \<Rightarrow> pq \<Rightarrow> pq" where
  "map_insert key idx q = (if keymap q key = None then q\<lparr>keymap := (keymap q)(key \<mapsto> idx)\<rparr> else q)"

definition insert_pq :: "64 word \<Rightarrow> 64 word \<Rightarrow> pq \<Rightarrow> (int \<times> pq) res" where
  "insert_pq key priority q =
     (let pqelem = \<lparr>pe_key = key, pe_prio = priority\<rparr> in
      if length (min_elems q) < minheap_size q then
        let q1 = q\<lparr>min_elems := min_elems q @ [pqelem]\<rparr>;
            l_idx = length (min_elems q1) - 1;
            q2 = map_insert key (mintog l_idx) q1 in
        andthen (sift_up MIN_HEAP l_idx q2) (\<lambda>q3. Inr (0, q3))
      else
        andthen (vec_at (min_elems q) 0) (\<lambda>minimum.
        if pe_prio minimum > priority then
          let q1 = q\<lparr>max_elems := max_elems q @ [pqelem]\<rparr>;
              l_idx = length (max_elems q1) - 1;
              q2 = map_insert key (maxtog q1 l_idx) q1 in
          andthen (sift_up MAX_HEAP l_idx q2) (\<lambda>q3. Inr (0, q3))
        else
          let q1 = q\<lparr>max_elems := max_elems q @ [minimum]\<rparr>;
              l_idx = length (max_elems q1) - 1 in
          if keymap q1 (pe_key minimum) = None then Inr (- 1, q1)
          else
            andthen (sift_up MAX_HEAP l_idx (q1\<lparr>keymap := (keymap q1)(pe_key minimum \<mapsto> maxtog q1 l_idx)\<rparr>)) (\<lambda>q2.
            let q3 = map_insert key (mintog 0) q2 in
            andthen (min_heapify 0 (q3\<lparr>min_elems := (min_elems q3)[0 := pqelem]\<rparr>)) (\<lambda>q4. Inr (0, q4)))))"

text \<open>\<open>elems->at(l)->priority\<close> changed in place.\<close>

definition upd_prio :: "heap_type \<Rightarrow> nat \<Rightarrow> (64 word \<Rightarrow> 64 word) \<Rightarrow> pq \<Rightarrow> pq res" where
  "upd_prio h l f q =
     andthen (vec_at (elems h q) l) (\<lambda>e. Inr (set_elems h ((elems h q)[l := e\<lparr>pe_prio := f (pe_prio e)\<rparr>]) q))"

definition increase_prio :: "64 word \<Rightarrow> 64 word \<Rightarrow> pq \<Rightarrow> (int \<times> pq) res" where
  "increase_prio key delta_prio q =
     (case keymap q key of
        None \<Rightarrow> Inr (- 1, q)
      | Some g_idx \<Rightarrow>
          let l_idx = gtol q g_idx in
          if is_minheap q g_idx then
            andthen (upd_prio MIN_HEAP l_idx (\<lambda>p. p + delta_prio) q) (\<lambda>q1.
            andthen (min_heapify l_idx q1) (\<lambda>q2. Inr (0, q2)))
          else
            andthen (upd_prio MAX_HEAP l_idx (\<lambda>p. p + delta_prio) q) (\<lambda>q1.
            andthen (sift_up MAX_HEAP l_idx q1) (\<lambda>q2.
            andthen (vec_at (max_elems q2) 0) (\<lambda>temp.
            andthen (vec_at (min_elems q2) 0) (\<lambda>root.
              if pe_prio temp > pe_prio root then
                let q3 = q2\<lparr>max_elems := (max_elems q2)[0 := root]\<rparr> in
                if keymap q3 (pe_key root) = None then Inr (- 1, q3)
                else
                  let q4 = q3\<lparr>keymap := (keymap q3)(pe_key root \<mapsto> maxtog q3 0), min_elems := (min_elems q3)[0 := temp]\<rparr> in
                  if keymap q4 (pe_key temp) = None then Inr (- 1, q4)
                  else andthen (min_heapify 0 (q4\<lparr>keymap := (keymap q4)(pe_key temp \<mapsto> mintog 0)\<rparr>)) (\<lambda>q5. Inr (0, q5))
              else Inr (0, q2))))))"

definition decrease_prio :: "64 word \<Rightarrow> 64 word \<Rightarrow> pq \<Rightarrow> (int \<times> pq) res" where
  "decrease_prio key delta_prio q =
     (case keymap q key of
        None \<Rightarrow> Inr (- 1, q)
      | Some g_idx \<Rightarrow>
          let l_idx = gtol q g_idx in
          if \<not> is_minheap q g_idx then
            andthen (upd_prio MAX_HEAP l_idx (\<lambda>p. p - delta_prio) q) (\<lambda>q1.
            andthen (max_heapify l_idx q1) (\<lambda>q2. Inr (0, q2)))
          else
            andthen (upd_prio MIN_HEAP l_idx (\<lambda>p. p - delta_prio) q) (\<lambda>q1.
            andthen (sift_up MIN_HEAP l_idx q1) (\<lambda>q2.
            andthen (vec_at (min_elems q2) 0) (\<lambda>temp.
            andthen (vec_at (max_elems q2) 0) (\<lambda>root.
              if pe_prio temp < pe_prio root then
                let q3 = q2\<lparr>min_elems := (min_elems q2)[0 := root]\<rparr> in
                if keymap q3 (pe_key root) = None then Inr (- 1, q3)
                else
                  let q4 = q3\<lparr>keymap := (keymap q3)(pe_key root \<mapsto> mintog 0), max_elems := (max_elems q3)[0 := temp]\<rparr> in
                  if keymap q4 (pe_key temp) = None then Inr (- 1, q4)
                  else andthen (max_heapify 0 (q4\<lparr>keymap := (keymap q4)(pe_key temp \<mapsto> maxtog q4 0)\<rparr>)) (\<lambda>q5. Inr (0, q5))
              else Inr (0, q2))))))"

text \<open>The caller passes an array and receives the keys of the min-heap in it.\<close>

definition read_topK :: "64 word list \<Rightarrow> pq \<Rightarrow> (int \<times> 64 word list \<times> nat) res" where
  "read_topK array q =
     andthen (arr_blit array 0 (map pe_key (min_elems q))) (\<lambda>array1. Inr (0, array1, length (min_elems q)))"

subsection \<open>Moving elements inside a heap\<close>

text \<open>The same moves on a bare list.\<close>

definition exch :: "nat \<Rightarrow> nat \<Rightarrow> 'a list \<Rightarrow> 'a list" where
  "exch i j xs = xs[i := xs ! j, j := xs ! i]"

function up :: "heap_type \<Rightarrow> nat \<Rightarrow> pqelem list \<Rightarrow> pqelem list" where
  "up h l xs =
     (if l \<noteq> 0 \<and> before h (pe_prio (xs ! l)) (pe_prio (xs ! parent_of l)) then up h (parent_of l) (exch l (parent_of l) xs) else xs)"
  by pat_completeness auto
termination
  by (relation "measure (\<lambda>(h, l, xs). l)") (auto simp: parent_of_def)

definition better :: "heap_type \<Rightarrow> pqelem list \<Rightarrow> nat \<Rightarrow> nat \<Rightarrow> nat" where
  "better h xs c m = (if c < length xs \<and> before h (pe_prio (xs ! c)) (pe_prio (xs ! m)) then c else m)"

definition target :: "heap_type \<Rightarrow> pqelem list \<Rightarrow> nat \<Rightarrow> nat" where
  "target h xs i = better h xs (left_child i) (better h xs (right_child i) i)"

lemma exch_simps [simp]: "length (exch i j xs) = length xs" "i < length xs \<Longrightarrow> j < length xs \<Longrightarrow> mset (exch i j xs) = mset xs"
proof -
  show "length (exch i j xs) = length xs" by (simp add: exch_def)
  assume "i < length xs" "j < length xs"
  then show "mset (exch i j xs) = mset xs" unfolding exch_def by (metis mset_swap)
qed

lemma nth_exch:
  "i < length xs \<Longrightarrow> j < length xs \<Longrightarrow> k < length xs \<Longrightarrow> exch i j xs ! k = (if k = i then xs ! j else if k = j then xs ! i else xs ! k)"
  by (auto simp: exch_def nth_list_update)

lemma target_cases:
  "target h xs i = i \<or> target h xs i = left_child i \<and> left_child i < length xs \<or> target h xs i = right_child i \<and> right_child i < length xs"
  by (auto simp: target_def better_def)

function down :: "heap_type \<Rightarrow> nat \<Rightarrow> pqelem list \<Rightarrow> pqelem list" where
  "down h i xs = (if target h xs i \<noteq> i then down h (target h xs i) (exch (target h xs i) i xs) else xs)"
  by pat_completeness auto
termination
  by (relation "measure (\<lambda>(h, i, xs). length xs - i)") (use target_cases in \<open>fastforce simp: left_child_def right_child_def\<close>)+

declare up.simps [simp del] down.simps [simp del]

lemma parent_less: "l < n \<Longrightarrow> parent_of l < n"
  by (simp add: parent_of_def)

lemma up_mset: "l < length xs \<Longrightarrow> mset (up h l xs) = mset xs"
proof (induction h l xs rule: up.induct)
  case (1 h l xs)
  show ?case
  proof (cases "l \<noteq> 0 \<and> before h (pe_prio (xs ! l)) (pe_prio (xs ! parent_of l))")
    case True
    then show ?thesis using 1(1)[OF True] 1(2) parent_less[OF 1(2)] by (simp add: up.simps[of h l])
  qed (auto simp: up.simps[of h l])
qed

lemma down_mset: "i < length xs \<Longrightarrow> mset (down h i xs) = mset xs"
proof (induction h i xs rule: down.induct)
  case (1 h i xs)
  have "target h xs i < length xs" using target_cases[of h xs i] 1(2) by auto
  then show ?case using 1 by (subst down.simps) auto
qed

text \<open>The position map agrees with a heap.\<close>

definition slots :: "heap_type \<Rightarrow> pq \<Rightarrow> bool" where
  "slots h q \<longleftrightarrow> distinct (map pe_key (elems h q)) \<and> (\<forall>i<length (elems h q). keymap q (pe_key (elems h q ! i)) = Some (tog h q i))"

definition moved :: "heap_type \<Rightarrow> pq \<Rightarrow> pqelem list \<Rightarrow> pq \<Rightarrow> bool" where
  "moved h q xs q' \<longleftrightarrow> q' = set_elems h xs (q\<lparr>keymap := keymap q'\<rparr>) \<and> slots h q'
     \<and> (\<forall>k. k \<notin> pe_key ` set (elems h q) \<longrightarrow> keymap q' k = keymap q k)"

lemma moved_elems: "moved h q xs q' \<Longrightarrow> elems h q' = xs"
  unfolding moved_def by (metis elems_set(1))

lemma tog_set [simp]: "tog h (set_elems h' xs q) = tog h q" "tog h (q\<lparr>keymap := m\<rparr>) = tog h q"
  by (cases h; simp add: fun_eq_iff maxtog_def; cases h'; simp)+

lemma moved_refl: "slots h q \<Longrightarrow> moved h q (elems h q) q"
  by (cases h) (simp_all add: moved_def)

lemma moved_trans:
  assumes "moved h q xs q1" "moved h q1 ys q2" "set xs = set (elems h q)"
  shows "moved h q ys q2"
proof -
  have "elems h q1 = xs" by (rule moved_elems[OF assms(1)])
  moreover have "set_elems h ys (q1\<lparr>keymap := m\<rparr>) = set_elems h ys (q\<lparr>keymap := m\<rparr>)" for m
  proof -
    obtain m1 where "q1 = set_elems h xs (q\<lparr>keymap := m1\<rparr>)" using assms(1) unfolding moved_def by blast
    then show ?thesis by (cases h) simp_all
  qed
  ultimately show ?thesis using assms unfolding moved_def by metis
qed

lemma swap_ok:
  assumes "slots h q" "i < length (elems h q)" "j < length (elems h q)"
  shows "runs (swap_pq h i j q) (moved h q (exch i j (elems h q)))"
proof -
  let ?xs = "elems h q"
  let ?m = "(keymap q)(pe_key (?xs ! i) \<mapsto> tog h q j, pe_key (?xs ! j) \<mapsto> tog h q i)"
  let ?q = "set_elems h (exch i j ?xs) (q\<lparr>keymap := ?m\<rparr>)"
  have inj: "pe_key (?xs ! a) = pe_key (?xs ! b) \<longleftrightarrow> a = b" if "a < length ?xs" "b < length ?xs" for a b
    using assms(1) that by (auto simp: slots_def distinct_conv_nth)
  have run: "swap_pq h i j q = Inr ?q"
    using assms by (simp add: swap_pq_def vec_at_def slots_def exch_def)
  have "distinct (map pe_key (exch i j ?xs))"
    using assms inj by (auto simp: distinct_conv_nth nth_exch)
  moreover have "?m (pe_key (exch i j ?xs ! k)) = Some (tog h q k)" if "k < length ?xs" for k
    using that assms inj by (auto simp: nth_exch slots_def)
  ultimately have "slots h ?q" by (simp add: slots_def)
  then show ?thesis using assms(2,3) by (auto simp: run moved_def)
qed

lemma sift_up_moved:
  assumes "slots h q" "l < length (elems h q)"
  shows "runs (sift_up h l q) (moved h q (up h l (elems h q)))"
  using assms
proof (induction l arbitrary: q rule: less_induct)
  case (less l)
  let ?p = "parent_of l" and ?xs = "elems h q"
  show ?case
  proof (cases "l \<noteq> 0 \<and> before h (pe_prio (?xs ! l)) (pe_prio (?xs ! ?p))")
    case True
    then have p: "?p < l" "?p < length ?xs" using less.prems(2) by (auto simp: parent_of_def)
    obtain q1 where q1: "swap_pq h l ?p q = Inr q1" "moved h q (exch l ?p ?xs) q1"
      using swap_ok[OF less.prems p(2)] by (auto simp: runs_iff)
    have e: "elems h q1 = exch l ?p ?xs" by (rule moved_elems[OF q1(2)])
    have "slots h q1" using q1(2) by (simp add: moved_def)
    then obtain q2 where q2: "sift_up h ?p q1 = Inr q2" "moved h q1 (up h ?p (exch l ?p ?xs)) q2"
      using less.IH[OF p(1), of q1] p(2) by (auto simp: runs_iff e)
    have "set (exch l ?p ?xs) = set ?xs" using less.prems(2) p(2) by (metis exch_simps(2) set_mset_mset)
    from moved_trans[OF q1(2) q2(2) this] True less.prems(2) p(2) q1(1) q2(1) show ?thesis
      by (simp add: sift_up.simps[of h l] up.simps[of h l] vec_at_def)
  next
    case False
    then show ?thesis
      using less.prems parent_less[OF less.prems(2)] moved_refl[OF less.prems(1)]
      by (auto simp: sift_up.simps[of h l] up.simps[of h l] vec_at_def)
  qed
qed

lemma pick_better: "m < length xs \<Longrightarrow> pick h xs c m = Inr (better h xs c m)"
  by (simp add: pick_def better_def vec_at_def)

lemma better_less: "m < length xs \<Longrightarrow> better h xs c m < length xs"
  by (simp add: better_def)

lemma heapify_moved:
  assumes "slots h q" "i < length (elems h q)"
  shows "runs (heapify h i q) (moved h q (down h i (elems h q)))"
  using assms
proof (induction h i "elems h q" arbitrary: q rule: down.induct)
  case (1 h i)
  let ?xs = "elems h q" and ?t = "target h (elems h q) i"
  have unf: "heapify h i q = (if ?t \<noteq> i then andthen (swap_pq h ?t i q) (\<lambda>q1. heapify h ?t q1) else Inr q)"
    using 1(3) by (simp add: heapify.simps[of h i] pick_better better_less target_def)
  show ?case
  proof (cases "?t = i")
    case False
    have t: "?t < length ?xs" using target_cases[of h ?xs i] 1(3) by auto
    obtain q1 where q1: "swap_pq h ?t i q = Inr q1" "moved h q (exch ?t i ?xs) q1"
      using swap_ok[OF 1(2) t 1(3)] by (auto simp: runs_iff)
    have e: "elems h q1 = exch ?t i ?xs" by (rule moved_elems[OF q1(2)])
    have "slots h q1" using q1(2) by (simp add: moved_def)
    then obtain q2 where q2: "heapify h ?t q1 = Inr q2" "moved h q1 (down h ?t (exch ?t i ?xs)) q2"
      using 1(1)[OF False, of q1] e t by (auto simp: runs_iff)
    have "set (exch ?t i ?xs) = set ?xs" using 1(3) t by (metis exch_simps(2) set_mset_mset)
    from moved_trans[OF q1(2) q2(2) this] False q1(1) q2(1) show ?thesis
      by (simp add: unf down.simps[of h i])
  qed (use moved_refl[OF 1(2)] in \<open>simp add: unf down.simps[of h i]\<close>)
qed

subsection \<open>The queue as a map from keys to priorities\<close>

definition pq_ok :: "pq \<Rightarrow> bool" where
  "pq_ok q \<longleftrightarrow> 0 < minheap_size q \<and> length (min_elems q) \<le> minheap_size q
     \<and> (max_elems q \<noteq> [] \<longrightarrow> length (min_elems q) = minheap_size q)
     \<and> slots MIN_HEAP q \<and> slots MAX_HEAP q \<and> dom (keymap q) = pe_key ` (set (min_elems q) \<union> set (max_elems q))"

definition pq_repr :: "pq \<Rightarrow> (64 word \<rightharpoonup> 64 word) \<Rightarrow> bool" where
  "pq_repr q m \<longleftrightarrow> pq_ok q \<and> (\<forall>e. e \<in> set (min_elems q) \<union> set (max_elems q) \<longleftrightarrow> m (pe_key e) = Some (pe_prio e))"

lemma pq_ok_disjoint:
  assumes "pq_ok q" "e \<in> set (min_elems q)" "e' \<in> set (max_elems q)"
  shows "pe_key e \<noteq> pe_key e'"
proof
  assume "pe_key e = pe_key e'"
  moreover obtain i where i: "i < length (min_elems q)" "e = min_elems q ! i" using assms(2) by (auto simp: in_set_conv_nth)
  moreover obtain j where "j < length (max_elems q)" "e' = max_elems q ! j" using assms(3) by (auto simp: in_set_conv_nth)
  ultimately have "mintog i = maxtog q j" using assms(1) by (auto simp: pq_ok_def slots_def)
  then show False using i(1) assms(1) by (simp add: mintog_def maxtog_def pq_ok_def)
qed

lemma moved_ok:
  assumes "pq_repr q m" "moved h q xs q'" "mset xs = mset (elems h q)"
  shows "pq_repr q' m \<and> elems h q' = xs \<and> (\<forall>h'. h' \<noteq> h \<longrightarrow> elems h' q' = elems h' q) \<and> minheap_size q' = minheap_size q"
proof -
  obtain km where q': "q' = set_elems h xs (q\<lparr>keymap := km\<rparr>)" using assms(2) unfolding moved_def by blast
  have frame: "km k = keymap q k" if "k \<notin> pe_key ` set (elems h q)" for k using assms(2) that by (simp add: moved_def q')
  have set: "set xs = set (elems h q)" "length xs = length (elems h q)"
    using assms(3) by (metis set_mset_mset, metis size_mset)
  have ok: "pq_ok q" using assms(1) by (simp add: pq_repr_def)
  have sl: "slots h q'" using assms(2) by (simp add: moved_def)
  have eo: "elems h' q' = elems h' q" if "h' \<noteq> h" for h' using that by (cases h; cases h') (simp_all add: q')
  have other: "slots h' q'" if "h' \<noteq> h" for h'
  proof -
    have e: "elems h' q' = elems h' q" using eo that by simp
    have "km (pe_key x) = keymap q (pe_key x)" if x: "x \<in> set (elems h' q)" for x
      using x \<open>h' \<noteq> h\<close> pq_ok_disjoint[OF ok, of x] pq_ok_disjoint[OF ok, of _ x]
      by (intro frame) (cases h; cases h'; fastforce)
    moreover have "slots h' q" using ok by (cases h') (simp_all add: pq_ok_def)
    ultimately show ?thesis unfolding slots_def e by (simp add: q')
  qed
  have "dom km = dom (keymap q)"
  proof (intro set_eqI)
    fix k
    show "k \<in> dom km \<longleftrightarrow> k \<in> dom (keymap q)"
    proof (cases "k \<in> pe_key ` set (elems h q)")
      case True
      then obtain i where "i < length xs" "k = pe_key (xs ! i)" unfolding set(1)[symmetric] by (auto simp: in_set_conv_nth)
      then have "km k = Some (tog h q i)" using sl by (simp add: slots_def q')
      moreover have "k \<in> dom (keymap q)" using True ok by (cases h) (auto simp: pq_ok_def)
      ultimately show ?thesis by auto
    qed (simp add: frame domIff)
  qed
  then have "pq_ok q'" using ok sl other set unfolding pq_ok_def by (cases h) (auto simp: q')
  then have "pq_repr q' m" using assms(1) set unfolding pq_repr_def by (cases h) (auto simp: q')
  then show ?thesis using eo by (simp add: q')
qed

lemma sift_up_repr:
  assumes "pq_repr q m" "l < length (elems h q)"
  shows "runs (sift_up h l q) (\<lambda>q'. pq_repr q' m \<and> elems h q' = up h l (elems h q) \<and> (\<forall>h'. h' \<noteq> h \<longrightarrow> elems h' q' = elems h' q)
           \<and> minheap_size q' = minheap_size q)"
proof -
  have "slots h q" using assms(1) by (cases h) (simp_all add: pq_repr_def pq_ok_def)
  from sift_up_moved[OF this assms(2)] obtain q' where q': "sift_up h l q = Inr q'" "moved h q (up h l (elems h q)) q'" by (auto simp: runs_iff)
  show ?thesis unfolding q'(1) sat_simps by (rule moved_ok[OF assms(1) q'(2) up_mset[OF assms(2)]])
qed

lemma heapify_repr:
  assumes "pq_repr q m" "l < length (elems h q)"
  shows "runs (heapify h l q) (\<lambda>q'. pq_repr q' m \<and> elems h q' = down h l (elems h q) \<and> (\<forall>h'. h' \<noteq> h \<longrightarrow> elems h' q' = elems h' q)
           \<and> minheap_size q' = minheap_size q)"
proof -
  have "slots h q" using assms(1) by (cases h) (simp_all add: pq_repr_def pq_ok_def)
  from heapify_moved[OF this assms(2)] obtain q' where q': "heapify h l q = Inr q'" "moved h q (down h l (elems h q)) q'" by (auto simp: runs_iff)
  show ?thesis unfolding q'(1) sat_simps by (rule moved_ok[OF assms(1) q'(2) down_mset[OF assms(2)]])
qed

lemma key_in: "pq_repr q m \<Longrightarrow> keymap q k = None \<longleftrightarrow> m k = None"
proof -
  assume r: "pq_repr q m"
  have "k \<in> dom (keymap q) \<longleftrightarrow> k \<in> pe_key ` (set (min_elems q) \<union> set (max_elems q))" using r by (simp add: pq_repr_def pq_ok_def)
  also have "\<dots> \<longleftrightarrow> m k \<noteq> None"
  proof
    show "k \<in> pe_key ` (set (min_elems q) \<union> set (max_elems q)) \<Longrightarrow> m k \<noteq> None" using r by (auto simp: pq_repr_def)
    assume "m k \<noteq> None"
    then obtain p where "m (pe_key \<lparr>pe_key = k, pe_prio = p\<rparr>) = Some (pe_prio \<lparr>pe_key = k, pe_prio = p\<rparr>)" by auto
    then have "\<lparr>pe_key = k, pe_prio = p\<rparr> \<in> set (min_elems q) \<union> set (max_elems q)" using r unfolding pq_repr_def by blast
    then show "k \<in> pe_key ` (set (min_elems q) \<union> set (max_elems q))" by force
  qed
  finally show ?thesis by (auto simp: domIff)
qed

lemma locate:
  assumes "pq_repr q m" "keymap q k = Some g"
  obtains h i where "i < length (elems h q)" "pe_key (elems h q ! i) = k" "m k = Some (pe_prio (elems h q ! i))"
    "is_minheap q g \<longleftrightarrow> h = MIN_HEAP" "gtol q g = i"
proof -
  have ok: "pq_ok q" using assms(1) by (simp add: pq_repr_def)
  then have "k \<in> pe_key ` (set (min_elems q) \<union> set (max_elems q))" using assms(2) by (auto simp: pq_ok_def)
  then obtain e where "e \<in> set (elems MIN_HEAP q) \<or> e \<in> set (elems MAX_HEAP q)" "k = pe_key e" by auto
  then obtain h where e: "e \<in> set (elems h q)" "k = pe_key e" by blast
  then obtain i where i: "i < length (elems h q)" "e = elems h q ! i" by (auto simp: in_set_conv_nth)
  have "slots h q" using ok by (cases h) (simp_all add: pq_ok_def)
  then have g: "g = tog h q i" using i e(2) assms(2) by (simp add: slots_def)
  have "m k = Some (pe_prio e)" using assms(1) e by (cases h) (auto simp: pq_repr_def)
  moreover have "is_minheap q g \<longleftrightarrow> h = MIN_HEAP" "gtol q g = i"
    using g i(1) ok by (cases h; simp add: is_minheap_def gtol_def mintog_def maxtog_def pq_ok_def)+
  ultimately show ?thesis using that[OF i(1)] e(2) i(2) by simp
qed

end
