(* ===== verification/PrioOps.thy ===== *)
theory PrioOps
  imports PrioQueue
begin

text \<open>
  What the operations of the priority queue do to its two heaps and to the map from keys to priorities
  that it stands for.
\<close>

subsection \<open>Insertion\<close>

text \<open>The operations on the pair of heaps, without the map of positions.\<close>

abbreviation heaps :: "pq \<Rightarrow> pqelem list \<times> pqelem list" where
  "heaps q \<equiv> (min_elems q, max_elems q)"

definition put_heaps :: "nat \<Rightarrow> pqelem \<Rightarrow> pqelem list \<times> pqelem list \<Rightarrow> pqelem list \<times> pqelem list" where
  "put_heaps n e = (\<lambda>(a, b).
     if length a < n then (up MIN_HEAP (length a) (a @ [e]), b)
     else if pe_prio e < pe_prio (a ! 0) then (a, up MAX_HEAP (length b) (b @ [e]))
     else (down MIN_HEAP 0 (a[0 := e]), up MAX_HEAP (length b) (b @ [a ! 0])))"

lemma slots_push:
  assumes "slots h q" "pe_key e \<notin> pe_key ` set (elems h q)" "elems h q' = elems h q @ [e]" "tog h q' = tog h q"
    "\<forall>k. k \<in> pe_key ` set (elems h q) \<longrightarrow> keymap q' k = keymap q k" "keymap q' (pe_key e) = Some (tog h q (length (elems h q)))"
  shows "slots h q'"
  using assms by (auto simp: slots_def nth_append less_Suc_eq)

lemma slots_cong:
  assumes "slots h q" "elems h q' = elems h q" "tog h q' = tog h q" "\<forall>k. k \<in> pe_key ` set (elems h q) \<longrightarrow> keymap q' k = keymap q k"
  shows "slots h q'"
  using assms by (auto simp: slots_def)

lemma fresh_key:
  assumes "pq_repr q m" "m k = None"
  shows "keymap q k = None" "k \<notin> pe_key ` set (min_elems q)" "k \<notin> pe_key ` set (max_elems q)"
proof -
  show k: "keymap q k = None" using assms key_in by simp
  have "k \<notin> dom (keymap q)" using k by (simp add: domIff)
  then show "k \<notin> pe_key ` set (min_elems q)" "k \<notin> pe_key ` set (max_elems q)"
    using assms(1) by (auto simp: pq_repr_def pq_ok_def)
qed

lemma tog_simps [simp]:
  "tog h (q\<lparr>min_elems := xs\<rparr>) = tog h q" "tog h (q\<lparr>max_elems := xs\<rparr>) = tog h q"
  by (cases h; simp add: fun_eq_iff maxtog_def)+

lemma pq_ok_apart:
  assumes "pq_ok q" "e \<in> set (min_elems q)"
  shows "pe_key e \<notin> pe_key ` set (max_elems q)"
proof
  assume "pe_key e \<in> pe_key ` set (max_elems q)"
  then obtain x where "x \<in> set (max_elems q)" "pe_key e = pe_key x" by blast
  then show False using pq_ok_disjoint[OF assms, of x] by simp
qed

lemma all_heap_type: "(\<forall>h. P h) \<longleftrightarrow> P MIN_HEAP \<and> P MAX_HEAP"
  by (metis heap_type.exhaust)

lemma repr_add:
  assumes "e \<in> S \<longleftrightarrow> m (pe_key e) = Some (pe_prio e)" "m k = None"
  shows "e \<in> insert \<lparr>pe_key = k, pe_prio = p\<rparr> S \<longleftrightarrow> (m(k \<mapsto> p)) (pe_key e) = Some (pe_prio e)"
  using assms by (cases e) auto

lemma pq_repr_parts:
  assumes "pq_repr q m"
  shows "slots MIN_HEAP q" "slots MAX_HEAP q" "dom (keymap q) = pe_key ` (set (min_elems q) \<union> set (max_elems q))"
    "0 < minheap_size q" "length (min_elems q) \<le> minheap_size q"
    "e \<in> set (min_elems q) \<union> set (max_elems q) \<longleftrightarrow> m (pe_key e) = Some (pe_prio e)"
  using assms unfolding pq_repr_def pq_ok_def by blast+

lemma push_min:
  assumes "pq_repr q m" "m k = None" "length (min_elems q) < minheap_size q"
  shows "pq_repr (q\<lparr>min_elems := min_elems q @ [\<lparr>pe_key = k, pe_prio = p\<rparr>], keymap := (keymap q)(k \<mapsto> mintog (length (min_elems q)))\<rparr>) (m(k \<mapsto> p))"
    (is "pq_repr ?q _")
proof -
  note fresh = fresh_key[OF assms(1,2)] and parts = pq_repr_parts[OF assms(1)]
  have upd: "\<forall>x. x \<in> pe_key ` set (elems h q) \<longrightarrow> keymap ?q x = keymap q x" for h
    using fresh by (cases h) auto
  have "slots MIN_HEAP ?q"
    using fresh by (intro slots_push[OF parts(1) _ _ _ upd, of "\<lparr>pe_key = k, pe_prio = p\<rparr>"]) simp_all
  moreover have "slots MAX_HEAP ?q"
    by (rule slots_cong[OF parts(2) _ _ upd]) simp_all
  moreover have "max_elems q = []" if "length (min_elems q) < minheap_size q"
    using assms(1) that by (auto simp: pq_repr_def pq_ok_def)
  ultimately have "pq_ok ?q" using parts(3-5) assms(3) by (simp add: pq_ok_def)
  moreover have "e \<in> set (min_elems ?q) \<union> set (max_elems ?q) \<longleftrightarrow> (m(k \<mapsto> p)) (pe_key e) = Some (pe_prio e)" for e
    using repr_add[OF parts(6)[of e] assms(2), of p] by simp
  ultimately show ?thesis unfolding pq_repr_def by blast
qed

lemma push_max:
  assumes "pq_repr q m" "m k = None" "length (min_elems q) = minheap_size q"
  shows "pq_repr (q\<lparr>max_elems := max_elems q @ [\<lparr>pe_key = k, pe_prio = p\<rparr>], keymap := (keymap q)(k \<mapsto> maxtog q (length (max_elems q)))\<rparr>) (m(k \<mapsto> p))"
    (is "pq_repr ?q _")
proof -
  note fresh = fresh_key[OF assms(1,2)] and parts = pq_repr_parts[OF assms(1)]
  have upd: "\<forall>x. x \<in> pe_key ` set (elems h q) \<longrightarrow> keymap ?q x = keymap q x" for h
    using fresh by (cases h) auto
  have "slots MAX_HEAP ?q"
    using fresh by (intro slots_push[OF parts(2) _ _ _ upd, of "\<lparr>pe_key = k, pe_prio = p\<rparr>"]) simp_all
  moreover have "slots MIN_HEAP ?q"
    by (rule slots_cong[OF parts(1) _ _ upd]) simp_all
  moreover have "max_elems q = []" if "length (min_elems q) < minheap_size q"
    using assms(1) that by (auto simp: pq_repr_def pq_ok_def)
  ultimately have "pq_ok ?q" using parts(3-5) assms(3) by (simp add: pq_ok_def)
  moreover have "e \<in> set (min_elems ?q) \<union> set (max_elems ?q) \<longleftrightarrow> (m(k \<mapsto> p)) (pe_key e) = Some (pe_prio e)" for e
    using repr_add[OF parts(6)[of e] assms(2), of p] by simp
  ultimately show ?thesis unfolding pq_repr_def by blast
qed

text \<open>A full min-heap gives its root to the max-heap: while the root is in both, only the slots of the max-heap
  are in order.\<close>

lemma replace_root:
  assumes "pq_repr q m" "m k = None" "length (min_elems q) = minheap_size q"
    and "root = min_elems q ! 0" "e = \<lparr>pe_key = k, pe_prio = p\<rparr>"
    and "q1 = q\<lparr>max_elems := max_elems q @ [root], keymap := (keymap q)(pe_key root \<mapsto> maxtog q (length (max_elems q)))\<rparr>"
  shows "runs (sift_up MAX_HEAP (length (max_elems q)) q1) (\<lambda>q2. keymap q2 k = None \<and> minheap_size q2 = minheap_size q
           \<and> (let q3 = q2\<lparr>keymap := (keymap q2)(k \<mapsto> mintog 0), min_elems := (min_elems q2)[0 := e]\<rparr> in
              pq_repr q3 (m(k \<mapsto> p)) \<and> min_elems q3 = (min_elems q)[0 := e]
              \<and> max_elems q3 = up MAX_HEAP (length (max_elems q)) (max_elems q @ [root])))"
proof -
  let ?bs = "up MAX_HEAP (length (max_elems q)) (max_elems q @ [root])"
  have ok: "pq_ok q" using assms(1) by (simp add: pq_repr_def)
  note fresh = fresh_key[OF assms(1,2)]
  obtain as where as: "min_elems q = root # as" using ok assms(3,4) by (cases "min_elems q") (auto simp: pq_ok_def)
  have dis: "pe_key root \<notin> pe_key ` set (max_elems q)" using pq_ok_apart[OF ok, of root] as by simp
  note parts = pq_repr_parts[OF assms(1)]
  have sl1: "slots MAX_HEAP q1"
    using dis by (intro slots_push[OF parts(2), of root]) (auto simp: assms(6))
  obtain q2 where q2: "sift_up MAX_HEAP (length (max_elems q)) q1 = Inr q2" "moved MAX_HEAP q1 ?bs q2"
    using sift_up_moved[OF sl1, of "length (max_elems q)"] by (auto simp: runs_iff assms(6))
  obtain km where eq2: "q2 = q1\<lparr>keymap := km, max_elems := ?bs\<rparr>" using q2(2) unfolding moved_def set_elems.simps by blast
  have sl2: "slots MAX_HEAP q2" using q2(2) by (simp add: moved_def)
  have keys: "set ?bs = insert root (set (max_elems q))" using up_mset[of "length (max_elems q)" "max_elems q @ [root]" MAX_HEAP]
    
    by (metis (no_types, lifting) append_Nil2 length_append_singleton lessI rotate1.simps(2) set_mset_mset set_rotate1 list.simps(15))
  have frame: "km x = keymap q x" if "x \<noteq> pe_key root" "x \<notin> pe_key ` set (max_elems q)" for x
    using q2(2) that unfolding moved_def by (auto simp: eq2 assms(6))
  have km_k: "km k = None" using frame[of k] fresh as by auto
  let ?q3 = "q2\<lparr>keymap := (keymap q2)(k \<mapsto> mintog 0), min_elems := (min_elems q2)[0 := e]\<rparr>"
  have max3: "slots MAX_HEAP ?q3"
    using keys fresh as by (intro slots_cong[OF sl2]) (auto simp: eq2 assms(6))
  note mins = parts(1)
  have min3: "slots MIN_HEAP ?q3"
    unfolding slots_def
  proof (intro conjI allI impI)
    show "distinct (map pe_key (elems MIN_HEAP ?q3))"
      using mins fresh(2) as by (simp add: eq2 assms(5,6) slots_def)
    fix i
    assume "i < length (elems MIN_HEAP ?q3)"
    then have i: "i < Suc (length as)" by (simp add: eq2 assms(6) as)
    show "keymap ?q3 (pe_key (elems MIN_HEAP ?q3 ! i)) = Some (tog MIN_HEAP ?q3 i)"
    proof (cases i)
      case 0
      then show ?thesis by (simp add: eq2 assms(5,6) as)
    next
      case (Suc j)
      then have x: "as ! j \<in> set (min_elems q)" using i as by simp
      have "pe_key (as ! j) \<noteq> pe_key root" using mins as i Suc by (auto simp: slots_def) (metis imageI nth_mem)
      moreover have "pe_key (as ! j) \<notin> pe_key ` set (max_elems q)" by (rule pq_ok_apart[OF ok x])
      moreover have "pe_key (as ! j) \<noteq> k" using fresh(2) x by auto
      moreover have "keymap q (pe_key ((root # as) ! i)) = Some (mintog i)" using mins i unfolding slots_def by (simp add: as)
      ultimately show ?thesis using frame[of "pe_key (as ! j)"] Suc by (simp add: eq2 assms(6) as)
    qed
  qed
  have dom: "dom (keymap ?q3) = pe_key ` (set (min_elems ?q3) \<union> set (max_elems ?q3))"
  proof -
    have "dom km = dom (keymap q)"
    proof (intro set_eqI)
      fix x
      show "x \<in> dom km \<longleftrightarrow> x \<in> dom (keymap q)"
      proof (cases "x \<in> pe_key ` set ?bs")
        case True
        then obtain i where "i < length ?bs" "x = pe_key (?bs ! i)" by (metis (no_types, lifting) imageE in_set_conv_nth)
        then have "km x \<noteq> None" using sl2 by (simp add: slots_def eq2)
        moreover have "x \<in> dom (keymap q)" using ok True keys as by (auto simp: pq_ok_def)
        ultimately show ?thesis by auto
      qed (use keys frame in \<open>auto simp: domIff\<close>)
    qed
    then show ?thesis using ok keys as by (auto simp: pq_ok_def eq2 assms(5,6))
  qed
  have "pq_ok ?q3" using max3 min3 dom ok assms(3) by (simp add: pq_ok_def eq2 assms(6))
  moreover have "x \<in> set (min_elems ?q3) \<union> set (max_elems ?q3) \<longleftrightarrow> (m(k \<mapsto> p)) (pe_key x) = Some (pe_prio x)" for x
    using parts(6)[of x] keys as assms(2) by (cases x) (auto simp: eq2 assms(5,6))
  ultimately have "pq_repr ?q3 (m(k \<mapsto> p))" by (simp add: pq_repr_def)
  then show ?thesis using q2(1) km_k by (simp add: eq2 assms(6))
qed

lemma insert_ok:
  assumes "pq_repr q m" "m key = None"
  shows "runs (insert_pq key p q) (\<lambda>(r, q'). r = 0 \<and> pq_repr q' (m(key \<mapsto> p)) \<and> minheap_size q' = minheap_size q
           \<and> heaps q' = put_heaps (minheap_size q) \<lparr>pe_key = key, pe_prio = p\<rparr> (heaps q))"
proof -
  let ?e = "\<lparr>pe_key = key, pe_prio = p\<rparr>"
  note parts = pq_repr_parts[OF assms(1)] and fresh = fresh_key[OF assms]
  consider (room) "length (min_elems q) < minheap_size q"
    | (low) "length (min_elems q) = minheap_size q" "p < pe_prio (min_elems q ! 0)"
    | (high) "length (min_elems q) = minheap_size q" "\<not> p < pe_prio (min_elems q ! 0)"
    using parts(5) by linarith
  then show ?thesis
  proof cases
    case room
    from sift_up_repr[OF push_min[OF assms room], of "length (min_elems q)" MIN_HEAP p] show ?thesis
      using room fresh(1)
      by (auto simp: insert_pq_def map_insert_def runs_iff put_heaps_def all_heap_type)
  next
    case low
    then have "min_elems q \<noteq> []" using parts(4) by auto
    from sift_up_repr[OF push_max[OF assms low(1)], of "length (max_elems q)" MAX_HEAP p] show ?thesis
      using low fresh(1) parts(4) \<open>min_elems q \<noteq> []\<close>
      by (auto simp: insert_pq_def map_insert_def runs_iff put_heaps_def all_heap_type vec_at_def maxtog_def)
  next
    case high
    then have ne: "min_elems q \<noteq> []" using parts(4) by auto
    then have "keymap q (pe_key (min_elems q ! 0)) = Some (mintog 0)" using parts(1) by (simp add: slots_def)
    moreover obtain q2 where q2: "sift_up MAX_HEAP (length (max_elems q)) (q\<lparr>max_elems := max_elems q @ [min_elems q ! 0],
          keymap := (keymap q)(pe_key (min_elems q ! 0) \<mapsto> maxtog q (length (max_elems q)))\<rparr>) = Inr q2" "keymap q2 key = None" "minheap_size q2 = minheap_size q"
        and q3: "pq_repr (q2\<lparr>keymap := (keymap q2)(key \<mapsto> mintog 0), min_elems := (min_elems q2)[0 := ?e]\<rparr>) (m(key \<mapsto> p))"
          "(min_elems q2)[0 := ?e] = (min_elems q)[0 := ?e]"
          "max_elems q2 = up MAX_HEAP (length (max_elems q)) (max_elems q @ [min_elems q ! 0])"
      using replace_root[OF assms high(1) refl refl refl, of p] by (auto simp: runs_iff Let_def)
    moreover have "0 < length (elems MIN_HEAP (q2\<lparr>keymap := (keymap q2)(key \<mapsto> mintog 0), min_elems := (min_elems q2)[0 := ?e]\<rparr>))"
      using arg_cong[OF q3(2), of length] ne by simp
    note h = heapify_repr[OF q3(1) this]
    ultimately show ?thesis
      using high ne h parts(4)
      by (auto simp: insert_pq_def map_insert_def min_heapify_def runs_iff put_heaps_def all_heap_type vec_at_def maxtog_def)
  qed
qed

subsection \<open>Changing a priority\<close>

definition raise_heaps :: "heap_type \<Rightarrow> nat \<Rightarrow> pqelem \<Rightarrow> pqelem list \<times> pqelem list \<Rightarrow> pqelem list \<times> pqelem list" where
  "raise_heaps h i e = (\<lambda>(a, b).
     if h = MIN_HEAP then (down MIN_HEAP i (a[i := e]), b)
     else
       let c = up MAX_HEAP i (b[i := e]) in
       if pe_prio (a ! 0) < pe_prio (c ! 0) then (down MIN_HEAP 0 (a[0 := c ! 0]), c[0 := a ! 0]) else (a, c))"

definition lower_heaps :: "heap_type \<Rightarrow> nat \<Rightarrow> pqelem \<Rightarrow> pqelem list \<times> pqelem list \<Rightarrow> pqelem list \<times> pqelem list" where
  "lower_heaps h i e = (\<lambda>(a, b).
     if h = MAX_HEAP then (a, down MAX_HEAP i (b[i := e]))
     else
       let c = up MIN_HEAP i (a[i := e]) in
       if pe_prio (c ! 0) < pe_prio (b ! 0) then (c[0 := b ! 0], down MAX_HEAP 0 (b[0 := c ! 0])) else (c, b))"

lemma slots_keys:
  assumes "slots h q" "map pe_key (elems h q') = map pe_key (elems h q)" "tog h q' = tog h q" "keymap q' = keymap q"
  shows "slots h q'"
proof -
  have len: "length (elems h q') = length (elems h q)" using assms(2) by (metis length_map)
  have "pe_key (elems h q' ! i) = pe_key (elems h q ! i)" if "i < length (elems h q)" for i
    using assms(2) that len by (metis nth_map)
  then show ?thesis using assms by (auto simp: slots_def len)
qed

lemma upd_prio_ok:
  assumes "pq_repr q m" "i < length (elems h q)"
    and "e = (elems h q ! i)\<lparr>pe_prio := f (pe_prio (elems h q ! i))\<rparr>"
  shows "upd_prio h i f q = Inr (set_elems h ((elems h q)[i := e]) q)"
    and "pq_repr (set_elems h ((elems h q)[i := e]) q) (m(pe_key (elems h q ! i) \<mapsto> pe_prio e))"
proof -
  let ?x = "elems h q ! i" and ?q = "set_elems h ((elems h q)[i := e]) q"
  note parts = pq_repr_parts[OF assms(1)]
  show "upd_prio h i f q = Inr ?q" using assms(2,3) by (simp add: upd_prio_def vec_at_def)
  have "map pe_key ((elems h q)[i := e]) = (map pe_key (elems h q))[i := map pe_key (elems h q) ! i]"
    using assms(2,3) by (simp add: map_update)
  then have keys: "map pe_key ((elems h q)[i := e]) = map pe_key (elems h q)" unfolding list_update_id .
  have all_keys: "map pe_key (elems h' ?q) = map pe_key (elems h' q)" for h'
    using keys by (cases h; cases h') simp_all
  have sq: "slots h' q" for h' using parts(1,2) by (metis heap_type.exhaust)
  have sl: "slots h' ?q" for h' by (rule slots_keys[OF sq all_keys]) simp_all
  have key_set: "pe_key ` set (elems h' ?q) = pe_key ` set (elems h' q)" for h'
    using all_keys[of h'] by (metis set_map)
  have len: "length (elems h' ?q) = length (elems h' q)" for h' using all_keys[of h'] by (metis length_map)
  have km: "keymap ?q = keymap q" "minheap_size ?q = minheap_size q" by simp_all
  have ok: "pq_ok ?q"
    using assms(1) sl key_set[of MIN_HEAP] key_set[of MAX_HEAP] len[of MIN_HEAP] len[of MAX_HEAP]
    unfolding pq_repr_def pq_ok_def km image_Un elems.simps length_0_conv[symmetric] by presburger
  have dis: "distinct (elems h q)" using sq[of h] by (simp add: slots_def distinct_map)
  have uniq: "y = ?x" if "y \<in> set (min_elems q) \<union> set (max_elems q)" "pe_key y = pe_key ?x" for y
  proof -
    have "?x \<in> set (min_elems q) \<union> set (max_elems q)" using assms(2) by (cases h) auto
    then show ?thesis using parts(6)[of y] parts(6)[of ?x] that by (cases y; cases ?x) auto
  qed
  have mem: "y \<in> set (min_elems ?q) \<union> set (max_elems ?q) \<longleftrightarrow> y = e \<or> y \<in> set (min_elems q) \<union> set (max_elems q) \<and> y \<noteq> ?x" for y
  proof -
    have "?x \<notin> set (elems h' q)" if "h' \<noteq> h" for h'
      using that pq_ok_apart[of q] pq_ok_disjoint[of q ?x ?x] assms(1,2) by (cases h; cases h') (auto simp: pq_repr_def)
    from this[of MIN_HEAP] this[of MAX_HEAP] show ?thesis
      using assms(2) set_update_distinct[OF dis assms(2), of e] by (cases h) auto
  qed
  have ke: "pe_key e = pe_key ?x" by (simp add: assms(3))
  have "y \<in> set (min_elems ?q) \<union> set (max_elems ?q) \<longleftrightarrow> (m(pe_key ?x \<mapsto> pe_prio e)) (pe_key y) = Some (pe_prio y)" for y
  proof (cases "pe_key y = pe_key ?x")
    case True
    then have "y = e \<longleftrightarrow> pe_prio y = pe_prio e" using ke by (auto intro: pqelem.equality)
    then show ?thesis unfolding mem using True uniq[of y] by auto
  next
    case False
    then have "y \<noteq> e" "y \<noteq> ?x" using ke by auto
    then show ?thesis unfolding mem using False parts(6)[of y] by simp
  qed
  then show "pq_repr ?q (m(pe_key ?x \<mapsto> pe_prio e))" using ok by (simp add: pq_repr_def)
qed

lemma swap_roots:
  assumes "pq_repr q m" "min_elems q = r # as" "max_elems q = t # bs"
  shows "pq_repr (q\<lparr>max_elems := r # bs, min_elems := t # as, keymap := (keymap q)(pe_key r \<mapsto> maxtog q 0, pe_key t \<mapsto> mintog 0)\<rparr>) m"
    (is "pq_repr ?q m")
proof -
  note parts = pq_repr_parts[OF assms(1)]
  have ok: "pq_ok q" using assms(1) by (simp add: pq_repr_def)
  have apart: "pe_key x \<noteq> pe_key y" if "x \<in> set (r # as)" "y \<in> set (t # bs)" for x y
    using pq_ok_disjoint[OF ok, of x y] that by (simp add: assms(2,3))
  have km: "keymap q (pe_key (as ! i)) = Some (Suc i)" if "i < length as" for i
    using parts(1) that by (auto simp: slots_def assms(2) mintog_def)
  have kM: "keymap q (pe_key (bs ! i)) = Some (Suc i + minheap_size q)" if "i < length bs" for i
    using parts(2) that by (auto simp: slots_def assms(3) maxtog_def)
  have dm: "pe_key r \<notin> pe_key ` set as" "distinct (map pe_key as)" using parts(1) by (auto simp: slots_def assms(2))
  have dM: "pe_key t \<notin> pe_key ` set bs" "distinct (map pe_key bs)" using parts(2) by (auto simp: slots_def assms(3))
  have dm': "pe_key (as ! i) \<noteq> pe_key r" if "i < length as" for i using dm(1) that by (metis imageI nth_mem)
  have dM': "pe_key (bs ! i) \<noteq> pe_key t" if "i < length bs" for i using dM(1) that by (metis imageI nth_mem)
  have "slots MIN_HEAP ?q"
    unfolding slots_def
  proof (intro conjI allI impI)
    show "distinct (map pe_key (elems MIN_HEAP ?q))" using dm(2) apart[of _ t] by fastforce
    fix i
    assume "i < length (elems MIN_HEAP ?q)"
    then show "keymap ?q (pe_key (elems MIN_HEAP ?q ! i)) = Some (tog MIN_HEAP ?q i)"
      using km[of "i - 1"] dm'[of "i - 1"] apart[of "as ! (i - 1)" t] by (cases i) (auto simp: mintog_def)
  qed
  moreover have "slots MAX_HEAP ?q"
    unfolding slots_def
  proof (intro conjI allI impI)
    show "distinct (map pe_key (elems MAX_HEAP ?q))" using dM(2) apart[of r] by fastforce
    fix i
    assume "i < length (elems MAX_HEAP ?q)"
    then show "keymap ?q (pe_key (elems MAX_HEAP ?q ! i)) = Some (tog MAX_HEAP ?q i)"
      using kM[of "i - 1"] dM'[of "i - 1"] apart[of r "bs ! (i - 1)"] apart[of r t] by (cases i) (auto simp: maxtog_def)
  qed
  moreover have "dom (keymap ?q) = pe_key ` (set (min_elems ?q) \<union> set (max_elems ?q))"
    using parts(3) by (auto simp: assms(2,3))
  ultimately have "pq_ok ?q" using ok by (simp add: pq_ok_def assms(2,3))
  moreover have "x \<in> set (min_elems ?q) \<union> set (max_elems ?q) \<longleftrightarrow> x \<in> set (min_elems q) \<union> set (max_elems q)" for x
    by (auto simp: assms(2,3))
  ultimately show ?thesis using parts(6) by (simp add: pq_repr_def)
qed

lemma increase_ok:
  assumes "pq_repr q m"
  shows "runs (increase_prio key d q) (\<lambda>(r, q').
     case m key of None \<Rightarrow> r = - 1 \<and> q' = q
     | Some p \<Rightarrow> r = 0 \<and> pq_repr q' (m(key \<mapsto> p + d)) \<and> minheap_size q' = minheap_size q
         \<and> (\<exists>h i. i < length (elems h q) \<and> elems h q ! i = \<lparr>pe_key = key, pe_prio = p\<rparr>
              \<and> heaps q' = raise_heaps h i \<lparr>pe_key = key, pe_prio = p + d\<rparr> (heaps q)))"
proof (cases "keymap q key")
  case None
  then show ?thesis using key_in[OF assms, of key] by (simp add: increase_prio_def)
next
  case (Some g)
  from locate[OF assms Some] obtain h i where i: "i < length (elems h q)" "pe_key (elems h q ! i) = key"
      "m key = Some (pe_prio (elems h q ! i))" "is_minheap q g \<longleftrightarrow> h = MIN_HEAP" "gtol q g = i" .
  define p where "p = pe_prio (elems h q ! i)"
  let ?e = "\<lparr>pe_key = key, pe_prio = p + d\<rparr>"
  have x: "elems h q ! i = \<lparr>pe_key = key, pe_prio = p\<rparr>" using i(2) p_def by (cases "elems h q ! i") simp
  have upd: "upd_prio h i (\<lambda>p. p + d) q = Inr (set_elems h ((elems h q)[i := ?e]) q)"
      "pq_repr (set_elems h ((elems h q)[i := ?e]) q) (m(key \<mapsto> p + d))"
    using upd_prio_ok[OF assms i(1), of ?e "\<lambda>p. p + d"] by (simp_all add: x)
  have mk: "m key = Some p" using i(3) p_def by simp
  show ?thesis
  proof (cases h)
    case MIN_HEAP
    have "i < length (elems MIN_HEAP (set_elems MIN_HEAP ((min_elems q)[i := ?e]) q))" using i(1) MIN_HEAP by simp
    from heapify_repr[OF _ this, of "m(key \<mapsto> p + d)"] upd obtain q2 where
        "heapify MIN_HEAP i (q\<lparr>min_elems := (min_elems q)[i := ?e]\<rparr>) = Inr q2" "pq_repr q2 (m(key \<mapsto> p + d))"
        "heaps q2 = raise_heaps h i ?e (heaps q)" "minheap_size q2 = minheap_size q"
      by (auto simp: runs_iff MIN_HEAP all_heap_type raise_heaps_def)
    then have "increase_prio key d q = Inr (0, q2)"
      using upd(1) i(4,5) by (simp add: increase_prio_def Some MIN_HEAP min_heapify_def)
    then show ?thesis using mk x i(1) \<open>pq_repr q2 _\<close> \<open>heaps q2 = _\<close> \<open>minheap_size q2 = _\<close> by auto
  next
    case MAX_HEAP
    have mx: "i < length (max_elems q)" using i(1) MAX_HEAP by simp
    have "i < length (elems MAX_HEAP (set_elems MAX_HEAP ((max_elems q)[i := ?e]) q))" using mx by simp
    from sift_up_repr[OF _ this, of "m(key \<mapsto> p + d)"] upd obtain q2 where
        q2: "sift_up MAX_HEAP i (q\<lparr>max_elems := (max_elems q)[i := ?e]\<rparr>) = Inr q2" "pq_repr q2 (m(key \<mapsto> p + d))"
        "max_elems q2 = up MAX_HEAP i ((max_elems q)[i := ?e])" "min_elems q2 = min_elems q" "minheap_size q2 = minheap_size q"
      by (auto simp: runs_iff MAX_HEAP all_heap_type)
    have "length (min_elems q) = minheap_size q" using assms mx by (auto simp: pq_repr_def pq_ok_def)
    then obtain r as where mn: "min_elems q = r # as" using pq_repr_parts(4)[OF assms] by (cases "min_elems q") auto
    have "length (max_elems q2) = length (max_elems q)"
      using up_mset[of i "(max_elems q)[i := ?e]" MAX_HEAP] mx q2(3) by (metis length_list_update size_mset)
    then obtain t bs where mxs: "max_elems q2 = t # bs" using mx by (cases "max_elems q2") auto
    have km: "keymap q2 (pe_key r) \<noteq> None" "keymap q2 (pe_key t) \<noteq> None"
      using pq_repr_parts(3)[OF q2(2)] mn mxs q2(4) by auto
    show ?thesis
    proof (cases "pe_prio r < pe_prio t")
      case True
      let ?q4 = "q2\<lparr>max_elems := r # bs, min_elems := t # as, keymap := (keymap q2)(pe_key r \<mapsto> maxtog q2 0, pe_key t \<mapsto> mintog 0)\<rparr>"
      have "pq_repr ?q4 (m(key \<mapsto> p + d))" using swap_roots[OF q2(2), of r as t bs] mn mxs q2(4) by simp
      from heapify_repr[OF this, of 0 MIN_HEAP] obtain q5 where
          q5: "heapify MIN_HEAP 0 ?q4 = Inr q5" "pq_repr q5 (m(key \<mapsto> p + d))" "heaps q5 = raise_heaps h i ?e (heaps q)" "minheap_size q5 = minheap_size q"
        using True mn mxs q2 by (auto simp: runs_iff MAX_HEAP all_heap_type raise_heaps_def)
      have "pe_key r \<noteq> pe_key t" using pq_ok_disjoint[of q2 r t] q2(2,4) mn mxs by (simp add: pq_repr_def)
      then have "increase_prio key d q = Inr (0, q5)"
        using upd(1) i(4,5) q2(1,4) True mn mxs km q5(1) by (simp add: increase_prio_def Some MAX_HEAP min_heapify_def vec_at_def Let_def maxtog_def)
      then show ?thesis using mk x i(1) q5(2-4) by auto
    next
      case False
      have "heaps q2 = raise_heaps h i ?e (heaps q)" using False mn mxs q2(3,4) by (simp add: raise_heaps_def MAX_HEAP)
      moreover have "increase_prio key d q = Inr (0, q2)"
        using upd(1) i(4,5) q2(1,4) False mn mxs by (simp add: increase_prio_def Some MAX_HEAP vec_at_def Let_def)
      ultimately show ?thesis using mk x i(1) q2(2,5) by auto
    qed
  qed
qed

text \<open>\<open>decrease_prio\<close> of an element of the min-heap reads the root of the max-heap: it throws when that is empty.\<close>

lemma decrease_ok:
  assumes "pq_repr q m"
  shows "case m key of None \<Rightarrow> decrease_prio key d q = Inr (- 1, q)
     | Some p \<Rightarrow>
         if max_elems q = [] then decrease_prio key d q = Inl Uncaught_exception
         else runs (decrease_prio key d q) (\<lambda>(r, q'). r = 0 \<and> pq_repr q' (m(key \<mapsto> p - d)) \<and> minheap_size q' = minheap_size q
           \<and> (\<exists>h i. i < length (elems h q) \<and> elems h q ! i = \<lparr>pe_key = key, pe_prio = p\<rparr>
                \<and> heaps q' = lower_heaps h i \<lparr>pe_key = key, pe_prio = p - d\<rparr> (heaps q)))"
proof (cases "keymap q key")
  case None
  then show ?thesis using key_in[OF assms, of key] by (simp add: decrease_prio_def)
next
  case (Some g)
  from locate[OF assms Some] obtain h i where i: "i < length (elems h q)" "pe_key (elems h q ! i) = key"
      "m key = Some (pe_prio (elems h q ! i))" "is_minheap q g \<longleftrightarrow> h = MIN_HEAP" "gtol q g = i" .
  define p where "p = pe_prio (elems h q ! i)"
  let ?e = "\<lparr>pe_key = key, pe_prio = p - d\<rparr>"
  have x: "elems h q ! i = \<lparr>pe_key = key, pe_prio = p\<rparr>" using i(2) p_def by (cases "elems h q ! i") simp
  have upd: "upd_prio h i (\<lambda>p. p - d) q = Inr (set_elems h ((elems h q)[i := ?e]) q)"
      "pq_repr (set_elems h ((elems h q)[i := ?e]) q) (m(key \<mapsto> p - d))"
    using upd_prio_ok[OF assms i(1), of ?e "\<lambda>p. p - d"] by (simp_all add: x)
  have mk: "m key = Some p" using i(3) p_def by simp
  show ?thesis
  proof (cases h)
    case MAX_HEAP
    have "i < length (elems MAX_HEAP (set_elems MAX_HEAP ((max_elems q)[i := ?e]) q))" using i(1) MAX_HEAP by simp
    from heapify_repr[OF _ this, of "m(key \<mapsto> p - d)"] upd obtain q2 where
        "heapify MAX_HEAP i (q\<lparr>max_elems := (max_elems q)[i := ?e]\<rparr>) = Inr q2" "pq_repr q2 (m(key \<mapsto> p - d))"
        "heaps q2 = lower_heaps h i ?e (heaps q)" "minheap_size q2 = minheap_size q"
      by (auto simp: runs_iff MAX_HEAP all_heap_type lower_heaps_def)
    moreover from this(1) have "decrease_prio key d q = Inr (0, q2)"
      using upd(1) i(4,5) by (simp add: decrease_prio_def Some MAX_HEAP max_heapify_def)
    moreover have "max_elems q \<noteq> []" using i(1) MAX_HEAP by auto
    ultimately show ?thesis using mk x i(1) by auto
  next
    case MIN_HEAP
    have mn: "i < length (min_elems q)" using i(1) MIN_HEAP by simp
    have "i < length (elems MIN_HEAP (set_elems MIN_HEAP ((min_elems q)[i := ?e]) q))" using mn by simp
    from sift_up_repr[OF _ this, of "m(key \<mapsto> p - d)"] upd obtain q2 where
        q2: "sift_up MIN_HEAP i (q\<lparr>min_elems := (min_elems q)[i := ?e]\<rparr>) = Inr q2" "pq_repr q2 (m(key \<mapsto> p - d))"
        "min_elems q2 = up MIN_HEAP i ((min_elems q)[i := ?e])" "max_elems q2 = max_elems q" "minheap_size q2 = minheap_size q"
      by (auto simp: runs_iff MIN_HEAP all_heap_type)
    have "length (min_elems q2) = length (min_elems q)"
      using up_mset[of i "(min_elems q)[i := ?e]" MIN_HEAP] mn q2(3) by (metis length_list_update size_mset)
    then obtain r as where mns: "min_elems q2 = r # as" using mn by (cases "min_elems q2") auto
    show ?thesis
    proof (cases "max_elems q")
      case Nil
      then show ?thesis
        using upd(1) i(4,5) q2(1,4) mns mk by (simp add: decrease_prio_def Some MIN_HEAP vec_at_def Let_def)
    next
      case mxs: (Cons t bs)
      have km: "keymap q2 (pe_key r) \<noteq> None" "keymap q2 (pe_key t) \<noteq> None"
        using pq_repr_parts(3)[OF q2(2)] mns mxs q2(4) by auto
      show ?thesis
      proof (cases "pe_prio r < pe_prio t")
        case True
        let ?km = "(keymap q2)(pe_key r \<mapsto> maxtog q2 0, pe_key t \<mapsto> mintog 0)"
        let ?q4 = "q2\<lparr>max_elems := r # bs, min_elems := t # as, keymap := ?km\<rparr>"
        have "pq_repr ?q4 (m(key \<mapsto> p - d))" using swap_roots[OF q2(2), of r as t bs] mns mxs q2(4) by simp
        from heapify_repr[OF this, of 0 MAX_HEAP] obtain q5 where
            q5: "heapify MAX_HEAP 0 ?q4 = Inr q5" "pq_repr q5 (m(key \<mapsto> p - d))" "heaps q5 = lower_heaps h i ?e (heaps q)" "minheap_size q5 = minheap_size q"
          using True mns mxs q2 by (auto simp: runs_iff MIN_HEAP all_heap_type lower_heaps_def)
        have ne: "pe_key t \<noteq> pe_key r" using pq_ok_disjoint[of q2 r t] q2(2,4) mns mxs by (auto simp: pq_repr_def)
        have "q2\<lparr>min_elems := t # as, max_elems := r # bs, keymap := (keymap q2)(pe_key t \<mapsto> mintog 0, pe_key r \<mapsto> maxtog q2 0)\<rparr> = ?q4"
          using ne by (simp add: fun_upd_twist)
        then have "decrease_prio key d q = Inr (0, q5)"
          using upd(1) i(4,5) q2(1,4) True mns mxs km ne q5(1)
          by (simp add: decrease_prio_def Some MIN_HEAP max_heapify_def vec_at_def Let_def maxtog_def)
        then show ?thesis using mk x i(1) q5(2-4) mxs by auto
      next
        case False
        have "heaps q2 = lower_heaps h i ?e (heaps q)" using False mns mxs q2(3,4) by (simp add: lower_heaps_def MIN_HEAP)
        moreover have "decrease_prio key d q = Inr (0, q2)"
          using upd(1) i(4,5) q2(1,4) False mns mxs by (simp add: decrease_prio_def Some MIN_HEAP vec_at_def Let_def)
        ultimately show ?thesis using mk x i(1) q2(2,5) mxs by auto
      qed
    qed
  qed
qed

end
