(* ===== verification/PrioOrder.thy ===== *)
theory PrioOrder
  imports PrioOps
begin

text \<open>
  Sequences of operations on the priority queue: they refine those of a map from keys to
  priorities, and the keys that \<open>read_topK\<close> returns are those with the highest priorities as long as
  priorities only grow and the min-heap has at most four places.
\<close>

subsection \<open>Sequences of operations\<close>

datatype prio_op = Put "64 word" "64 word" | Raise "64 word" "64 word" | Lower "64 word" "64 word"

primrec prio_step :: "prio_op \<Rightarrow> (64 word \<rightharpoonup> 64 word) \<Rightarrow> (64 word \<rightharpoonup> 64 word)" where
  "prio_step (Put k p) m = m(k \<mapsto> p)"
| "prio_step (Raise k d) m = (case m k of None \<Rightarrow> m | Some p \<Rightarrow> m(k \<mapsto> p + d))"
| "prio_step (Lower k d) m = (case m k of None \<Rightarrow> m | Some p \<Rightarrow> m(k \<mapsto> p - d))"

primrec pq_step :: "prio_op \<Rightarrow> pq \<Rightarrow> pq res" where
  "pq_step (Put k p) q = andthen (insert_pq k p q) (\<lambda>(_, q'). Inr q')"
| "pq_step (Raise k d) q = andthen (increase_prio k d q) (\<lambda>(_, q'). Inr q')"
| "pq_step (Lower k d) q = andthen (decrease_prio k d q) (\<lambda>(_, q'). Inr q')"

text \<open>Keys are inserted once, and a priority is lowered only while the queue holds more than \<open>n\<close> elements.\<close>

primrec legal :: "nat \<Rightarrow> prio_op \<Rightarrow> (64 word \<rightharpoonup> 64 word) \<Rightarrow> bool" where
  "legal n (Put k p) m \<longleftrightarrow> m k = None"
| "legal n (Raise k d) m \<longleftrightarrow> True"
| "legal n (Lower k d) m \<longleftrightarrow> m k = None \<or> n < card (dom m)"

text \<open>Priorities only grow.\<close>

primrec growing :: "prio_op \<Rightarrow> (64 word \<rightharpoonup> 64 word) \<Rightarrow> bool" where
  "growing (Put k p) m \<longleftrightarrow> m k = None"
| "growing (Raise k d) m \<longleftrightarrow> (case m k of None \<Rightarrow> True | Some p \<Rightarrow> p \<le> p + d)"
| "growing (Lower k d) m \<longleftrightarrow> False"

primrec legal_run :: "(prio_op \<Rightarrow> (64 word \<rightharpoonup> 64 word) \<Rightarrow> bool) \<Rightarrow> prio_op list \<Rightarrow> (64 word \<rightharpoonup> 64 word) \<Rightarrow> bool" where
  "legal_run L [] m \<longleftrightarrow> True"
| "legal_run L (x # xs) m \<longleftrightarrow> L x m \<and> legal_run L xs (prio_step x m)"

text \<open>An implementation of such a map whose operations keep a further property of its states.\<close>

locale prio_store =
  fixes rep :: "pq \<Rightarrow> (64 word \<rightharpoonup> 64 word) \<Rightarrow> bool"
    and allowed :: "prio_op \<Rightarrow> (64 word \<rightharpoonup> 64 word) \<Rightarrow> bool"
  assumes step_ok: "rep q m \<Longrightarrow> allowed x m \<Longrightarrow> runs (pq_step x q) (\<lambda>q'. rep q' (prio_step x m))"
begin

lemma run_ok:
  assumes "rep q m" "legal_run allowed xs m"
  shows "runs (foldres pq_step xs q) (\<lambda>q'. rep q' (fold prio_step xs m))"
  using assms
proof (induction xs arbitrary: q m)
  case (Cons x xs)
  then obtain q1 where "pq_step x q = Inr q1" "rep q1 (prio_step x m)" using step_ok[of q m x] by (auto simp: runs_iff)
  then show ?case using Cons by simp
qed simp

end

lemma card_elements:
  assumes "pq_repr q m"
  shows "card (dom m) = length (min_elems q) + length (max_elems q)"
proof -
  note parts = pq_repr_parts[OF assms]
  have ok: "pq_ok q" using assms by (simp add: pq_repr_def)
  have "dom m = dom (keymap q)" by (intro set_eqI) (simp only: domIff key_in[OF assms])
  also have "\<dots> = set (map pe_key (min_elems q)) \<union> set (map pe_key (max_elems q))" using parts(3) by (simp add: image_Un)
  finally have "card (dom m) = card (set (map pe_key (min_elems q))) + card (set (map pe_key (max_elems q)))"
    using pq_ok_apart[OF ok] by (auto intro!: card_Un_disjoint)
  then show ?thesis using parts(1,2) distinct_card[of "map pe_key (min_elems q)"] distinct_card[of "map pe_key (max_elems q)"]
    by (simp add: slots_def)
qed

lemma max_empty:
  assumes "pq_repr q m"
  shows "max_elems q = [] \<longleftrightarrow> card (dom m) \<le> minheap_size q"
  using card_elements[OF assms] assms by (cases "max_elems q") (auto simp: pq_repr_def pq_ok_def)

interpretation any_prio: prio_store "\<lambda>q m. pq_repr q m \<and> minheap_size q = n" "legal n" for n
proof
  fix q m x
  assume q: "pq_repr q m \<and> minheap_size q = n" and x: "legal n x m"
  show "runs (pq_step x q) (\<lambda>q'. pq_repr q' (prio_step x m) \<and> minheap_size q' = n)"
  proof (cases x)
    case (Put k p)
    then show ?thesis using insert_ok[of q m k p] q x by (auto simp: runs_iff)
  next
    case (Raise k d)
    then show ?thesis using increase_ok[of q m k d] q by (auto simp: runs_iff split: option.splits)
  next
    case (Lower k d)
    then show ?thesis using decrease_ok[of q m k d] max_empty[of q m] q x by (auto simp: runs_iff split: option.splits)
  qed
qed

lemma new_repr:
  assumes "1 \<le> n" "n \<le> 8"
  shows "runs (pq_new n) (\<lambda>q. pq_repr q Map.empty \<and> heaps q = ([], []) \<and> minheap_size q = 8 div n)"
proof -
  have "1 \<le> 8 div n" using assms by (simp add: less_eq_div_iff_mult_less_eq)
  then show ?thesis using assms by (simp add: pq_new_def guarded_def NTOP_K_def pq_repr_def pq_ok_def slots_def)
qed

subsection \<open>The order of the heaps\<close>

text \<open>The min-heap by the children of \<open>heapify\<close>, the max-heap by the parents of \<open>sift_up\<close>.\<close>

definition heap_min :: "pqelem list \<Rightarrow> bool" where
  "heap_min a \<longleftrightarrow> (\<forall>i<length a. 0 < i \<longrightarrow> pe_prio (a ! ((i - 1) div 2)) \<le> pe_prio (a ! i))"

definition heap_max :: "pqelem list \<Rightarrow> bool" where
  "heap_max b \<longleftrightarrow> (\<forall>i<length b. 0 < i \<longrightarrow> pe_prio (b ! i) \<le> pe_prio (b ! parent_of i))"

definition sorted_heaps :: "pqelem list \<times> pqelem list \<Rightarrow> bool" where
  "sorted_heaps = (\<lambda>(a, b). heap_min a \<and> heap_max b \<and> (\<forall>x\<in>set b. \<forall>y\<in>set a. pe_prio x \<le> pe_prio y))"

definition up_inv :: "nat \<Rightarrow> pqelem list \<Rightarrow> bool" where
  "up_inv l b \<longleftrightarrow> (\<forall>i<length b. 0 < i \<longrightarrow> i \<noteq> l \<longrightarrow> pe_prio (b ! i) \<le> pe_prio (b ! parent_of i))
     \<and> (\<forall>i<length b. i \<noteq> l \<longrightarrow> parent_of i = l \<longrightarrow> 0 < l \<longrightarrow> pe_prio (b ! i) \<le> pe_prio (b ! parent_of l))"

lemma up_inv_step:
  assumes "up_inv l b" "l < length b" "0 < l" "pe_prio (b ! parent_of l) < pe_prio (b ! l)"
  shows "up_inv (parent_of l) (exch l (parent_of l) b)"
proof -
  let ?p = "parent_of l"
  have p: "?p < length b" "?p \<noteq> l" using assms(2,3) by (auto simp: parent_of_def)
  note inv = assms(1)[unfolded up_inv_def, THEN conjunct1, rule_format] assms(1)[unfolded up_inv_def, THEN conjunct2, rule_format]
  have pp: "parent_of ?p \<noteq> l" using assms(3) by (simp add: parent_of_def)
  show ?thesis
    unfolding up_inv_def exch_simps
  proof (intro conjI allI impI)
    fix i
    assume i: "i < length b" "0 < i" "i \<noteq> ?p"
    have pi: "parent_of i < length b" using i(1) by (rule parent_less)
    consider "i = l" | "i \<noteq> l" "parent_of i = l" | "i \<noteq> l" "parent_of i = ?p" | "i \<noteq> l" "parent_of i \<noteq> l" "parent_of i \<noteq> ?p" by blast
    then show "pe_prio (exch l ?p b ! i) \<le> pe_prio (exch l ?p b ! parent_of i)"
    proof cases
      case 2
      then show ?thesis using inv(2)[OF i(1)] assms(2,3) p i pi by (simp add: nth_exch)
    next
      case 3
      then have "pe_prio (b ! i) \<le> pe_prio (b ! ?p)" using inv(1)[OF i(1,2)] by simp
      then show ?thesis using 3 assms(2,4) p i pi by (simp add: nth_exch)
    qed (use assms(2,4) inv(1)[OF i(1,2)] p i pi in \<open>simp_all add: nth_exch\<close>)
  next
    fix i
    assume i: "i < length b" "i \<noteq> ?p" "parent_of i = ?p" "0 < ?p"
    have "0 < i" using i(4) i(3) by (cases i) (auto simp: parent_of_def)
    have ppl: "parent_of ?p < length b" "parent_of ?p \<noteq> ?p" using p(1) i(4) by (auto simp: parent_of_def)
    have top: "pe_prio (b ! ?p) \<le> pe_prio (b ! parent_of ?p)" using inv(1)[OF p(1) i(4) p(2)] .
    have "pe_prio (b ! i) \<le> pe_prio (b ! ?p)" if "i \<noteq> l" using inv(1)[OF i(1) \<open>0 < i\<close> that] i(3) by simp
    then show "pe_prio (exch l ?p b ! i) \<le> pe_prio (exch l ?p b ! parent_of ?p)"
      using top assms(2) p i pp ppl by (cases "i = l") (simp_all add: nth_exch)
  qed
qed

lemma up_heap_max:
  assumes "up_inv l b" "l < length b"
  shows "heap_max (up MAX_HEAP l b)"
  using assms
proof (induction MAX_HEAP l b rule: up.induct)
  case (1 l b)
  show ?case
  proof (cases "l \<noteq> 0 \<and> before MAX_HEAP (pe_prio (b ! l)) (pe_prio (b ! parent_of l))")
    case True
    have "up_inv (parent_of l) (exch l (parent_of l) b)" using True 1(2,3) by (intro up_inv_step) auto
    then have "heap_max (up MAX_HEAP (parent_of l) (exch l (parent_of l) b))" using 1(1)[OF True] parent_less[OF 1(3)] by simp
    then show ?thesis using True by (simp add: up.simps[of MAX_HEAP l])
  next
    case False
    then have "up MAX_HEAP l b = b" by (auto simp: up.simps[of MAX_HEAP l])
    moreover have "pe_prio (b ! i) \<le> pe_prio (b ! parent_of i)" if "i < length b" "0 < i" for i
      using 1(2) False that by (cases "i = l") (auto simp: up_inv_def not_less)
    ultimately show ?thesis by (simp add: heap_max_def)
  qed
qed

text \<open>Min-heaps with at most four elements.\<close>

lemma short_list:
  assumes "length a \<le> 4"
  obtains "a = []" | x where "a = [x]" | x y where "a = [x, y]" | x y z where "a = [x, y, z]" | x y z w where "a = [x, y, z, w]"
proof -
  have "length a = 0 \<or> length a = Suc 0 \<or> length a = Suc (Suc 0) \<or> length a = Suc (Suc (Suc 0)) \<or> length a = Suc (Suc (Suc (Suc 0)))"
    using assms by linarith
  then show ?thesis using that by (auto simp: length_Suc_conv)
qed

lemma heap_min_short [simp]:
  "heap_min []" "heap_min [x]"
  "heap_min [x, y] \<longleftrightarrow> pe_prio x \<le> pe_prio y"
  "heap_min [x, y, z] \<longleftrightarrow> pe_prio x \<le> pe_prio y \<and> pe_prio x \<le> pe_prio z"
  "heap_min [x, y, z, w] \<longleftrightarrow> pe_prio x \<le> pe_prio y \<and> pe_prio x \<le> pe_prio z \<and> pe_prio y \<le> pe_prio w"
  by (auto simp: heap_min_def less_Suc_eq numeral_eq_Suc)

lemma up_min_short:
  assumes "length a < 4" "heap_min a"
  shows "heap_min (up MIN_HEAP (length a) (a @ [e]))"
  by (cases rule: short_list[OF less_imp_le[OF assms(1)]]; use assms in \<open>auto simp: up.simps[of MIN_HEAP] exch_def parent_of_def\<close>)

lemma down_leaf [simp]: "length xs \<le> 2 * i + 1 \<Longrightarrow> down h i xs = xs"
  by (simp add: down.simps target_def better_def left_child_def right_child_def)

lemmas down_unfold = target_def better_def exch_def left_child_def right_child_def

lemma down_short:
  "down MIN_HEAP 0 [x, y] = (if pe_prio y < pe_prio x then [y, x] else [x, y])"
  "down MIN_HEAP 0 [x, y, z] =
     (if pe_prio y < pe_prio x then if pe_prio z < pe_prio y then [z, y, x] else [y, x, z]
      else if pe_prio z < pe_prio x then [z, y, x] else [x, y, z])"
  "down MIN_HEAP (Suc 0) [x, y, z, w] = (if pe_prio w < pe_prio y then [x, w, z, y] else [x, y, z, w])"
  "down MIN_HEAP 0 [x, y, z, w] =
     (if pe_prio y < pe_prio x then if pe_prio z < pe_prio y then [z, y, x, w] else down MIN_HEAP (Suc 0) [y, x, z, w]
      else if pe_prio z < pe_prio x then [z, y, x, w] else [x, y, z, w])"
  by (subst down.simps, simp add: down_unfold)+

lemma down_min_short:
  assumes "length a \<le> 4" "heap_min a" "i < length a" "pe_prio (a ! i) \<le> pe_prio e"
  shows "heap_min (down MIN_HEAP i (a[i := e]))"
  by (cases rule: short_list[OF assms(1)]; use assms(2-) in \<open>auto simp: less_Suc_eq down_short\<close>)

lemma root_min:
  assumes "heap_min a" "length a \<le> 4" "y \<in> set a"
  shows "pe_prio (a ! 0) \<le> pe_prio y"
  by (cases rule: short_list[OF assms(2)]; use assms in auto)

lemma root_max:
  assumes "heap_max c" "x \<in> set c"
  shows "pe_prio x \<le> pe_prio (c ! 0)"
proof -
  have "pe_prio (c ! j) \<le> pe_prio (c ! 0)" if "j < length c" for j
    using that
  proof (induction j rule: less_induct)
    case (less j)
    show ?case
    proof (cases "j = 0")
      case False
      then have "pe_prio (c ! j) \<le> pe_prio (c ! parent_of j)" using assms(1) less.prems by (simp add: heap_max_def)
      also have "\<dots> \<le> pe_prio (c ! 0)" using False less.prems by (intro less.IH) (auto simp: parent_of_def)
      finally show ?thesis .
    qed simp
  qed
  then show ?thesis using assms(2) by (metis in_set_conv_nth)
qed

lemma up_inv_append: "heap_max b \<Longrightarrow> up_inv (length b) (b @ [e])"
  by (auto simp: up_inv_def heap_max_def nth_append parent_of_def)

lemma up_inv_raise:
  assumes "heap_max b" "i < length b" "pe_prio (b ! i) \<le> pe_prio e"
  shows "up_inv i (b[i := e])"
proof -
  note ord = assms(1)[unfolded heap_max_def, rule_format]
  have step: "pe_prio (b ! j) \<le> pe_prio (b[i := e] ! parent_of j)" if "j < length b" "0 < j" for j
  proof (cases "parent_of j = i")
    case True
    then show ?thesis using ord[OF that] assms(2,3) by auto
  next
    case False
    then show ?thesis using ord[OF that] by simp
  qed
  have "pe_prio (b ! j) \<le> pe_prio (b ! parent_of i)" if "j < length b" "parent_of j = i" "0 < i" for j
    using ord[OF that(1)] ord[OF assms(2) that(3)] that(2,3) by (cases j) (auto simp: parent_of_def)
  moreover have "parent_of i \<noteq> i" if "0 < i" using that by (simp add: parent_of_def)
  ultimately show ?thesis using step by (auto simp: up_inv_def)
qed

lemma set_up: "l < length xs \<Longrightarrow> set (up h l xs) = set xs"
  by (metis up_mset set_mset_mset)

lemma set_down: "i < length xs \<Longrightarrow> set (down h i xs) = set xs"
  by (metis down_mset set_mset_mset)

lemma put_sorted:
  assumes "sorted_heaps (a, b)" "n \<le> 4" "0 < n" "length a \<le> n" "b \<noteq> [] \<longrightarrow> length a = n"
  shows "sorted_heaps (put_heaps n e (a, b))"
proof -
  have ord: "heap_min a" "heap_max b" "\<And>x y. x \<in> set b \<Longrightarrow> y \<in> set a \<Longrightarrow> pe_prio x \<le> pe_prio y"
    using assms(1) by (auto simp: sorted_heaps_def)
  have max: "heap_max (up MAX_HEAP (length b) (b @ [x]))" for x using up_heap_max[OF up_inv_append[OF ord(2)]] by simp
  have root: "pe_prio (a ! 0) \<le> pe_prio y" if "y \<in> set a" for y using root_min[OF ord(1)] assms(2,4) that by simp
  consider (room) "length a < n" | (low) "length a = n" "pe_prio e < pe_prio (a ! 0)" | (high) "length a = n" "\<not> pe_prio e < pe_prio (a ! 0)"
    using assms(4) by linarith
  then show ?thesis
  proof cases
    case room
    then have "b = []" using assms(5) by auto
    then show ?thesis using room up_min_short[OF _ ord(1), of e] assms(2) by (simp add: put_heaps_def sorted_heaps_def heap_max_def)
  next
    case low
    have "pe_prio e \<le> pe_prio y" if "y \<in> set a" for y using root[OF that] low(2) by simp
    then show ?thesis using low ord max by (auto simp: put_heaps_def sorted_heaps_def set_up)
  next
    case high
    have a: "0 < length a" using high assms(3) by simp
    have "set (down MIN_HEAP 0 (a[0 := e])) \<subseteq> insert e (set a)" using a by (simp add: set_down set_update_subset_insert)
    moreover have "pe_prio x \<le> pe_prio e" if "x \<in> set b" for x using ord(3)[OF that, of "a ! 0"] a high(2) by simp
    moreover have "heap_min (down MIN_HEAP 0 (a[0 := e]))" using high a assms(2) by (intro down_min_short[OF _ ord(1)]) auto
    ultimately show ?thesis using high ord root max a by (fastforce simp: put_heaps_def sorted_heaps_def set_up)
  qed
qed

lemma raise_sorted:
  assumes "sorted_heaps (a, b)" "length a \<le> 4" "a \<noteq> []" "i < length (case h of MIN_HEAP \<Rightarrow> a | MAX_HEAP \<Rightarrow> b)"
    and "pe_prio ((case h of MIN_HEAP \<Rightarrow> a | MAX_HEAP \<Rightarrow> b) ! i) \<le> pe_prio e"
  shows "sorted_heaps (raise_heaps h i e (a, b))"
proof -
  have ord: "heap_min a" "heap_max b" "\<And>x y. x \<in> set b \<Longrightarrow> y \<in> set a \<Longrightarrow> pe_prio x \<le> pe_prio y"
    using assms(1) by (auto simp: sorted_heaps_def)
  have root: "pe_prio (a ! 0) \<le> pe_prio y" if "y \<in> set a" for y using root_min[OF ord(1) assms(2)] that .
  show ?thesis
  proof (cases h)
    case MIN_HEAP
    then have i: "i < length a" "pe_prio (a ! i) \<le> pe_prio e" using assms(4,5) by auto
    have "set (down MIN_HEAP i (a[i := e])) \<subseteq> insert e (set a)" using i(1) by (simp add: set_down set_update_subset_insert)
    moreover have "pe_prio x \<le> pe_prio e" if "x \<in> set b" for x using ord(3)[OF that, of "a ! i"] i by simp
    ultimately show ?thesis
      using ord down_min_short[OF assms(2) ord(1) i] by (auto simp: raise_heaps_def sorted_heaps_def MIN_HEAP)
  next
    case MAX_HEAP
    then have i: "i < length b" "pe_prio (b ! i) \<le> pe_prio e" using assms(4,5) by auto
    define c where "c = up MAX_HEAP i (b[i := e])"
    have c: "heap_max c" "mset c = mset (b[i := e])" "length c = length b"
      using up_heap_max[OF up_inv_raise[OF ord(2) i]] up_mset[of i "b[i := e]" MAX_HEAP] i(1)
      by (simp_all add: c_def) (metis length_list_update size_mset)
    obtain t bs where cs: "c = t # bs" using c(3) i(1) by (cases c) auto
    have mb: "mset c = add_mset e (mset b - {#b ! i#})" using c(2) i(1) by (simp add: mset_update)
    show ?thesis
    proof (cases "pe_prio (a ! 0) < pe_prio t")
      case True
      have "t \<notin> set b" using ord(3)[of t "a ! 0"] True assms(3) by auto
      then have "t = e" using mb cs by (metis add_mset_remove_trivial_eq in_diffD insert_noteq_member list.set_intros(1) mset.simps(2) set_mset_mset union_single_eq_member)
      then have "mset bs = mset b - {#b ! i#}" using mb cs by simp
      then have bs: "set bs \<subseteq> set b" by (metis diff_subset_eq_self set_mset_mono set_mset_mset)
      have "heap_max (c[0 := a ! 0])"
        unfolding heap_max_def
      proof (intro allI impI)
        fix j
        assume j: "j < length (c[0 := a ! 0])" "0 < j"
        then have "c ! j \<in> set b" using bs cs by (cases j) auto
        then have "pe_prio (c ! j) \<le> pe_prio (a ! 0)" using ord(3) assms(3) by simp
        moreover have "pe_prio (c ! j) \<le> pe_prio (c ! parent_of j)" using c(1) j by (simp add: heap_max_def)
        ultimately show "pe_prio (c[0 := a ! 0] ! j) \<le> pe_prio (c[0 := a ! 0] ! parent_of j)"
          using j cs by (cases "parent_of j") auto
      qed
      moreover have "heap_min (down MIN_HEAP 0 (a[0 := t]))" using True assms(3) by (intro down_min_short[OF assms(2) ord(1)]) auto
      moreover have "pe_prio (a ! 0) \<le> pe_prio y" if "y \<in> set (down MIN_HEAP 0 (a[0 := t]))" for y
      proof -
        have "y \<in> insert t (set a)" using that assms(3) set_update_subset_insert[of a 0 t] by (auto simp: set_down)
        then show ?thesis using root True by auto
      qed
      moreover have "pe_prio x \<le> pe_prio (a ! 0)" if "x \<in> set (c[0 := a ! 0])" for x
        using that cs bs ord(3)[of x "a ! 0"] assms(3) by auto
      moreover have "raise_heaps h i e (a, b) = (down MIN_HEAP 0 (a[0 := t]), c[0 := a ! 0])"
        using True cs by (simp add: raise_heaps_def Let_def MAX_HEAP c_def[symmetric])
      ultimately show ?thesis by (auto simp: sorted_heaps_def intro: order_trans)
    next
      case False
      have "pe_prio x \<le> pe_prio t" if "x \<in> set c" for x using root_max[OF c(1) that] cs by simp
      then have "pe_prio x \<le> pe_prio y" if "x \<in> set c" "y \<in> set a" for x y
        using that root[OF that(2)] False by (meson not_less order_trans)
      moreover have "raise_heaps h i e (a, b) = (a, c)"
        using False cs by (simp add: raise_heaps_def Let_def MAX_HEAP c_def[symmetric])
      ultimately show ?thesis using ord(1) c(1) by (simp add: sorted_heaps_def)
    qed
  qed
qed

interpretation grow_prio: prio_store "\<lambda>q m. pq_repr q m \<and> sorted_heaps (heaps q) \<and> minheap_size q = n \<and> n \<le> 4" growing for n
proof
  fix q m x
  assume q: "pq_repr q m \<and> sorted_heaps (heaps q) \<and> minheap_size q = n \<and> n \<le> 4" and x: "growing x m"
  have ok: "0 < n" "length (min_elems q) \<le> n" "max_elems q \<noteq> [] \<longrightarrow> length (min_elems q) = n"
    using q by (auto simp: pq_repr_def pq_ok_def)
  show "runs (pq_step x q) (\<lambda>q'. pq_repr q' (prio_step x m) \<and> sorted_heaps (heaps q') \<and> minheap_size q' = n \<and> n \<le> 4)"
  proof (cases x)
    case (Put k p)
    then obtain q' where q': "insert_pq k p q = Inr (0, q')" "pq_repr q' (m(k \<mapsto> p))" "minheap_size q' = n"
        "heaps q' = put_heaps n \<lparr>pe_key = k, pe_prio = p\<rparr> (heaps q)"
      using insert_ok[of q m k p] q x by (auto simp: runs_iff)
    have "sorted_heaps (heaps q')" unfolding q'(4) using q ok by (intro put_sorted) auto
    then show ?thesis using q' q Put by simp
  next
    case (Raise k d)
    show ?thesis
    proof (cases "m k")
      case None
      then show ?thesis using increase_ok[of q m k d] q Raise by (auto simp: runs_iff)
    next
      case (Some p)
      then obtain q' h i where q': "increase_prio k d q = Inr (0, q')" "pq_repr q' (m(k \<mapsto> p + d))" "minheap_size q' = n"
          and i: "i < length (elems h q)" "elems h q ! i = \<lparr>pe_key = k, pe_prio = p\<rparr>"
          and hs: "heaps q' = raise_heaps h i \<lparr>pe_key = k, pe_prio = p + d\<rparr> (heaps q)"
        using increase_ok[of q m k d] q by (auto simp: runs_iff)
      have el: "elems h q = (case h of MIN_HEAP \<Rightarrow> min_elems q | MAX_HEAP \<Rightarrow> max_elems q)" by (cases h) simp_all
      have "min_elems q \<noteq> []" using i(1) ok by (cases h) auto
      moreover have "p \<le> p + d" using x Raise Some by simp
      ultimately have "sorted_heaps (heaps q')" unfolding hs using q ok i by (intro raise_sorted) (auto simp flip: el)
      then show ?thesis using q' q Raise Some by simp
    qed
  qed (use x in simp)
qed

lemma new_sorted:
  assumes "2 \<le> n" "n \<le> 8"
  shows "runs (pq_new n) (\<lambda>q. pq_repr q Map.empty \<and> sorted_heaps (heaps q) \<and> minheap_size q = 8 div n \<and> 8 div n \<le> 4)"
proof -
  have "8 div n \<le> 8 div 2" using assms by (intro div_le_mono2) auto
  then show ?thesis using new_repr[of n] assms by (auto simp: runs_iff sorted_heaps_def heap_max_def)
qed

lemma topK_of_sorted:
  assumes "pq_repr q m" "sorted_heaps (heaps q)" "minheap_size q \<le> length array"
  shows "runs (read_topK array q) (\<lambda>(r, arr, size). r = 0 \<and> size = min (minheap_size q) (card (dom m))
     \<and> (let S = set (take size arr) in card S = size \<and> S \<subseteq> dom m \<and> (\<forall>k\<in>S. \<forall>k'\<in>dom m - S. the (m k') \<le> the (m k))))"
proof -
  note parts = pq_repr_parts[OF assms(1)]
  let ?ks = "map pe_key (min_elems q)"
  have size: "length (min_elems q) = min (minheap_size q) (card (dom m))"
    using card_elements[OF assms(1)] max_empty[OF assms(1)] parts(5) assms(1) by (cases "max_elems q") (auto simp: pq_repr_def pq_ok_def)
  have "read_topK array q = Inr (0, ?ks @ drop (length ?ks) array, length (min_elems q))"
    using assms(3) parts(5) by (simp add: read_topK_def arr_blit_def)
  moreover have "card (set ?ks) = length (min_elems q)" using parts(1) distinct_card[of ?ks] by (simp add: slots_def)
  moreover have "set ?ks \<subseteq> dom m" using parts(6) by auto
  moreover have "the (m k') \<le> the (m k)" if k: "k \<in> set ?ks" "k' \<in> dom m - set ?ks" for k k'
  proof -
    obtain y where y: "y \<in> set (min_elems q)" "k = pe_key y" using k(1) by auto
    obtain p where p: "m k' = Some p" using k(2) by auto
    let ?x = "\<lparr>pe_key = k', pe_prio = p\<rparr>"
    have "?x \<in> set (min_elems q) \<union> set (max_elems q)" using parts(6)[of ?x] p by simp
    moreover have "?x \<notin> set (min_elems q)" using k(2) by force
    ultimately have "pe_prio ?x \<le> pe_prio y" using assms(2) y(1) unfolding sorted_heaps_def by blast
    moreover have "m k = Some (pe_prio y)" using parts(6)[of y] y by simp
    ultimately show ?thesis using p by simp
  qed
  ultimately show ?thesis using size by (simp add: Let_def)
qed

end
