(* ===== verification/PrioClaims.thy ===== *)
theory PrioClaims
  imports PrioOrder
begin

text \<open>
  Properties of the priority queue of pmemds/include/priority_queue/volatile_priority_queue.hpp.
\<close>

abbreviation pq_run :: "nat \<Rightarrow> prio_op list \<Rightarrow> pq res" where
  "pq_run n ops \<equiv> andthen (pq_new n) (foldres pq_step ops)"

definition votes :: "64 word \<rightharpoonup> 64 word" where
  "votes = [1 \<mapsto> 9, 2 \<mapsto> 7, 3 \<mapsto> 6]"

text \<open>C14: a queue for 1 to 8 partitions implements a map from keys to priorities. Any sequence of
  insertions of new keys, increases, and decreases while there are more elements than places in the
  min-heap runs without an exception and leaves every element in one place, with its priority and with
  the position that the map of positions gives for it.\<close>

theorem pq_refines_map:
  assumes "1 \<le> n" "n \<le> 8" "legal_run (legal (8 div n)) ops Map.empty"
  shows "runs (pq_run n ops) (\<lambda>q. pq_repr q (fold prio_step ops Map.empty))"
proof -
  obtain q where q: "pq_new n = Inr q" "pq_repr q Map.empty" "minheap_size q = 8 div n"
    using new_repr[OF assms(1,2)] by (auto simp: runs_iff)
  show ?thesis using any_prio.run_ok[of q Map.empty "8 div n" ops] q assms(3) by (auto simp: runs_iff)
qed

theorem pq_refines_map_witness:
  "runs (pq_run 8 [Put 1 5, Put 2 7, Raise 1 4, Lower 1 3, Raise 3 1])
     (\<lambda>q. pq_repr q (fold prio_step [Put 1 5, Put 2 7, Raise 1 4, Lower 1 3, Raise 3 1] Map.empty))"
  by (rule pq_refines_map) simp_all

text \<open>C9: with 2 to 8 partitions, and as long as keys are inserted once and priorities only grow, without
  wrapping, \<open>read_topK\<close> returns the keys with the highest priorities: as many as the min-heap has
  places, or all of them, and none left out has a higher priority.\<close>

theorem topK_has_highest:
  assumes "2 \<le> n" "n \<le> 8" "legal_run growing ops Map.empty" "8 div n \<le> length array" "m = fold prio_step ops Map.empty"
  shows "runs (andthen (pq_run n ops) (read_topK array)) (\<lambda>(r, arr, size). r = 0 \<and> size = min (8 div n) (card (dom m))
     \<and> (let S = set (take size arr) in card S = size \<and> S \<subseteq> dom m \<and> (\<forall>k\<in>S. \<forall>k'\<in>dom m - S. the (m k') \<le> the (m k))))"
proof -
  obtain q where q: "pq_new n = Inr q" "pq_repr q Map.empty" "sorted_heaps (heaps q)" "minheap_size q = 8 div n" "8 div n \<le> 4"
    using new_sorted[OF assms(1,2)] by (auto simp: runs_iff)
  obtain q' where q': "foldres pq_step ops q = Inr q'" "pq_repr q' m" "sorted_heaps (heaps q')" "minheap_size q' = 8 div n"
    using grow_prio.run_ok[of q Map.empty "8 div n" ops] q assms(3,5) by (auto simp: runs_iff)
  show ?thesis using topK_of_sorted[OF q'(2,3), of array] q(1) q'(1,4) assms(4) by simp
qed

theorem topK_has_highest_witness:
  "runs (andthen (pq_run 4 [Put 1 5, Put 2 7, Put 3 6, Raise 1 4]) (read_topK [0, 0]))
     (\<lambda>(r, arr, size). r = 0 \<and> size = min (8 div 4) (card (dom votes))
       \<and> (let S = set (take size arr) in card S = size \<and> S \<subseteq> dom votes
            \<and> (\<forall>k\<in>S. \<forall>k'\<in>dom votes - S. the (votes k') \<le> the (votes k))))"
  by (rule topK_has_highest) (auto simp: fun_eq_iff votes_def)



text \<open>C35: lowering the priority of an element throws while the queue holds no more elements than the min-heap has
  places, because the root of the empty max-heap is read.\<close>

theorem decrease_throws:
  assumes "1 \<le> n" "n \<le> 8" "legal_run (legal (8 div n)) ops Map.empty" "m = fold prio_step ops Map.empty"
    and "m key \<noteq> None" "card (dom m) \<le> 8 div n"
  shows "andthen (pq_run n ops) (pq_step (Lower key d)) = Inl Uncaught_exception"
proof -
  obtain q where q: "pq_new n = Inr q" "pq_repr q Map.empty" "minheap_size q = 8 div n"
    using new_repr[OF assms(1,2)] by (auto simp: runs_iff)
  obtain q' where q': "foldres pq_step ops q = Inr q'" "pq_repr q' m" "minheap_size q' = 8 div n"
    using any_prio.run_ok[of q Map.empty "8 div n" ops] q assms(3,4) by (auto simp: runs_iff)
  have "max_elems q' = []" using max_empty[OF q'(2)] q'(3) assms(6) by simp
  then show ?thesis using decrease_ok[OF q'(2), of key d] assms(5) q(1) q'(1) by auto
qed

theorem decrease_throws_witness:
  "andthen (pq_run 4 [Put 1 5, Put 2 7]) (pq_step (Lower 1 2)) = Inl Uncaught_exception"
  by (rule decrease_throws[OF _ _ _ refl]) simp_all



text \<open>With more than eight partitions the min-heap has no place and the first insertion throws.\<close>

lemma too_many_partitions:
  assumes "8 < n"
  shows "andthen (pq_new n) (insert_pq key p) = Inl Uncaught_exception"
  using assms by (simp add: pq_new_def guarded_def NTOP_K_def insert_pq_def vec_at_def)

end
