(* ===== verification/Cyclone.thy ===== *)
theory Cyclone
  imports RaftServer CircularLog
begin

text \<open>
  The callbacks with which Cyclone runs a Raft server, core/cyclone.cpp, in the default build (without
  \<open>__COMMUTE\<close> and \<open>__EXTRA_COPY\<close>: one executor thread, one quorum). The user data of the server is the
  structure \<open>cyclone_st\<close> of core/cyclone_context.hpp. A packet is a number, the address of its buffer, and
  \<open>pk\<close> holds what the program reads and writes in it: the message header, the copy of the
  log entry, the \<open>wal_entry_t\<close> and the requests, one list per segment; the members of the
  union in \<open>msg_t\<close> are separate fields, as a packet is only read as what its type says. DPDK is a parameter: the record \<open>dpdk\<close> has its
  operations on a state of type \<open>'d\<close> that only they look at. \<open>pktmbuf_alloc\<close> gives the address of a
  buffer and the bytes that happen to be in it; \<open>random_peer\<close> is the call of \<open>rand\<close> inside the Raft library. Flushing caches, tracing and
  log messages have no effect on this state.
\<close>

subsection \<open>State\<close>

record rpc =
  rpc_code :: int
  rpc_core_mask :: "64 word"
  rpc_client_id :: int
  rpc_cfg_node :: int

record wal_entry =
  wal_rep :: int
  wal_term :: int
  wal_idx :: int
  wal_leader :: bool

record pkt_msg =
  pm_type :: int
  pm_source :: int
  pm_term :: int
  pm_prev_log_idx :: int
  pm_prev_log_term :: int
  pm_leader_commit :: int
  pm_n_entries :: int

record mbuf =
  mb_msg :: pkt_msg
  mb_entry :: raft_entry
  mb_wal :: wal_entry
  mb_segs :: "rpc list list"
  mb_rv :: msg_requestvote
  mb_rvr :: msg_requestvote_response
  mb_aer :: msg_appendentries_response

datatype wire_msg =
    RequestVote int msg_requestvote
  | RequestVoteResponse int msg_requestvote_response
  | AppendResponse int msg_appendentries_response
  | EmptyAppend pkt_msg
  | Packet nat

datatype pool = Mempool int | ExtraPool int

record 'd dpdk =
  pktmbuf_alloc :: "pool \<Rightarrow> 'd \<Rightarrow> (nat \<times> mbuf) option \<times> 'd"
  pktmbuf_free :: "nat \<Rightarrow> 'd \<Rightarrow> 'd"
  refcnt_update :: "nat \<Rightarrow> int \<Rightarrow> 'd \<Rightarrow> 'd"
  tx_buffer :: "int \<Rightarrow> int \<times> wire_msg \<Rightarrow> 'd \<Rightarrow> int \<times> 'd"
  tx_buffer_flush :: "int \<Rightarrow> 'd \<Rightarrow> int \<times> 'd"
  ring_enqueue :: "nat \<Rightarrow> int \<times> nat \<times> rpc \<Rightarrow> 'd \<Rightarrow> bool \<times> 'd"
  get_tsc_cycles :: "'d \<Rightarrow> int \<times> 'd"
  random_peer :: "'d \<Rightarrow> int"
  stack_entry :: "'d \<Rightarrow> raft_entry"

record 'd cyclone =
  replicas :: int
  me :: int
  me_quorum :: int
  RAFT_LOGENTRIES :: int
  ps_term :: int
  ps_voted_for :: int
  cy_log :: circular_log
  sending_checkpoints :: bool
  match_indices :: "int list"
  client_inflight :: "8 word list"
  checkpoint_idxs :: "int list"
  ae_responses :: "(msg_appendentries_response \<times> int) list"
  ae_nack_term :: int
  ae_nack_idx :: int
  ae_nack_ts :: int
  nack_timeout_cycles :: int
  ports :: int
  router :: "int list"
  pk :: "nat \<rightharpoonup> mbuf"
  dp :: 'd

definition REP_FAILED :: int where
  "REP_FAILED = - 1"

definition REP_UNKNOWN :: int where
  "REP_UNKNOWN = 0"

definition REP_SUCCESS :: int where
  "REP_SUCCESS = 1"

definition executor_threads :: nat where
  "executor_threads = 1"

definition num_quorums :: int where
  "num_quorums = 1"

definition q_raft :: int where
  "q_raft = 0"

definition q_dispatcher :: int where
  "q_dispatcher = 1"

definition PKT_BURST :: nat where
  "PKT_BURST = 32"

definition MSG_APPENDENTRIES :: int where
  "MSG_APPENDENTRIES = 3"

definition RPC_REQ_NODEADDFINAL :: int where
  "RPC_REQ_NODEADDFINAL = 3"

definition core_to_quorum :: "int \<Rightarrow> int" where
  "core_to_quorum core_id = core_id mod num_quorums"

definition is_multicore_rpc :: "rpc \<Rightarrow> bool" where
  "is_multicore_rpc r \<longleftrightarrow> and (rpc_core_mask r) (rpc_core_mask r - 1) \<noteq> 0"

definition my_q :: "'d cyclone \<Rightarrow> int \<Rightarrow> int" where
  "my_q cy q = ports cy + q * num_quorums + me_quorum cy"

definition replica_mc :: "'d cyclone \<Rightarrow> int \<Rightarrow> int res" where
  "replica_mc cy index = arr_get (router cy) index"

text \<open>The counter is a \<open>char\<close> and wraps.\<close>

definition add_inflight :: "int \<Rightarrow> 'd cyclone \<Rightarrow> 'd cyclone res" where
  "add_inflight client cy =
     andthen (arr_get (client_inflight cy) client) (\<lambda>n.
     andthen (arr_set (client_inflight cy) client (n + 1)) (\<lambda>xs. Inr (cy\<lparr>client_inflight := xs\<rparr>)))"

text \<open>Reading and writing the packet at an address.\<close>

definition get_pkt :: "'d cyclone \<Rightarrow> nat \<Rightarrow> mbuf res" where
  "get_pkt cy m = (case pk cy m of None \<Rightarrow> Inl Null_deref | Some b \<Rightarrow> Inr b)"

definition upd_pkt :: "nat \<Rightarrow> (mbuf \<Rightarrow> mbuf) \<Rightarrow> 'd cyclone \<Rightarrow> 'd cyclone res" where
  "upd_pkt m f cy = andthen (get_pkt cy m) (\<lambda>b. Inr (cy\<lparr>pk := (pk cy)(m \<mapsto> f b)\<rparr>))"

definition free_pkt :: "'d dpdk \<Rightarrow> nat \<Rightarrow> 'd cyclone \<Rightarrow> 'd cyclone" where
  "free_pkt env m cy = cy\<lparr>dp := pktmbuf_free env m (dp cy)\<rparr>"

text \<open>The configuration change behind the first request of a packet.\<close>

definition first_cfg_node :: "mbuf \<Rightarrow> int res" where
  "first_cfg_node b = (case mb_segs b of (r # _) # _ \<Rightarrow> Inr (rpc_cfg_node r) | _ \<Rightarrow> Inl Undefined_behaviour)"

subsection \<open>Sending\<close>

definition cyclone_tx :: "'d dpdk \<Rightarrow> int \<Rightarrow> int \<times> wire_msg \<Rightarrow> 'd cyclone \<Rightarrow> int \<times> 'd cyclone" where
  "cyclone_tx env q frame cy =
     (let (n1, d1) = tx_buffer env q frame (dp cy); (n2, d2) = tx_buffer_flush env q d1 in
      (if n1 + n2 \<noteq> 0 then 0 else - 1, cy\<lparr>dp := d2\<rparr>))"

text \<open>A message that is copied into a new buffer and sent on the Raft queue.\<close>

definition send_copy :: "'d dpdk \<Rightarrow> int \<Rightarrow> wire_msg \<Rightarrow> 'd cyclone \<Rightarrow> (int \<times> 'd cyclone) res" where
  "send_copy env socket msg cy =
     (let my_raft_q = my_q cy q_raft; (mb, d1) = pktmbuf_alloc env (Mempool my_raft_q) (dp cy) in
      guarded (mb \<noteq> None) (Exited (- 1)) (Inr (cyclone_tx env my_raft_q (socket, msg) (cy\<lparr>dp := d1\<rparr>))))"

definition cy_send_requestvote ::
  "'d dpdk \<Rightarrow> 'd cyclone raft_server \<Rightarrow> node_ptr \<Rightarrow> msg_requestvote \<Rightarrow> (int \<times> 'd cyclone) res" where
  "cy_send_requestvote env raft p m =
     andthen (deref raft p) (\<lambda>n.
     andthen (send_copy env (raft_node_get_udata n) (RequestVote (me (udata raft)) m) (udata raft)) (\<lambda>(_, cy).
       Inr (0, cy)))"

definition cy_send_appendentries ::
  "'d dpdk \<Rightarrow> 'd cyclone raft_server \<Rightarrow> node_ptr \<Rightarrow> msg_appendentries \<Rightarrow> (int \<times> 'd cyclone) res" where
  "cy_send_appendentries env raft p m =
     (let msg = \<lparr>pm_type = MSG_APPENDENTRIES, pm_source = me (udata raft), pm_term = ae_term m, pm_prev_log_idx = ae_prev_log_idx m,
                 pm_prev_log_term = ae_prev_log_term m, pm_leader_commit = ae_leader_commit m, pm_n_entries = 0\<rparr> in
      andthen (deref raft p) (\<lambda>n.
      andthen (send_copy env (raft_node_get_udata n) (EmptyAppend msg) (udata raft)) (\<lambda>(_, cy).
        Inr (ae_n_entries m, cy))))"

text \<open>One round of the loop of \<open>__send_appendentries_opt\<close>: the stored packet gets the current term and commit
  index, a reference and a new Ethernet header, and is buffered.\<close>

definition send_packet :: "'d dpdk \<Rightarrow> int \<Rightarrow> msg_appendentries \<Rightarrow> raft_entry \<Rightarrow> int \<times> 'd cyclone \<Rightarrow> (int \<times> 'd cyclone) res" where
  "send_packet env socket m e = (\<lambda>(tx, cy).
     let b = e_pkt e; my_raft_q = my_q cy q_raft in
     andthen (upd_pkt b (\<lambda>x. x\<lparr>mb_msg := (mb_msg x)\<lparr>pm_leader_commit := ae_leader_commit m, pm_term := ae_term m, pm_source := me cy\<rparr>\<rparr>) cy) (\<lambda>cy1.
     let (h, d1) = pktmbuf_alloc env (ExtraPool (me_quorum cy)) (dp cy1) in
     guarded (h \<noteq> None) (Exited (- 1))
       (let d2 = refcnt_update env b 1 d1; (n, d3) = tx_buffer env my_raft_q (socket, Packet b) d2 in
        Inr (tx + n, cy1\<lparr>dp := d3\<rparr>))))"

definition cy_send_appendentries_opt ::
  "'d dpdk \<Rightarrow> 'd cyclone raft_server \<Rightarrow> node_ptr \<Rightarrow> msg_appendentries \<Rightarrow> (int \<times> 'd cyclone) res" where
  "cy_send_appendentries_opt env raft p m =
     andthen (deref raft p) (\<lambda>n.
       if ae_n_entries m = 0 then cy_send_appendentries env raft p m
       else
         let pkts_out = min PKT_BURST (length (ae_entries m)) in
         andthen (foldres (send_packet env (raft_node_get_udata n) m) (take pkts_out (ae_entries m)) (0, udata raft)) (\<lambda>(tx, cy).
         let (n, d) = tx_buffer_flush env (my_q cy q_raft) (dp cy) in Inr (tx + n, cy\<lparr>dp := d\<rparr>)))"

subsection \<open>Persistence and application\<close>

definition cy_persist_vote :: "'d cyclone raft_server \<Rightarrow> int \<Rightarrow> (int \<times> 'd cyclone) res" where
  "cy_persist_vote raft vote = Inr (0, (udata raft)\<lparr>ps_voted_for := vote\<rparr>)"

definition cy_persist_term :: "'d cyclone raft_server \<Rightarrow> int \<Rightarrow> (int \<times> 'd cyclone) res" where
  "cy_persist_term raft t = Inr (0, (udata raft)\<lparr>ps_term := t\<rparr>)"

definition cy_setmatch :: "'d cyclone raft_server \<Rightarrow> int \<Rightarrow> int \<Rightarrow> (int \<times> 'd cyclone) res" where
  "cy_setmatch raft replica ety_idx =
     andthen (arr_set (match_indices (udata raft)) replica ety_idx) (\<lambda>xs. Inr (0, (udata raft)\<lparr>match_indices := xs\<rparr>))"

definition checkpoint_of :: "'d cyclone \<Rightarrow> int res" where
  "checkpoint_of cy =
     foldres (\<lambda>i c. if core_to_quorum (int i) \<noteq> me_quorum cy then Inr c
                    else andthen (arr_get (checkpoint_idxs cy) (int i)) (\<lambda>x. Inr (if x > c then x else c)))
       [0..<executor_threads] (- 1)"

definition cy_applylog ::
  "'d cyclone raft_server \<Rightarrow> raft_entry \<Rightarrow> int \<Rightarrow> (int \<times> 'd cyclone raft_server) res" where
  "cy_applylog raft ety ety_idx =
     andthen (upd_pkt (e_pkt ety) (\<lambda>b. b\<lparr>mb_wal := (mb_wal b)\<lparr>wal_rep := REP_SUCCESS\<rparr>\<rparr>) (udata raft)) (\<lambda>cy1.
     andthen (get_pkt cy1 (e_pkt ety)) (\<lambda>b.
     andthen
       (if e_type ety = RAFT_LOGTYPE_REMOVE_NODE then
          andthen (first_cfg_node b) (\<lambda>delta_node_id. guarded (delta_node_id \<noteq> me cy1) (Exited (- 1)) (Inr cy1))
        else if e_type ety = RAFT_LOGTYPE_ADD_NONVOTING_NODE then
          andthen (first_cfg_node b) (\<lambda>_. Inr (cy1\<lparr>sending_checkpoints := False\<rparr>))
        else if e_type ety = RAFT_LOGTYPE_ADD_NODE then andthen (first_cfg_node b) (\<lambda>_. Inr cy1)
        else Inr cy1) (\<lambda>cy2.
     andthen (checkpoint_of cy2) (\<lambda>checkpoint_idx.
     let raft1 = raft\<lparr>udata := cy2\<rparr> in
     Inr (0, if checkpoint_idx \<ge> 0 then raft_checkpoint raft1 checkpoint_idx else raft1)))))"

subsection \<open>The log callbacks\<close>

definition handle_cfg_change :: "raft_entry \<Rightarrow> rpc \<Rightarrow> 'd cyclone raft_server \<Rightarrow> 'd cyclone raft_server res" where
  "handle_cfg_change ety chunk raft =
     (let cy = udata raft; delta_node_id = rpc_cfg_node chunk in
      if e_type ety = RAFT_LOGTYPE_ADD_NONVOTING_NODE then
        andthen (replica_mc cy delta_node_id) (\<lambda>mc.
        andthen (raft_add_non_voting_node raft mc delta_node_id (delta_node_id = me cy)) (\<lambda>(_, raft1).
          Inr (raft1\<lparr>udata := (udata raft1)\<lparr>sending_checkpoints := True\<rparr>\<rparr>)))
      else if e_type ety = RAFT_LOGTYPE_ADD_NODE then
        andthen (replica_mc cy delta_node_id) (\<lambda>mc.
        andthen (raft_add_node raft mc delta_node_id (delta_node_id = me cy)) (\<lambda>(_, raft1). Inr raft1))
      else if e_type ety = RAFT_LOGTYPE_REMOVE_NODE then
        andthen (raft_get_node raft delta_node_id) (\<lambda>q. raft_remove_node raft q)
      else Inr raft)"

definition cyclone_is_leader :: "'d cyclone raft_server \<Rightarrow> bool" where
  "cyclone_is_leader raft \<longleftrightarrow> replicas (udata raft) = 1 \<or> raft_is_leader raft"

definition add_head :: "nat \<Rightarrow> raft_entry \<Rightarrow> raft_entry option \<Rightarrow> int \<Rightarrow> 'd cyclone \<Rightarrow> 'd cyclone res" where
  "add_head m ety ety_prev ety_index cy =
     upd_pkt m (\<lambda>b. b\<lparr>mb_msg := (mb_msg b)\<lparr>pm_type := MSG_APPENDENTRIES, pm_prev_log_idx := ety_index, pm_n_entries := 1,
          pm_prev_log_term := (case ety_prev of Some p \<Rightarrow> e_term p | None \<Rightarrow> 0)\<rparr>, mb_entry := ety\<rparr>) cy"

text \<open>The cores of a mask, lowest first, as repeated \<open>ffsl\<close> finds them.\<close>

definition core_bits :: "64 word \<Rightarrow> nat list" where
  "core_bits m = filter (bit m) [0..<64]"

definition issue_core :: "'d dpdk \<Rightarrow> nat \<Rightarrow> rpc \<Rightarrow> nat \<Rightarrow> 'd cyclone \<Rightarrow> 'd cyclone res" where
  "issue_core env saved_head r cpu cy =
     (if core_to_quorum (int cpu) \<noteq> me_quorum cy then Inr cy
      else
        let cy1 = cy\<lparr>dp := refcnt_update env saved_head 1 (dp cy)\<rparr> in
        andthen (if \<not> is_multicore_rpc r \<or> cpu = hd (core_bits (rpc_core_mask r)) then add_inflight (rpc_client_id r) cy1 else Inr cy1) (\<lambda>cy2.
        guarded (cpu < executor_threads) Out_of_bounds
          (let (room, d) = ring_enqueue env cpu (me_quorum cy, saved_head, r) (dp cy2) in
           guarded room (Exited (- 1)) (Inr (cy2\<lparr>dp := d\<rparr>)))))"

definition issue_rpc :: "'d dpdk \<Rightarrow> raft_entry \<Rightarrow> nat \<Rightarrow> rpc \<Rightarrow> 'd cyclone raft_server \<Rightarrow> 'd cyclone raft_server res" where
  "issue_rpc env e saved_head r raft =
     andthen (handle_cfg_change e r raft) (\<lambda>raft1.
       if e_type e \<noteq> RAFT_LOGTYPE_ADD_NODE then
         andthen (foldres (issue_core env saved_head r) (core_bits (rpc_core_mask r)) (udata raft1)) (\<lambda>cy.
           Inr (raft1\<lparr>udata := cy\<rparr>))
       else Inr raft1)"

text \<open>One round of the loop of \<open>__raft_logentry_offer_batch\<close>: the entry as it is rewritten, the new tail and the
  server.\<close>

definition offer_entry ::
  "'d dpdk \<Rightarrow> bool \<Rightarrow> int \<Rightarrow> raft_entry \<Rightarrow> raft_entry option \<Rightarrow> int \<Rightarrow> 'd cyclone raft_server \<Rightarrow>
     (raft_entry \<times> int \<times> 'd cyclone raft_server) res" where
  "offer_entry env is_leader idx e prev tail raft =
     (let m = e_buf e in
      andthen (if is_leader then add_head m e prev idx (udata raft) else Inr (udata raft)) (\<lambda>cy1.
      andthen (upd_pkt m (\<lambda>b. b\<lparr>mb_wal := (mb_wal b)\<lparr>wal_rep := REP_UNKNOWN, wal_leader := is_leader, wal_term := e_term e, wal_idx := idx\<rparr>\<rparr>) cy1) (\<lambda>cy2.
      guarded (m \<noteq> 0) (Exited (- 1))
        (let e1 = e\<lparr>e_id := idx, e_pkt := m, e_buf := nat tail\<rparr> in
         andthen (get_pkt cy2 m) (\<lambda>b.
         andthen (foldres (issue_rpc env e1 m) (concat (mb_segs b)) (raft\<lparr>udata := cy2\<rparr>)) (\<lambda>raft1.
         andthen (ring_offer (cy_log (udata raft1)) m tail (RAFT_LOGENTRIES (udata raft1))) (\<lambda>(tail1, log1).
         guarded (tail1 \<noteq> - 1) (Exited (- 1))
           (Inr (e1, tail1, raft1\<lparr>udata := (udata raft1)\<lparr>cy_log := log1\<rparr>\<rparr>)))))))))"

primrec offer_loop ::
  "'d dpdk \<Rightarrow> bool \<Rightarrow> int \<Rightarrow> raft_entry list \<Rightarrow> raft_entry option \<Rightarrow> int \<Rightarrow> 'd cyclone raft_server \<Rightarrow>
     (raft_entry list \<times> int \<times> 'd cyclone raft_server) res" where
  "offer_loop env is_leader idx [] prev tail raft = Inr ([], tail, raft)"
| "offer_loop env is_leader idx (e # es) prev tail raft =
     andthen (offer_entry env is_leader idx e prev tail raft) (\<lambda>(e1, tail1, raft1).
     andthen (offer_loop env is_leader (idx + 1) es (Some e1) tail1 raft1) (\<lambda>(es1, tail2, raft2). Inr (e1 # es1, tail2, raft2)))"

definition cy_logentry_offer_batch ::
  "'d dpdk \<Rightarrow> 'd cyclone raft_server \<Rightarrow> raft_entry list \<Rightarrow> raft_entry option \<Rightarrow> int \<Rightarrow>
     (int \<times> raft_entry list \<times> 'd cyclone raft_server) res" where
  "cy_logentry_offer_batch env raft es prev ety_idx =
     andthen (offer_loop env (cyclone_is_leader raft) ety_idx es prev (cl_tail (cy_log (udata raft))) raft) (\<lambda>(es1, tail, raft1).
     andthen (ring_persist (cy_log (udata raft1)) tail (RAFT_LOGENTRIES (udata raft1))) (\<lambda>(_, log1).
       Inr (0, es1, raft1\<lparr>udata := (udata raft1)\<lparr>cy_log := log1\<rparr>\<rparr>)))"

definition cy_logentry_offer ::
  "'d dpdk \<Rightarrow> 'd cyclone raft_server \<Rightarrow> raft_entry \<Rightarrow> raft_entry option \<Rightarrow> int \<Rightarrow>
     (int \<times> raft_entry \<times> 'd cyclone raft_server) res" where
  "cy_logentry_offer env raft e prev ety_idx =
     andthen (cy_logentry_offer_batch env raft [e] prev ety_idx) (\<lambda>(r, es1, raft1). Inr (r, hd es1, raft1))"

definition cy_logentry_poll_batch ::
  "'d dpdk \<Rightarrow> 'd cyclone raft_server \<Rightarrow> raft_entry list \<Rightarrow> int \<Rightarrow> int \<Rightarrow> (int \<times> 'd cyclone) res" where
  "cy_logentry_poll_batch env raft es ety_idx cnt =
     (let cy = udata raft; cy1 = cy\<lparr>cy_log := ring_poll_batch (cy_log cy) cnt (RAFT_LOGENTRIES cy)\<rparr> in
      andthen (arr_slice es 0 cnt) (\<lambda>xs. Inr (0, fold (\<lambda>e. free_pkt env (e_pkt e)) xs cy1)))"

definition cy_logentry_poll ::
  "'d dpdk \<Rightarrow> 'd cyclone raft_server \<Rightarrow> raft_entry \<Rightarrow> int \<Rightarrow> (int \<times> 'd cyclone) res" where
  "cy_logentry_poll env raft e ety_idx =
     (if ety_idx = - 1 then Inr (0, free_pkt env (e_buf e) (udata raft))
      else cy_logentry_poll_batch env raft [e] ety_idx 1)"

definition cy_logentry_pop ::
  "'d dpdk \<Rightarrow> 'd cyclone raft_server \<Rightarrow> raft_entry \<Rightarrow> int \<Rightarrow> (int \<times> 'd cyclone) res" where
  "cy_logentry_pop env raft e ety_idx =
     (let cy = udata raft; cy1 = cy\<lparr>cy_log := ring_pop (cy_log cy) (RAFT_LOGENTRIES cy)\<rparr> in
      andthen (upd_pkt (e_pkt e) (\<lambda>b. b\<lparr>mb_wal := (mb_wal b)\<lparr>wal_rep := REP_FAILED\<rparr>\<rparr>) cy1) (\<lambda>cy2.
        Inr (0, free_pkt env (e_pkt e) cy2)))"

text \<open>The table \<open>raft_funcs\<close> up to \<open>__raft_has_sufficient_logs\<close>, which calls \<open>raft_recv_entry_batch\<close> itself; that function
  never calls back for sufficient logs.\<close>

definition log_funcs :: "'d dpdk \<Rightarrow> 'd cyclone raft_cbs" where
  "log_funcs env =
     \<lparr>send_requestvote = Some (cy_send_requestvote env), send_appendentries = Some (cy_send_appendentries_opt env),
      applylog = Some cy_applylog, setmatch = Some cy_setmatch, persist_vote = Some cy_persist_vote, persist_term = Some cy_persist_term,
      log_offer = Some (cy_logentry_offer env), log_offer_batch = Some (cy_logentry_offer_batch env),
      log_poll_cb = Some (cy_logentry_poll env), log_poll_batch_cb = Some (cy_logentry_poll_batch env),
      log_pop = Some (cy_logentry_pop env), node_has_sufficient_logs = None\<rparr>"

text \<open>The completion entry and most of the new packet stay uninitialised. The length, 32, is that of the request
  and the configuration change less the size of the \<open>wal_entry_t\<close> that the packet's length leaves out.\<close>

definition cy_has_sufficient_logs ::
  "'d dpdk \<Rightarrow> 'd cyclone raft_server \<Rightarrow> node_ptr \<Rightarrow> (int \<times> 'd cyclone raft_server) res" where
  "cy_has_sufficient_logs env raft p =
     (let cy = udata raft in
      if sending_checkpoints cy then Inr (- 1, raft)
      else
        let (mb, d1) = pktmbuf_alloc env (Mempool (my_q cy q_dispatcher)) (dp cy) in
        case mb of
          None \<Rightarrow> Inl (Exited (- 1))
        | Some (m, b) \<Rightarrow>
            andthen (deref raft p) (\<lambda>n.
            andthen (case mb_segs b of
                (r # rs) # ss \<Rightarrow> Inr (b\<lparr>mb_segs := (r\<lparr>rpc_code := RPC_REQ_NODEADDFINAL, rpc_cfg_node := raft_node_get_id n\<rparr> # rs) # ss\<rparr>)
              | _ \<Rightarrow> Inl Undefined_behaviour) (\<lambda>b1.
            let raft1 = raft\<lparr>udata := cy\<lparr>dp := d1, pk := (pk cy)(m \<mapsto> b1)\<rparr>\<rparr>;
                completion_entry = (stack_entry env d1)\<lparr>e_id := 1, e_buf := m, e_len := 32, e_type := RAFT_LOGTYPE_ADD_NODE\<rparr> in
            andthen (raft_recv_entry_batch (log_funcs env) (random_peer env d1) raft1 [completion_entry] False) (\<lambda>(e, _, raft2).
              Inr (0, if e \<noteq> 0 then raft2\<lparr>udata := free_pkt env m (udata raft2)\<rparr> else raft2)))))"

definition raft_funcs :: "'d dpdk \<Rightarrow> 'd cyclone raft_cbs" where
  "raft_funcs env = (log_funcs env)\<lparr>node_has_sufficient_logs := Some (cy_has_sufficient_logs env)\<rparr>"

subsection \<open>Setup\<close>

text \<open>What \<open>cyclone_setup\<close> reads from the configuration file. The argument \<open>cy\<close> is the new structure with whatever its
  fields hold, and the global state; the file for the persistent state is created and mapped without an error, and is zero.\<close>

record cy_config =
  cfg_logsize :: int
  cfg_replicas :: int
  cfg_active :: "int list"

definition cyclone_new :: "cy_config \<Rightarrow> int \<Rightarrow> int \<Rightarrow> 'd cyclone \<Rightarrow> 'd cyclone" where
  "cyclone_new cfg quorum_id my_id cy =
     cy\<lparr>RAFT_LOGENTRIES := c_div (cfg_logsize cfg) 8, replicas := cfg_replicas cfg, me := my_id, me_quorum := quorum_id,
        match_indices := replicate (nat (cfg_replicas cfg)) (- 1)\<rparr>"

definition cyclone_pstate :: "'d cyclone \<Rightarrow> 'd cyclone" where
  "cyclone_pstate cy =
     cy\<lparr>ps_term := 0, ps_voted_for := - 1,
        cy_log := \<lparr>cl_head = 0, cl_tail = 0, cl_data = replicate (nat (RAFT_LOGENTRIES cy)) 0\<rparr>\<rparr>"

definition cyclone_setup :: "cy_config \<Rightarrow> int \<Rightarrow> int \<Rightarrow> 'd cyclone \<Rightarrow> 'd cyclone raft_server res" where
  "cyclone_setup cfg quorum_id my_id cy0 =
     (let cy1 = cyclone_pstate (cyclone_new cfg quorum_id my_id cy0);
          raft0 = raft_set_multi_inflight (raft_new cy1);
          raft1 = raft_set_log_target (raft_set_nack_timeout (raft_set_request_timeout (raft_set_election_timeout raft0 10000) 1000) 1000) 1000 in
      andthen (foldres (\<lambda>nodeidx raft.
          andthen (replica_mc cy1 nodeidx) (\<lambda>mc.
          andthen (raft_add_node raft mc nodeidx (nodeidx = my_id)) (\<lambda>(_, raft'). Inr raft'))) (cfg_active cfg) raft1) (\<lambda>raft2.
      let raft3 = raft2\<lparr>udata := (udata raft2)\<lparr>sending_checkpoints := False\<rparr>\<rparr> in
      if my_id \<notin> set (cfg_active cfg) then
        andthen (replica_mc cy1 my_id) (\<lambda>mc.
        andthen (raft_add_non_voting_node raft3 mc my_id True) (\<lambda>(_, raft4). Inr raft4))
      else Inr raft3))"

end
