(* ===== verification/CycloneInv.thy ===== *)
theory CycloneInv
  imports Cyclone RaftInv
begin

text \<open>
  Cyclone's callbacks keep the contract of the Raft library: the locale \<open>raft_callbacks\<close> is interpreted
  on them. The second part relates the log of the library to the persistent ring of packets.
\<close>

subsection \<open>The parts of the state that a callback keeps\<close>

text \<open>\<open>same\<close>, and neither the ring nor the persistent term and vote change.\<close>

definition kept :: "'d cyclone raft_server \<Rightarrow> 'd cyclone raft_server \<Rightarrow> bool" where
  "kept s s' \<longleftrightarrow> same s s' \<and> cy_log (udata s') = cy_log (udata s) \<and> RAFT_LOGENTRIES (udata s') = RAFT_LOGENTRIES (udata s)
     \<and> ps_term (udata s') = ps_term (udata s) \<and> ps_voted_for (udata s') = ps_voted_for (udata s)"

definition cy_kept :: "'d cyclone \<Rightarrow> 'd cyclone \<Rightarrow> bool" where
  "cy_kept cy cy' \<longleftrightarrow> cy_log cy' = cy_log cy \<and> RAFT_LOGENTRIES cy' = RAFT_LOGENTRIES cy
     \<and> ps_term cy' = ps_term cy \<and> ps_voted_for cy' = ps_voted_for cy"

lemma kept_refl [simp]: "kept s s" by (simp add: kept_def)

lemma kept_trans: "kept s1 s2 \<Longrightarrow> kept s2 s3 \<Longrightarrow> kept s1 s3"
  by (auto simp: kept_def intro: same_trans)

lemma cy_kept_refl [simp]: "cy_kept cy cy" by (simp add: cy_kept_def)

lemma cy_kept_trans: "cy_kept a b \<Longrightarrow> cy_kept b c \<Longrightarrow> cy_kept a c"
  by (simp add: cy_kept_def)

lemma kept_udata [simp]: "kept s (s\<lparr>udata := cy\<rparr>) \<longleftrightarrow> cy_kept (udata s) cy"
  by (auto simp: kept_def cy_kept_def)

lemma cy_kept_dp [simp]: "cy_kept a (b\<lparr>dp := d\<rparr>) \<longleftrightarrow> cy_kept a b" "cy_kept (a\<lparr>dp := d\<rparr>) = cy_kept a"
  by (simp_all add: cy_kept_def fun_eq_iff)

lemma upd_pkt_kept: "holds (upd_pkt m f cy) (cy_kept cy)"
  by (auto simp: upd_pkt_def holds_iff andthen_Inr_iff cy_kept_def)

lemma add_inflight_kept: "holds (add_inflight c cy) (cy_kept cy)"
  by (auto simp: add_inflight_def holds_iff andthen_Inr_iff cy_kept_def)

lemma free_pkt_kept [simp]: "cy_kept a (free_pkt env m b) \<longleftrightarrow> cy_kept a b"
  by (simp add: free_pkt_def cy_kept_def)

lemma add_node_kept: "holds (raft_add_node s ud i self) (\<lambda>(p, s'). same s s' \<and> udata s' = udata s)"
  by (auto simp: raft_add_node_def wp Let_def split: option.split intro!: holdsI)

lemma add_non_voting_node_kept: "holds (raft_add_non_voting_node s ud i self) (\<lambda>(p, s'). same s s' \<and> udata s' = udata s)"
  unfolding raft_add_non_voting_node_def sat_andthen[of _ "raft_add_node _ _ _ _"]
  by (rule sat_mono[OF add_node_kept]) (auto simp: wp split: option.split)

lemma remove_node_kept: "holds (raft_remove_node s q) (\<lambda>s'. same s s' \<and> udata s' = udata s)"
  by (simp add: raft_remove_node_def wp Let_def)

lemma handle_cfg_change_kept: "holds (handle_cfg_change e r s) (kept s)"
  unfolding handle_cfg_change_def Let_def holds_iff
  by (auto simp: andthen_Inr_iff kept_def split: if_splits dest!: add_node_kept[unfolded holds_iff, rule_format]
      add_non_voting_node_kept[unfolded holds_iff, rule_format] remove_node_kept[unfolded holds_iff, rule_format])

lemma issue_core_kept: "holds (issue_core env m r c cy) (cy_kept cy)"
proof -
  let ?cy = "cy\<lparr>dp := refcnt_update env m 1 (dp cy)\<rparr>"
  have count: "holds (if b then add_inflight (rpc_client_id r) ?cy else Inr ?cy) (cy_kept cy)" for b
    using add_inflight_kept[of "rpc_client_id r" ?cy] by simp
  show ?thesis
    unfolding issue_core_def Let_def
  proof (rule holds_ifI)
    show "holds (andthen (if \<not> is_multicore_rpc r \<or> c = hd (core_bits (rpc_core_mask r)) then add_inflight (rpc_client_id r) ?cy else Inr ?cy) (\<lambda>cy2.
       guarded (c < executor_threads) Out_of_bounds (case ring_enqueue env c (me_quorum cy, m, r) (dp cy2) of (room, d) \<Rightarrow>
         guarded room (Exited (- 1)) (Inr (cy2\<lparr>dp := d\<rparr>))))) (cy_kept cy)"
      unfolding sat_andthen by (rule sat_mono[OF count]) (simp add: wp split_def)
  qed simp
qed

lemma issue_rpc_kept: "holds (issue_rpc env e m r s) (kept s)"
  unfolding issue_rpc_def sat_andthen
proof (rule sat_mono[OF handle_cfg_change_kept], goal_cases)
  case (1 s1)
  have cores: "holds (foldres (issue_core env m r) cs (udata s1)) (cy_kept (udata s1))" for cs
    by (rule sat_foldres[where I = "cy_kept (udata s1)"]) (auto intro: sat_mono[OF issue_core_kept] cy_kept_trans)
  show ?case
    using 1(2) by (auto simp: wp intro!: sat_mono[OF cores] kept_trans[OF 1(2)])
qed

subsection \<open>Offering entries\<close>

text \<open>What one round does: the entry keeps its term and refers to its packet, and the packet is written behind the
  tail of the ring.\<close>

lemma offer_entry_ok:
  "holds (offer_entry env lead idx e prev tail s) (\<lambda>(e1, tail1, s1). same s s1 \<and> e_term e1 = e_term e \<and> e_pkt e1 = e_buf e
     \<and> RAFT_LOGENTRIES (udata s1) = RAFT_LOGENTRIES (udata s) \<and> tail1 \<noteq> - 1
     \<and> ring_offer (cy_log (udata s)) (e_buf e) tail (RAFT_LOGENTRIES (udata s)) = Inr (tail1, cy_log (udata s1)))"
proof -
  have head: "holds (if lead then add_head m e prev idx cy else Inr cy) (cy_kept cy)" for m cy
    by (simp add: add_head_def upd_pkt_kept)
  have rpcs: "holds (foldres (issue_rpc env e1 m) rs s) (kept s)" for e1 m rs s
    by (rule sat_foldres[where I = "kept s"]) (auto intro: sat_mono[OF issue_rpc_kept] kept_trans)
  show ?thesis
    unfolding offer_entry_def Let_def sat_andthen
  proof (rule sat_mono[OF head], goal_cases)
    case (1 cy1)
    then have cy1: "cy_kept (udata s) cy1" by simp
    show ?case
    proof (rule sat_mono[OF upd_pkt_kept], goal_cases)
      case (1 cy2)
      then have cy2: "kept s (s\<lparr>udata := cy2\<rparr>)" using cy1 by (auto intro: cy_kept_trans)
      have rest: "holds (andthen (foldres (issue_rpc env e1 m) rs (s\<lparr>udata := cy2\<rparr>)) (\<lambda>raft1.
          andthen (ring_offer (cy_log (udata raft1)) m tail (RAFT_LOGENTRIES (udata raft1))) (\<lambda>(tail1, log1).
          guarded (tail1 \<noteq> - 1) (Exited (- 1)) (Inr (e1, tail1, raft1\<lparr>udata := (udata raft1)\<lparr>cy_log := log1\<rparr>\<rparr>)))))
        (\<lambda>(e1, tail1, s1). same s s1 \<and> e_term e1 = e_term e \<and> e_pkt e1 = m \<and> RAFT_LOGENTRIES (udata s1) = RAFT_LOGENTRIES (udata s) \<and> tail1 \<noteq> - 1
           \<and> ring_offer (cy_log (udata s)) m tail (RAFT_LOGENTRIES (udata s)) = Inr (tail1, cy_log (udata s1)))"
        if "e_term e1 = e_term e" "e_pkt e1 = m" for e1 m rs
        unfolding sat_andthen[of _ "foldres _ _ _"]
      proof (rule sat_mono[OF rpcs], goal_cases)
        case (1 s1)
        then have "kept s s1" using cy2 kept_trans by blast
        then show ?case using that by (auto simp: holds_iff andthen_Inr_iff guarded_def kept_def split: if_splits)
      qed
      show ?case
        unfolding sat_guarded by (cases "get_pkt cy2 (e_buf e)") (auto intro!: rest)
    qed
  qed
qed

text \<open>The whole loop is the loop of offers to the ring.\<close>

lemma offer_loop_ok:
  "holds (offer_loop env lead idx es prev tail s) (\<lambda>(es1, tail1, s1). same s s1 \<and> map e_term es1 = map e_term es \<and> map e_pkt es1 = map e_buf es
     \<and> RAFT_LOGENTRIES (udata s1) = RAFT_LOGENTRIES (udata s)
     \<and> ring_offers (map e_buf es) tail (RAFT_LOGENTRIES (udata s)) (cy_log (udata s)) = Inr (tail1, cy_log (udata s1)))"
proof (induction es arbitrary: idx prev tail s)
  case (Cons e es)
  show ?case
    unfolding offer_loop.simps sat_andthen
  proof (rule sat_mono[OF offer_entry_ok], goal_cases)
    case (1 x)
    then obtain e1 tail1 s1 where x: "x = (e1, tail1, s1)" by (cases x)
    show ?case
      unfolding x prod.case sat_andthen
      by (rule sat_mono[OF Cons.IH]) (use 1(2) in \<open>auto simp: x guarded_def intro: same_trans\<close>)
  qed
qed simp

lemma offer_batch_ok:
  "holds (cy_logentry_offer_batch env s es prev idx) (\<lambda>(r, es1, s1). same s s1 \<and> map e_term es1 = map e_term es \<and> map e_pkt es1 = map e_buf es
     \<and> RAFT_LOGENTRIES (udata s1) = RAFT_LOGENTRIES (udata s)
     \<and> ring_append (map e_buf es) (RAFT_LOGENTRIES (udata s)) (cy_log (udata s)) = Inr (cy_log (udata s1)))"
  unfolding cy_logentry_offer_batch_def sat_andthen
proof (rule sat_mono[OF offer_loop_ok], goal_cases)
  case (1 x)
  then obtain es1 tail s1 where x: "x = (es1, tail, s1)" by (cases x)
  then show ?case using 1(2) by (auto simp: holds_iff andthen_Inr_iff ring_append_def)
qed

lemma offer_ok:
  "holds (cy_logentry_offer env s e prev idx) (\<lambda>(r, e1, s1). same s s1 \<and> e_term e1 = e_term e \<and> e_pkt e1 = e_buf e
     \<and> RAFT_LOGENTRIES (udata s1) = RAFT_LOGENTRIES (udata s)
     \<and> ring_append [e_buf e] (RAFT_LOGENTRIES (udata s)) (cy_log (udata s)) = Inr (cy_log (udata s1)))"
  unfolding cy_logentry_offer_def sat_andthen
  by (rule sat_mono[OF offer_batch_ok]) auto

subsection \<open>The contract of the Raft library\<close>

lemma log_funcs_simps [simp]:
  "send_requestvote (log_funcs env) = Some (cy_send_requestvote env)" "send_appendentries (log_funcs env) = Some (cy_send_appendentries_opt env)"
  "applylog (log_funcs env) = Some cy_applylog" "setmatch (log_funcs env) = Some cy_setmatch"
  "persist_vote (log_funcs env) = Some cy_persist_vote" "persist_term (log_funcs env) = Some cy_persist_term"
  "log_offer (log_funcs env) = Some (cy_logentry_offer env)" "log_offer_batch (log_funcs env) = Some (cy_logentry_offer_batch env)"
  "log_poll_cb (log_funcs env) = Some (cy_logentry_poll env)" "log_poll_batch_cb (log_funcs env) = Some (cy_logentry_poll_batch env)"
  "log_pop (log_funcs env) = Some (cy_logentry_pop env)" "node_has_sufficient_logs (log_funcs env) = None"
  by (simp_all add: log_funcs_def)

lemma applylog_good:
  assumes "raft_inv s"
  shows "holds (cy_applylog s e i) (\<lambda>(r, s'). good s s' \<and> commit_idx s' = commit_idx s \<and> last_applied_idx s' = last_applied_idx s)"
proof -
  have inv: "raft_inv (s\<lparr>udata := cy\<rparr>)" "good s (s\<lparr>udata := cy\<rparr>)" for cy
    using same_good[OF assms, of "s\<lparr>udata := cy\<rparr>"] by (auto simp: good_def)
  then have "good s (raft_checkpoint (s\<lparr>udata := cy\<rparr>) k)" for cy k
    by (blast intro: good_trans checkpoint_good)
  then have "good s (if b then raft_checkpoint (s\<lparr>udata := cy\<rparr>) k else s\<lparr>udata := cy\<rparr>)" for b cy k using inv by simp
  then show ?thesis
    unfolding cy_applylog_def Let_def sat_andthen by (intro holdsI) (auto simp: raft_checkpoint_def)
qed

interpretation log_funcs: raft_callbacks "log_funcs env" for env :: "'d dpdk"
proof
  fix f s c prev i
  assume "log_offer (log_funcs env) = Some f"
  then show "holds (f s c prev i) (\<lambda>(r, c', s'). rlog s' = rlog s \<and> core s' = core s \<and> e_term c' = e_term c)"
    by (auto intro!: sat_mono[OF offer_ok] simp: same_def)
next
  fix g s cs prev i
  assume "log_offer_batch (log_funcs env) = Some g"
  then show "holds (g s cs prev i) (\<lambda>(r, cs', s'). rlog s' = rlog s \<and> core s' = core s \<and> map e_term cs' = map e_term cs)"
    by (auto intro!: sat_mono[OF offer_batch_ok] simp: same_def)
qed (auto simp: holds_iff applylog_good[unfolded holds_iff])

lemma sufficient_logs_good:
  assumes "raft_inv s"
  shows "holds (cy_has_sufficient_logs env s p) (\<lambda>(r, s'). good s s')"
proof -
  have send: "holds (andthen (raft_recv_entry_batch (log_funcs env) rnd (s\<lparr>udata := cy\<rparr>) [e] False) (\<lambda>(err, _, s2).
      Inr (0 :: int, if err \<noteq> 0 then s2\<lparr>udata := free_pkt env m (udata s2)\<rparr> else s2))) (\<lambda>(r, s'). good s s')" for rnd cy e m
  proof -
    have inv: "raft_inv (s\<lparr>udata := cy\<rparr>)" "good s (s\<lparr>udata := cy\<rparr>)"
      using same_good[OF assms, of "s\<lparr>udata := cy\<rparr>"] by (auto simp: good_def)
    show ?thesis
      unfolding sat_andthen
    proof (rule sat_mono[OF log_funcs.recv_entry_batch_good[OF inv(1)]], goal_cases)
      case (2 x)
      then show ?case by (cases x) (auto intro: good_trans[OF inv(2)] simp: good_trans[OF inv(2)])
    qed simp
  qed
  have segs: "holds (andthen (case ss of [] \<Rightarrow> Inl Undefined_behaviour | [] # a \<Rightarrow> Inl Undefined_behaviour | (r # rs) # a \<Rightarrow> Inr (g r rs a)) k) Q"
    if "\<And>r rs a. holds (k (g r rs a)) Q" for ss :: "rpc list list" and g :: "rpc \<Rightarrow> rpc list \<Rightarrow> rpc list list \<Rightarrow> mbuf" and k :: "mbuf \<Rightarrow> (int \<times> 'a cyclone raft_server) res" and Q
    using that by (auto split: list.splits)
  show ?thesis
    unfolding cy_has_sufficient_logs_def Let_def
    by (auto simp: good_refl[OF assms] sat_deref sat_andthen[of _ "deref _ _"] intro!: segs send split: prod.splits option.splits)
qed

lemma raft_funcs_simps [simp]:
  "log_offer (raft_funcs env) = log_offer (log_funcs env)" "log_offer_batch (raft_funcs env) = log_offer_batch (log_funcs env)"
  "log_poll_cb (raft_funcs env) = log_poll_cb (log_funcs env)" "log_poll_batch_cb (raft_funcs env) = log_poll_batch_cb (log_funcs env)"
  "log_pop (raft_funcs env) = log_pop (log_funcs env)" "applylog (raft_funcs env) = applylog (log_funcs env)"
  "send_appendentries (raft_funcs env) = send_appendentries (log_funcs env)"
  "node_has_sufficient_logs (raft_funcs env) = Some (cy_has_sufficient_logs env)"
  by (simp_all add: raft_funcs_def)

interpretation cyclone_raft: raft_callbacks "raft_funcs env" for env :: "'d dpdk"
proof
  show "\<And>f s c prev i. log_offer (raft_funcs env) = Some f \<Longrightarrow>
      holds (f s c prev i) (\<lambda>(r, c', s'). rlog s' = rlog s \<and> core s' = core s \<and> e_term c' = e_term c)"
    using log_funcs.offer_log by simp
  show "\<And>g s cs prev i. log_offer_batch (raft_funcs env) = Some g \<Longrightarrow>
      holds (g s cs prev i) (\<lambda>(r, cs', s'). rlog s' = rlog s \<and> core s' = core s \<and> map e_term cs' = map e_term cs)"
    using log_funcs.offer_batch_log by simp
  show "\<And>g s p. node_has_sufficient_logs (raft_funcs env) = Some g \<Longrightarrow> raft_inv s \<Longrightarrow> holds (g s p) (\<lambda>(r, s'). good s s')"
    using sufficient_logs_good by auto
qed (auto simp: holds_iff applylog_good[unfolded holds_iff])

text \<open>The callback for sufficient logs runs with the table without itself; the whole table does the same.\<close>

lemma send_appendentries_table: "raft_send_appendentries (raft_funcs env) = raft_send_appendentries (log_funcs env)"
  by (simp add: fun_eq_iff raft_send_appendentries_def)

lemma send_round_table: "send_round (raft_funcs env) start n i s = send_round (log_funcs env) start n i s"
  by (induction n arbitrary: i s) (simp_all add: send_appendentries_table cong: if_cong)

lemma recv_entry_batch_table: "raft_recv_entry_batch (raft_funcs env) = raft_recv_entry_batch (log_funcs env)"
  by (simp add: fun_eq_iff raft_recv_entry_batch_def raft_append_entry_batch_def log_append_batch_def send_to_peers_def send_round_table cong: if_cong option.case_cong)

subsection \<open>The log and the persistent ring\<close>

text \<open>The ring holds the packets of the entries of the log, in order.\<close>

definition mirrors :: "'d cyclone raft_server \<Rightarrow> bool" where
  "mirrors s \<longleftrightarrow> ring_wf (RAFT_LOGENTRIES (udata s)) (cy_log (udata s))
     \<and> ring_list (RAFT_LOGENTRIES (udata s)) (cy_log (udata s)) = map e_pkt (log_list (rlog s))"

lemma ring_append_Inr:
  assumes "ring_wf N log" "ring_append ps N log = Inr log'"
  shows "ring_wf N log' \<and> ring_list N log' = ring_list N log @ ps"
  using ring_append_room[OF assms(1), of ps] ring_append_full[OF assms(1), of ps] assms(2)
  by (cases "int (length (ring_list N log)) + int (length ps) < N") auto

lemma append_ring:
  "holds (log_append_batch (raft_funcs env) s c) (\<lambda>(r, c', s'). map e_pkt c' = map e_buf c \<and> RAFT_LOGENTRIES (udata s') = RAFT_LOGENTRIES (udata s)
     \<and> ring_append (map e_buf c) (RAFT_LOGENTRIES (udata s)) (cy_log (udata s)) = Inr (cy_log (udata s')))"
proof -
  have offer: "holds (cy_logentry_offer_batch env (s\<lparr>rlog := l\<rparr>) c prev i) (\<lambda>(r, c', s'). map e_pkt c' = map e_buf c \<and> RAFT_LOGENTRIES (udata s') = RAFT_LOGENTRIES (udata s)
     \<and> ring_append (map e_buf c) (RAFT_LOGENTRIES (udata s)) (cy_log (udata s)) = Inr (cy_log (udata s')))" for l prev i
    by (rule sat_mono[OF offer_batch_ok]) auto
  show ?thesis
    unfolding log_append_batch_def raft_funcs_simps log_funcs_simps Let_def option.case sat_andthen
    by (intro holdsI) (auto simp: andthen_Inr_iff dest!: offer[unfolded holds_iff, rule_format])
qed

lemma append_batch_mirrors:
  assumes "mirrors s" "log_wf (rlog s)" "c \<noteq> []"
  shows "holds (log_append_batch (raft_funcs env) s c) (\<lambda>(r, c', s'). mirrors s')"
  using cyclone_raft.append_batch_ok[OF assms(2,3), of env] append_ring[of env s c] assms(1)
  by (auto simp: holds_iff mirrors_def dest: ring_append_Inr)


lemma append_entry_mirrors:
  assumes "mirrors s" "log_wf (rlog s)"
  shows "holds (log_append_entry (raft_funcs env) s c) (\<lambda>(r, c', s'). mirrors s')"
proof -
  have offer: "holds (cy_logentry_offer env (s\<lparr>rlog := l\<rparr>) c prev i) (\<lambda>(r, c', s'). e_pkt c' = e_buf c \<and> RAFT_LOGENTRIES (udata s') = RAFT_LOGENTRIES (udata s)
     \<and> ring_append [e_buf c] (RAFT_LOGENTRIES (udata s)) (cy_log (udata s)) = Inr (cy_log (udata s')))" for l prev i
    by (rule sat_mono[OF offer_ok]) auto
  have ring: "holds (log_append_entry (raft_funcs env) s c) (\<lambda>(r, c', s'). e_pkt c' = e_buf c \<and> RAFT_LOGENTRIES (udata s') = RAFT_LOGENTRIES (udata s)
     \<and> ring_append [e_buf c] (RAFT_LOGENTRIES (udata s)) (cy_log (udata s)) = Inr (cy_log (udata s')))"
    unfolding log_append_entry_def raft_funcs_simps log_funcs_simps Let_def option.case sat_andthen
    by (intro holdsI) (auto simp: andthen_Inr_iff dest!: offer[unfolded holds_iff, rule_format])
  show ?thesis
  proof (rule sat_mono[OF sat_conj_holds[OF ring cyclone_raft.append_entry_ok[OF assms(2)]]], goal_cases)
    case (1 x)
    then show ?case using ring_append_Inr[of "RAFT_LOGENTRIES (udata s)" "cy_log (udata s)"] assms(1) by (cases x) (auto simp: mirrors_def)
  qed
qed

lemma pop_mirrors:
  assumes "mirrors s" "log_wf (rlog s)" "l_front (rlog s) < l_back (rlog s)"
    and "cy_logentry_pop env s0 e i = Inr (r, cy)" "udata s0 = udata s"
    and "s' = s\<lparr>udata := cy, rlog := (rlog s)\<lparr>l_back := l_back (rlog s) - 1, l_count := l_count (rlog s) - 1\<rparr>\<rparr>"
  shows "mirrors s'"
proof -
  let ?N = "RAFT_LOGENTRIES (udata s)"
  have cy: "cy_log cy = ring_pop (cy_log (udata s)) ?N" "RAFT_LOGENTRIES cy = ?N"
    using assms(4,5) by (auto simp: cy_logentry_pop_def Let_def upd_pkt_def andthen_Inr_iff free_pkt_def)
  have "log_list (rlog s) \<noteq> []" using assms(2,3) by (simp add: log_list_def)
  then show ?thesis
    using ring_pop_ok[of ?N "cy_log (udata s)"] assms(1) drop_last_ok[OF assms(2,3)]
    by (simp add: mirrors_def assms(6) cy map_butlast)
qed

lemma delete_loop_mirrors:
  assumes "mirrors s" "log_wf (rlog s)" "int n \<le> l_back (rlog s) - l_front (rlog s)"
  shows "holds (log_delete_loop (raft_funcs env) n s) mirrors"
  using assms
proof (induction n arbitrary: s)
  case (Suc n)
  have ne: "l_front (rlog s) < l_back (rlog s)" using Suc.prems(3) by simp
  let ?l = "(rlog s)\<lparr>l_back := l_back (rlog s) - 1, l_count := l_count (rlog s) - 1\<rparr>"
  have rest: "holds (log_delete_loop (raft_funcs env) n (s\<lparr>udata := cy, rlog := ?l\<rparr>)) mirrors"
    if "cy_logentry_pop env (s\<lparr>rlog := (rlog s)\<lparr>l_back := l_back (rlog s) - 1\<rparr>\<rparr>) e i = Inr (r, cy)" for e i r cy
    using pop_mirrors[OF Suc.prems(1,2) ne that] drop_last_ok[OF Suc.prems(2) ne] Suc.prems(3) by (intro Suc.IH) auto
  show ?case
    unfolding log_delete_loop.simps Let_def raft_funcs_simps log_funcs_simps option.case sat_andthen sat_with_udata
    by (intro holdsI) (use rest in \<open>auto simp: holds_iff\<close>)
qed simp


lemma delete_mirrors:
  assumes "mirrors s" "log_wf (rlog s)" "l_front (rlog s) < idx" "idx \<le> l_back (rlog s) + 1"
  shows "holds (log_delete (raft_funcs env) s idx) mirrors"
  unfolding log_delete_def sat_guarded using delete_loop_mirrors[OF assms(1,2)] assms(3,4) by simp

lemma fold_free_ring:
  "cy_log (fold (\<lambda>e. free_pkt env (e_pkt e)) es cy) = cy_log cy" "RAFT_LOGENTRIES (fold (\<lambda>e. free_pkt env (e_pkt e)) es cy) = RAFT_LOGENTRIES cy"
  by (induction es arbitrary: cy) (simp_all add: free_pkt_def)

lemma poll_batch_ring:
  assumes "cy_logentry_poll_batch env s es i n = Inr (r, cy)" "ring_wf (RAFT_LOGENTRIES (udata s)) (cy_log (udata s))"
    and "0 \<le> n" "n \<le> int (length (ring_list (RAFT_LOGENTRIES (udata s)) (cy_log (udata s))))"
  shows "RAFT_LOGENTRIES cy = RAFT_LOGENTRIES (udata s)" "ring_wf (RAFT_LOGENTRIES (udata s)) (cy_log cy)"
    "ring_list (RAFT_LOGENTRIES (udata s)) (cy_log cy) = drop (nat n) (ring_list (RAFT_LOGENTRIES (udata s)) (cy_log (udata s)))"
  using assms ring_poll_batch_ok[OF assms(2-4)] by (auto simp: cy_logentry_poll_batch_def Let_def andthen_Inr_iff fold_free_ring)

lemma poll_batch_mirrors:
  assumes "mirrors s" "log_wf (rlog s)" "0 < cnt" "l_front (rlog s) < l_back (rlog s)"
  shows "holds (log_poll_batch (raft_funcs env) s cnt) mirrors"
proof -
  let ?N = "RAFT_LOGENTRIES (udata s)" and ?n = "min cnt (l_count (rlog s))"
  let ?p = "l_size (rlog s) - l_front (rlog s) mod l_size (rlog s)"
  note ring = assms(1)[unfolded mirrors_def]
  have len: "int (length (ring_list ?N (cy_log (udata s)))) = l_count (rlog s)"
    using ring assms(2) by (simp add: log_list_length) (simp add: log_wf_def)
  have n: "0 \<le> ?n" "?n \<le> l_count (rlog s)" using assms(2,3) by (auto simp: log_wf_def)
  have "0 < l_size (rlog s)" using assms(2) by (simp add: log_wf_def)
  then have p: "0 \<le> ?p" using pos_mod_bound[of "l_size (rlog s)" "l_front (rlog s)"] by linarith
  have fin: "mirrors (s\<lparr>udata := cy, rlog := (rlog s)\<lparr>l_front := l_front (rlog s) + ?n, l_count := l_count (rlog s) - ?n\<rparr>\<rparr>)"
    if "RAFT_LOGENTRIES cy = ?N" "ring_wf ?N (cy_log cy)" "ring_list ?N (cy_log cy) = drop (nat ?n) (ring_list ?N (cy_log (udata s)))" for cy
    using that ring drop_front_ok(2)[OF assms(2) n] by (simp add: mirrors_def drop_map)
  show ?thesis
  proof (cases "?n \<le> ?p")
    case True
    have "mirrors (s\<lparr>udata := cy, rlog := (rlog s)\<lparr>l_front := l_front (rlog s) + ?n, l_count := l_count (rlog s) - ?n\<rparr>\<rparr>)"
      if "cy_logentry_poll_batch env s es i ?n = Inr (r, cy)" for es i r cy
      using poll_batch_ring[OF that] ring n len by (intro fin) auto
    then show ?thesis
      unfolding log_poll_batch_eq[OF assms(2-4)] using True by (auto simp: holds_iff andthen_Inr_iff with_udata_def)
  next
    case False
    have "mirrors (s\<lparr>udata := cy2, rlog := (rlog s)\<lparr>l_front := l_front (rlog s) + ?n, l_count := l_count (rlog s) - ?n\<rparr>\<rparr>)"
      if 1: "cy_logentry_poll_batch env s es i ?p = Inr (r, cy1)" and 2: "cy_logentry_poll_batch env (s\<lparr>udata := cy1\<rparr>) es2 i2 (?n - ?p) = Inr (r2, cy2)"
      for es i r cy1 es2 i2 r2 cy2
    proof -
      have cy1: "RAFT_LOGENTRIES cy1 = ?N" "ring_wf ?N (cy_log cy1)" "ring_list ?N (cy_log cy1) = drop (nat ?p) (ring_list ?N (cy_log (udata s)))"
        using poll_batch_ring[OF 1] ring len p n False by auto
      have "nat (?n - ?p) + nat ?p = nat ?n" using False p by simp
      then show ?thesis
        using poll_batch_ring[OF 2] cy1 len p n False by (intro fin) (auto simp: drop_drop)
    qed
    then show ?thesis
      unfolding log_poll_batch_eq[OF assms(2-4)] using False by (auto simp: holds_iff andthen_Inr_iff with_udata_def)
  qed
qed

text \<open>The operations that change the log, as the server calls them.\<close>

inductive log_step :: "'d dpdk \<Rightarrow> 'd cyclone raft_server \<Rightarrow> 'd cyclone raft_server \<Rightarrow> bool" for env where
  append_entry: "log_append_entry (raft_funcs env) s c = Inr (r, c', s') \<Longrightarrow> log_step env s s'"
| append_batch: "log_append_batch (raft_funcs env) s cs = Inr (r, cs', s') \<Longrightarrow> cs \<noteq> [] \<Longrightarrow> log_step env s s'"
| delete: "log_delete (raft_funcs env) s idx = Inr s' \<Longrightarrow> l_front (rlog s) < idx \<Longrightarrow> idx \<le> l_back (rlog s) + 1 \<Longrightarrow> log_step env s s'"
| poll_batch: "log_poll_batch (raft_funcs env) s cnt = Inr s' \<Longrightarrow> 0 < cnt \<Longrightarrow> l_front (rlog s) < l_back (rlog s) \<Longrightarrow> log_step env s s'"

lemma log_step_mirrors:
  assumes "log_step env s s'" "mirrors s" "log_wf (rlog s)"
  shows "mirrors s' \<and> log_wf (rlog s')"
  using assms(1)
proof cases
  case (append_entry c r c')
  then show ?thesis
    using append_entry_mirrors[OF assms(2,3), of env c] cyclone_raft.append_entry_ok[OF assms(3), of env c] by (simp add: holds_iff)
next
  case (append_batch cs r cs')
  then show ?thesis
    using append_batch_mirrors[OF assms(2,3), of cs env] cyclone_raft.append_batch_ok[OF assms(3), of cs env] by (simp add: holds_iff)
next
  case (delete idx)
  then show ?thesis
    using delete_mirrors[OF assms(2,3), of idx env] cyclone_raft.delete_ok[OF assms(3), of idx env] by (simp add: holds_iff)
next
  case (poll_batch cnt)
  then show ?thesis
    using poll_batch_mirrors[OF assms(2,3), of cnt env] cyclone_raft.poll_batch_ok[OF assms(3), of cnt env] by (simp add: holds_iff)
qed

end
