(* ===== verification/CycloneRx.thy ===== *)
theory CycloneRx
  imports CycloneInv
begin

text \<open>
  Incoming packets: the message handler of \<open>cyclone_st\<close> and the part of the monitor loop that feeds it,
  core/cyclone_context.hpp. A packet is looked at after its Ethernet header is dropped. The responses to
  append-entries messages are collected and sent together: \<open>ae_responses\<close> holds them with the replicas they go to, and its
  length is \<open>ae_response_cnt\<close>.
\<close>

subsection \<open>Responses\<close>

definition MSG_REQUESTVOTE :: int where
  "MSG_REQUESTVOTE = 1"

definition MSG_REQUESTVOTE_RESPONSE :: int where
  "MSG_REQUESTVOTE_RESPONSE = 2"

definition MSG_APPENDENTRIES_RESPONSE :: int where
  "MSG_APPENDENTRIES_RESPONSE = 4"

text \<open>Without a buffer only a message is logged, and the null pointer is used.\<close>

definition send_msg :: "'d dpdk \<Rightarrow> wire_msg \<Rightarrow> int \<Rightarrow> 'd cyclone \<Rightarrow> 'd cyclone res" where
  "send_msg env msg dst_replica cy =
     (let (m, d1) = pktmbuf_alloc env (Mempool (my_q cy q_raft)) (dp cy) in
      andthen (replica_mc cy dst_replica) (\<lambda>mc.
      guarded (m \<noteq> None) Null_deref
        (Inr (snd (cyclone_tx env (my_q cy q_raft) (mc, msg) (cy\<lparr>dp := d1\<rparr>))))))"

text \<open>The loop that looks for the latest response: \<open>None\<close> when the terms differ.\<close>

primrec merge_responses :: "int \<Rightarrow> int \<Rightarrow> nat \<Rightarrow> nat \<Rightarrow> (msg_appendentries_response \<times> int) list \<Rightarrow> nat option" where
  "merge_responses merge_term idx i to_send [] = Some to_send"
| "merge_responses merge_term idx i to_send (r # rs) =
     (if aer_term (fst r) \<noteq> merge_term then None
      else merge_responses merge_term idx (Suc i) (if aer_current_idx (fst r) > idx then i else to_send) rs)"

definition send_response :: "'d dpdk \<Rightarrow> msg_appendentries_response \<times> int \<Rightarrow> 'd cyclone \<Rightarrow> 'd cyclone res" where
  "send_response env r cy = send_msg env (AppendResponse (me cy) (fst r)) (snd r) cy"

definition send_nack :: "'d dpdk \<Rightarrow> msg_appendentries_response \<times> int \<Rightarrow> 'd cyclone \<Rightarrow> 'd cyclone res" where
  "send_nack env r cy =
     (let fresh = (aer_term (fst r) \<noteq> ae_nack_term cy \<or> aer_current_idx (fst r) \<noteq> ae_nack_idx cy);
          (now, d1) = (if fresh then (0, dp cy) else get_tsc_cycles env (dp cy));
          cy1 = cy\<lparr>dp := d1\<rparr> in
      if fresh \<or> now \<ge> (ae_nack_ts cy + nack_timeout_cycles cy) mod 2 ^ 64 then
        let (ts, d2) = get_tsc_cycles env d1 in
        send_response env r (cy1\<lparr>ae_nack_term := aer_term (fst r), ae_nack_idx := aer_current_idx (fst r), ae_nack_ts := ts, dp := d2\<rparr>)
      else Inr cy1)"

definition send_ae_responses :: "'d dpdk \<Rightarrow> 'd cyclone \<Rightarrow> 'd cyclone res" where
  "send_ae_responses env cy =
     (case ae_responses cy of
        [] \<Rightarrow> Inr cy
      | r0 # rs \<Rightarrow>
          andthen
            (case merge_responses (aer_term (fst r0)) (aer_current_idx (fst r0)) 1 0 rs of
               Some to_send \<Rightarrow>
                 let r = (r0 # rs) ! to_send in
                 if aer_success (fst r) = - 1 then send_nack env r cy else send_response env r cy
             | None \<Rightarrow> foldres (send_response env) (r0 # rs) cy) (\<lambda>cy1.
          Inr (cy1\<lparr>ae_responses := []\<rparr>)))"

subsection \<open>The handler\<close>

text \<open>A packet carries one entry behind its message; its data pointer is set to the packet.\<close>

definition incoming_ae :: "nat \<Rightarrow> 'd cyclone \<Rightarrow> (msg_appendentries \<times> 'd cyclone) res" where
  "incoming_ae m cy =
     andthen (get_pkt cy m) (\<lambda>b.
     let h = mb_msg b; ety = (mb_entry b)\<lparr>e_buf := m\<rparr>;
         ae = \<lparr>ae_term = pm_term h, ae_prev_log_idx = pm_prev_log_idx h, ae_prev_log_term = pm_prev_log_term h,
               ae_leader_commit = pm_leader_commit h, ae_entries = []\<rparr> in
     guarded (0 \<le> pm_n_entries h \<and> pm_n_entries h \<le> 1) Out_of_bounds
       (if pm_n_entries h > 0 then andthen (upd_pkt m (\<lambda>b. b\<lparr>mb_entry := ety\<rparr>) cy) (\<lambda>cy1. Inr (ae\<lparr>ae_entries := [ety]\<rparr>, cy1))
        else Inr (ae, cy)))"

definition with_cyclone :: "('d cyclone \<Rightarrow> 'd cyclone res) \<Rightarrow> 'd cyclone raft_server \<Rightarrow> 'd cyclone raft_server res" where
  "with_cyclone f s = andthen (f (udata s)) (\<lambda>cy. Inr (s\<lparr>udata := cy\<rparr>))"

definition push_response :: "msg_appendentries_response \<times> int \<Rightarrow> 'd cyclone \<Rightarrow> 'd cyclone res" where
  "push_response r cy =
     guarded (length (ae_responses cy) < PKT_BURST) Out_of_bounds (Inr (cy\<lparr>ae_responses := ae_responses cy @ [r]\<rparr>))"

definition handle_incoming :: "'d dpdk \<Rightarrow> nat \<Rightarrow> 'd cyclone raft_server \<Rightarrow> 'd cyclone raft_server res" where
  "handle_incoming env m s =
     andthen (get_pkt (udata s) m) (\<lambda>b.
     let t = pm_type (mb_msg b); source = pm_source (mb_msg b); cb = raft_funcs env in
     andthen (if t \<noteq> MSG_APPENDENTRIES then with_cyclone (send_ae_responses env) s else Inr s) (\<lambda>s1.
     if t = MSG_REQUESTVOTE then
       andthen (raft_get_node s1 source) (\<lambda>_.
       andthen (raft_recv_requestvote cb s1 (mb_rv b)) (\<lambda>(r, s2).
       with_cyclone (\<lambda>cy. send_msg env (RequestVoteResponse (me cy) r) source (free_pkt env m cy)) s2))
     else if t = MSG_REQUESTVOTE_RESPONSE then
       andthen (raft_get_node s1 source) (\<lambda>q.
       andthen (raft_recv_requestvote_response cb s1 q (mb_rvr b)) (\<lambda>s2.
       with_cyclone (\<lambda>cy. Inr (free_pkt env m cy)) s2))
     else if t = MSG_APPENDENTRIES then
       andthen (incoming_ae m (udata s1)) (\<lambda>(ae, cy1).
       andthen (raft_get_node s1 source) (\<lambda>q.
       andthen (raft_recv_appendentries cb (s1\<lparr>udata := cy1\<rparr>) q ae) (\<lambda>(e, r, s2).
       with_cyclone (\<lambda>cy. push_response (r, source) (if e \<noteq> 0 \<or> ae_entries ae = [] then free_pkt env m cy else cy)) s2)))
     else if t = MSG_APPENDENTRIES_RESPONSE then
       andthen (raft_get_node s1 source) (\<lambda>q.
       andthen (raft_recv_appendentries_response cb s1 q (mb_aer b)) (\<lambda>(e, s2).
       with_cyclone (\<lambda>cy. Inr (free_pkt env m cy)) s2))
     else Inl (Exited 0)))"

subsection \<open>The burst\<close>

text \<open>What is wrong with a packet, in the order of the tests.\<close>

datatype rx_check = Fine | Wrong_protocol | Wrong_ip | Too_small | Multi_segment

definition bad :: "'d dpdk \<Rightarrow> rx_check \<Rightarrow> nat \<Rightarrow> 'd cyclone \<Rightarrow> int \<times> 'd cyclone" where
  "bad env c m cy =
     (if c = Wrong_protocol then (- 1, cy)
      else if c = Wrong_ip \<or> c = Too_small \<or> c = Multi_segment then (- 1, free_pkt env m cy)
      else (0, cy))"

definition handle_packet :: "'d dpdk \<Rightarrow> rx_check \<times> nat \<Rightarrow> 'd cyclone raft_server \<Rightarrow> 'd cyclone raft_server res" where
  "handle_packet env = (\<lambda>(c, m) s.
     let (r, cy) = bad env c m (udata s); s1 = s\<lparr>udata := cy\<rparr> in
     if r \<noteq> 0 then Inr (s1\<lparr>udata := free_pkt env m (udata s1)\<rparr>) else handle_incoming env m s1)"

text \<open>One burst of at most \<open>PKT_BURST\<close> packets.\<close>

definition monitor_burst :: "'d dpdk \<Rightarrow> (rx_check \<times> nat) list \<Rightarrow> 'd cyclone raft_server \<Rightarrow> 'd cyclone raft_server res" where
  "monitor_burst env pkts s =
     andthen (foldres (handle_packet env) (take PKT_BURST pkts) (s\<lparr>udata := (udata s)\<lparr>ae_responses := []\<rparr>\<rparr>)) (\<lambda>s1.
     with_cyclone (send_ae_responses env) s1)"

subsection \<open>A burst keeps the promises of the server\<close>

lemma with_cyclone_same: "holds (with_cyclone f s) (same s)"
  by (auto simp: with_cyclone_def holds_iff andthen_Inr_iff)

lemma with_cyclone_good: "good s s1 \<Longrightarrow> holds (with_cyclone f s1) (good s)"
  by (rule sat_mono[OF with_cyclone_same]) (auto intro: good_same)

lemma handle_incoming_good:
  assumes "raft_inv s"
  shows "holds (handle_incoming env m s) (good s)"
  unfolding handle_incoming_def Let_def
proof (rule holds_bindI, rule good_bind[where s = s], goal_cases)
  case (1 b)
  show ?case using with_cyclone_good[OF good_refl[OF assms]] good_refl[OF assms] by simp
next
  case (2 b s1)
  note inv = good_inv[OF 2(2)] and after = with_cyclone_good[OF good_trans[OF 2(2)]]
  show ?case
  proof (intro holds_ifI, goal_cases)
    case 1
    show ?case by (rule holds_bindI, rule good_bind_pair[OF cyclone_raft.recv_requestvote_good[OF inv]]) (simp add: after)
  next
    case 2
    show ?case by (rule holds_bindI, rule good_bind[OF cyclone_raft.recv_requestvote_response_good[OF inv]]) (simp add: after)
  next
    case 3
    have "holds (raft_recv_appendentries (raft_funcs env) (s1\<lparr>udata := cy1\<rparr>) q ae) (\<lambda>(e, r, s'). good s1 s')" for cy1 q ae
      by (rule good_after_triple[OF _ cyclone_raft.recv_appendentries_good]) (simp_all add: inv good_refl)
    note bind = good_bind_triple[OF this]
    show ?case by (rule holds_bindI, clarsimp, rule holds_bindI, rule bind) (simp add: after)
  next
    case 4
    show ?case by (rule holds_bindI, rule good_bind_pair[OF cyclone_raft.recv_appendentries_response_good[OF inv]]) (simp add: after)
  qed simp
qed

lemma handle_packet_good:
  assumes "raft_inv s"
  shows "holds (handle_packet env cm s) (good s)"
proof -
  have "holds (handle_incoming env m (s\<lparr>udata := cy\<rparr>)) (good s)" for m cy
    by (rule good_after[OF _ handle_incoming_good]) (simp_all add: assms good_refl)
  then show ?thesis
    using good_refl[OF assms] by (auto simp: handle_packet_def Let_def split: prod.split)
qed

lemma monitor_burst_good:
  assumes "raft_inv s"
  shows "holds (monitor_burst env pkts s) (good s)"
  unfolding monitor_burst_def
proof (rule good_seq)
  show "holds (foldres (handle_packet env) (take PKT_BURST pkts) (s\<lparr>udata := (udata s)\<lparr>ae_responses := []\<rparr>\<rparr>)) (good s)"
    by (rule good_after[OF _ good_fold[OF handle_packet_good]]) (simp_all add: assms good_refl)
qed (rule with_cyclone_good, simp add: good_refl good_inv)

text \<open>The calls of the monitor loop: the handler of a burst and the calls into the library, as
  \<open>raft_periodic\<close> and \<open>raft_recv_entry_batch\<close>.\<close>

inductive cyclone_step :: "'d dpdk \<Rightarrow> 'd cyclone raft_server \<Rightarrow> 'd cyclone raft_server \<Rightarrow> bool" for env where
  call: "raft_step (raft_funcs env) s s' \<Longrightarrow> cyclone_step env s s'"
| burst: "monitor_burst env pkts s = Inr s' \<Longrightarrow> cyclone_step env s s'"

lemma cyclone_run_good:
  assumes "(cyclone_step env)\<^sup>*\<^sup>* s s'" "raft_inv s"
  shows "good s s'"
  using assms(1)
proof (induction rule: rtranclp_induct)
  case base
  show ?case using assms(2) by (rule good_refl)
next
  case (step y z)
  note inv = good_inv[OF step.IH]
  have "good y z" using step.hyps(2)
  proof cases
    case call
    then show ?thesis using cyclone_raft.run_good[of env y z] inv by blast
  next
    case (burst pkts)
    then show ?thesis using monitor_burst_good[OF inv, of env pkts] by simp
  qed
  then show ?case by (rule good_trans[OF step.IH])
qed

subsection \<open>Which response stands for a burst\<close>

abbreviation acked :: "msg_appendentries_response \<times> int \<Rightarrow> int" where
  "acked r \<equiv> aer_current_idx (fst r)"

lemma merge_responses_latest:
  assumes "xs \<noteq> []" "k < length xs" "acked (xs ! k) = acked (last xs)" "sorted (map acked (xs @ rs))" "\<forall>r\<in>set rs. aer_term (fst r) = t"
  shows "\<exists>j < length (xs @ rs). merge_responses t (acked (hd xs)) (length xs) k rs = Some j \<and> acked ((xs @ rs) ! j) = acked (last (xs @ rs))"
  using assms
proof (induction rs arbitrary: xs k)
  case (Cons r rs)
  have ord: "acked (hd xs) \<le> acked (last xs)" "acked (last xs) \<le> acked r"
    using Cons.prems(1,4) by (cases xs; auto simp: sorted_append)+
  let ?k = "if acked r > acked (hd xs) then length xs else k"
  have "acked ((xs @ [r]) ! ?k) = acked (last (xs @ [r]))" "?k < length (xs @ [r])"
    using Cons.prems(2,3) ord by (auto simp: nth_append)
  with Cons.IH[of "xs @ [r]" ?k] Cons.prems(1,4,5) show ?case by simp
qed auto

text \<open>\<open>idx\<close> is not updated in the loop: for responses that are not in order the last one that is ahead of the
  first is taken, not the latest.\<close>

lemma merge_responses_not_latest:
  "merge_responses 1 5 1 0 [(\<lparr>aer_term = 1, aer_success = 1, aer_current_idx = 9, aer_first_idx = 0\<rparr>, 0),
     (\<lparr>aer_term = 1, aer_success = 1, aer_current_idx = 7, aer_first_idx = 0\<rparr>, 0)] = Some 2"
  by simp

text \<open>The library answers with 1 or 0, so the branch of \<open>send_ae_responses\<close> for \<open>success = -1\<close>, which holds
  repeated refusals back, is never taken for a response of the handler.\<close>

lemma ae_accept_success: "holds (ae_accept cb s q ae t) (\<lambda>(e, r, s'). aer_success r = 1)"
  unfolding ae_accept_def Let_def by (rule holds_bindI allI impI | split prod.split | simp)+

lemma recv_appendentries_success:
  "holds (raft_recv_appendentries cb s q ae) (\<lambda>(e, r, s'). aer_success r = 0 \<or> aer_success r = 1)"
proof -
  let ?Q = "\<lambda>(e, r, s'). aer_success r = 0 \<or> aer_success r = 1"
  have accepted: "holds (ae_accept cb s2 q ae t) ?Q" for s2 t
    by (rule sat_mono[OF ae_accept_success]) auto
  have checked: "holds (case b of None \<Rightarrow> ae_accept cb s2 q ae t | Some i \<Rightarrow> Inr (- 1, \<lparr>aer_term = t, aer_success = 0, aer_current_idx = i, aer_first_idx = 0\<rparr>, s2)) ?Q" for b s2 t
    by (cases b) (auto intro: accepted)
  show ?thesis
    unfolding raft_recv_appendentries_def Let_def sat_guarded
    by (rule holds_bindI allI impI checked conjI | split prod.split if_split | simp only: | simp)+
qed

end
