(* ===== verification/CycloneClaims.thy ===== *)
theory CycloneClaims
  imports CycloneRx
begin

text \<open>
  Properties of a Raft server that runs with Cyclone's callbacks from the state that \<open>cyclone_setup\<close>
  leaves, for every behaviour of DPDK.
\<close>

lemma add_peers_kept:
  "holds (foldres (\<lambda>nodeidx raft. andthen (replica_mc cy nodeidx) (\<lambda>mc.
      andthen (raft_add_node raft mc nodeidx (nodeidx = my_id)) (\<lambda>(_, raft'). Inr raft'))) xs s) (\<lambda>s'. same s s' \<and> udata s' = udata s)"
proof (rule sat_foldres[where I = "\<lambda>s'. same s s' \<and> udata s' = udata s"], goal_cases)
  case (1 i s1)
  then show ?case
    by (auto simp: holds_iff andthen_Inr_iff dest!: add_node_kept[unfolded holds_iff, rule_format] intro: same_trans)
qed simp

lemmas setters = raft_set_log_target_def raft_set_nack_timeout_def raft_set_request_timeout_def raft_set_election_timeout_def
  raft_set_multi_inflight_def

lemma setup_ok:
  "holds (cyclone_setup cfg quorum_id my_id cy0) (\<lambda>s. raft_inv s \<and> log_wf (rlog s) \<and> (8 \<le> cfg_logsize cfg \<longrightarrow> mirrors s))"
proof -
  define cy1 where "cy1 = cyclone_pstate (cyclone_new cfg quorum_id my_id cy0)"
  define s1 where "s1 = raft_set_log_target (raft_set_nack_timeout (raft_set_request_timeout (raft_set_election_timeout
      (raft_set_multi_inflight (raft_new cy1)) 10000) 1000) 1000) 1000"
  have inv: "raft_inv s1" using raft_new_inv[of cy1] by (simp add: s1_def setters raft_inv_def)
  have log: "log_list (rlog s1) = []" by (simp add: s1_def setters raft_new_def log_list_def log_new_def)
  have N: "0 < c_div (cfg_logsize cfg) 8" if "8 \<le> cfg_logsize cfg" using that by (simp add: c_div_def)
  have fin: "raft_inv s \<and> log_wf (rlog s) \<and> (8 \<le> cfg_logsize cfg \<longrightarrow> mirrors s)"
    if "same s1 s" "cy_log (udata s) = cy_log cy1" "RAFT_LOGENTRIES (udata s) = RAFT_LOGENTRIES cy1" for s
  proof -
    have "raft_inv s" using same_good[OF inv that(1)] by (simp add: good_def)
    moreover have "mirrors s" if "8 \<le> cfg_logsize cfg"
      using N[OF that] log \<open>same s1 s\<close> \<open>cy_log (udata s) = _\<close> \<open>RAFT_LOGENTRIES (udata s) = _\<close>
      by (simp add: mirrors_def same_def ring_wf_def ring_list_def ring_view_def cy1_def cyclone_pstate_def cyclone_new_def)
    ultimately show ?thesis by (simp add: raft_inv_def)
  qed
  have u: "udata s1 = cy1" by (simp add: s1_def setters raft_new_def)
  have "holds (cyclone_setup cfg quorum_id my_id cy0) (\<lambda>s. same s1 s \<and> cy_log (udata s) = cy_log cy1 \<and> RAFT_LOGENTRIES (udata s) = RAFT_LOGENTRIES cy1)"
    unfolding cyclone_setup_def Let_def cy1_def[symmetric] s1_def[symmetric] sat_andthen[of _ "foldres _ _ _"]
  proof (rule sat_mono[OF add_peers_kept], goal_cases)
    case (1 s2)
    then show ?case
      using u by (auto simp: holds_iff andthen_Inr_iff split: if_splits
          dest!: add_non_voting_node_kept[unfolded holds_iff, rule_format] intro: same_trans)
  qed
  then show ?thesis by (rule sat_mono) (use fin in blast)
qed

subsection \<open>A single server\<close>

text \<open>A quorum of one, with a DPDK in which every call succeeds and a packet with one request at address 1.\<close>

definition one_packet :: mbuf where
  "one_packet = \<lparr>mb_msg = \<lparr>pm_type = 1, pm_source = 0, pm_term = 0, pm_prev_log_idx = 0, pm_prev_log_term = 0, pm_leader_commit = 0, pm_n_entries = 0\<rparr>,
     mb_entry = zero_entry, mb_wal = \<lparr>wal_rep = 0, wal_term = 0, wal_idx = 0, wal_leader = False\<rparr>,
     mb_segs = [[\<lparr>rpc_code = 0, rpc_core_mask = 1, rpc_client_id = 0, rpc_cfg_node = 0\<rparr>]],
     mb_rv = \<lparr>rv_term = 1, rv_candidate_id = 0, rv_last_log_idx = 0, rv_last_log_term = 0\<rparr>, mb_rvr = \<lparr>rvr_term = 0, rvr_vote_granted = 0\<rparr>,
     mb_aer = \<lparr>aer_term = 0, aer_success = 0, aer_current_idx = 0, aer_first_idx = 0\<rparr>\<rparr>"

definition calm_dpdk :: "unit dpdk" where
  "calm_dpdk = \<lparr>pktmbuf_alloc = (\<lambda>_ d. (Some (2, one_packet), d)), pktmbuf_free = (\<lambda>_ d. d), refcnt_update = (\<lambda>_ _ d. d), tx_buffer = (\<lambda>_ _ d. (1, d)),
     tx_buffer_flush = (\<lambda>_ d. (0, d)), ring_enqueue = (\<lambda>_ _ d. (True, d)), get_tsc_cycles = (\<lambda>d. (0, d)), random_peer = (\<lambda>_. 0), stack_entry = (\<lambda>_. zero_entry)\<rparr>"

definition one_config :: cy_config where
  "one_config = \<lparr>cfg_logsize = 64, cfg_replicas = 1, cfg_active = [0]\<rparr>"

definition one_cyclone :: "unit cyclone" where
  "one_cyclone = \<lparr>replicas = 0, me = 0, me_quorum = 0, RAFT_LOGENTRIES = 0, ps_term = 7, ps_voted_for = 7, cy_log = \<lparr>cl_head = 0, cl_tail = 0, cl_data = []\<rparr>,
     sending_checkpoints = True, match_indices = [], client_inflight = [0], checkpoint_idxs = [- 1],
     ae_responses = [], ae_nack_term = - 1, ae_nack_idx = 0, ae_nack_ts = 0, nack_timeout_cycles = 0, ports = 1, router = [0], pk = [1 \<mapsto> one_packet], dp = ()\<rparr>"

lemma one_server_appends:
  "runs (andthen (cyclone_setup one_config 0 0 one_cyclone) (\<lambda>s0. log_append_entry (raft_funcs calm_dpdk) s0 (zero_entry\<lparr>e_buf := 1\<rparr>)))
     (\<lambda>(r, c, s). RAFT_LOGENTRIES (udata s) = 8 \<and> ring_list 8 (cy_log (udata s)) = [1])"
  by code_simp

lemma one_server_votes:
  "runs (andthen (cyclone_setup one_config 0 0 one_cyclone) (\<lambda>s0. monitor_burst calm_dpdk [(Too_small, 1), (Fine, 1)] s0))
     (\<lambda>s. current_term s = 1 \<and> voted_for s = 0)"
  by code_simp

subsection \<open>Properties\<close>

text \<open>C1: a Cyclone server keeps Raft's local promises whatever DPDK does and whatever packets arrive: from the
  state that \<open>cyclone_setup\<close> leaves, every sequence of bursts of packets, of the four message types and malformed
  ones, and of library calls with Cyclone's callbacks, which add and remove peers, take
  checkpoints and append the entry that completes a membership change, keeps the invariant of the
  server. The term, the commit index and the applied index never decrease, a vote is never changed within a
  term, and committed entries that are still in the log keep their content.\<close>

theorem cyclone_run_promises:
  assumes "cyclone_setup cfg quorum_id my_id cy0 = Inr s0" "(cyclone_step env)\<^sup>*\<^sup>* s0 s" "(cyclone_step env)\<^sup>*\<^sup>* s s'"
  shows "raft_inv s' \<and> current_term s \<le> current_term s'
    \<and> (current_term s = current_term s' \<longrightarrow> voted_for s = - 1 \<or> voted_for s' = voted_for s)
    \<and> commit_idx s \<le> commit_idx s' \<and> last_applied_idx s \<le> last_applied_idx s'
    \<and> (\<forall>i. l_front (rlog s') \<le> i \<and> i < commit_idx s \<longrightarrow> log_at (rlog s') i = log_at (rlog s) i)"
proof -
  have "raft_inv s0" using setup_ok[of cfg quorum_id my_id cy0] assms(1) by (simp add: holds_iff)
  then have "raft_inv s" using cyclone_run_good[OF assms(2)] by (simp add: good_def)
  from cyclone_run_good[OF assms(3) this] show ?thesis by (auto simp: good_def evolves_def agree_def)
qed

theorem cyclone_run_promises_witness:
  "runs (andthen (cyclone_setup one_config 0 0 one_cyclone) (\<lambda>s0. monitor_burst calm_dpdk [(Too_small, 1), (Fine, 1)] s0))
     (\<lambda>s. raft_inv s \<and> current_term s = 1 \<and> voted_for s = 0)"
proof -
  obtain s0 s where s: "cyclone_setup one_config 0 0 one_cyclone = Inr s0"
      "monitor_burst calm_dpdk [(Too_small, 1), (Fine, 1)] s0 = Inr s" "current_term s = 1" "voted_for s = 0"
    using one_server_votes by (auto simp: runs_iff andthen_Inr_iff)
  have "(cyclone_step calm_dpdk)\<^sup>*\<^sup>* s0 s" using cyclone_step.burst[OF s(2)] by blast
  then have "raft_inv s" using cyclone_run_promises[OF s(1), of calm_dpdk s0 s] by blast
  then show ?thesis using s by simp
qed

text \<open>C7: the persistent ring of packets follows the log of the library: after any sequence of the operations
  that change the log, with Cyclone's callbacks and from the state that \<open>cyclone_setup\<close> leaves, the
  ring holds the packets of the entries of the log, in order.\<close>

theorem ring_mirrors_log:
  assumes "cyclone_setup cfg quorum_id my_id cy0 = Inr s0" "8 \<le> cfg_logsize cfg" "(log_step env)\<^sup>*\<^sup>* s0 s"
  shows "ring_list (RAFT_LOGENTRIES (udata s)) (cy_log (udata s)) = map e_pkt (log_list (rlog s))"
proof -
  have "mirrors s \<and> log_wf (rlog s)"
    using assms(3)
  proof (induction rule: rtranclp_induct)
    case base
    then show ?case using setup_ok[of cfg quorum_id my_id cy0] assms(1,2) by (simp add: holds_iff)
  next
    case (step y z)
    then show ?case using log_step_mirrors by blast
  qed
  then show ?thesis by (simp add: mirrors_def)
qed

theorem ring_mirrors_log_witness:
  "runs (andthen (cyclone_setup one_config 0 0 one_cyclone) (\<lambda>s0. log_append_entry (raft_funcs calm_dpdk) s0 (zero_entry\<lparr>e_buf := 1\<rparr>)))
     (\<lambda>(r, c, s). map e_pkt (log_list (rlog s)) = [1])"
proof -
  obtain s0 r c s where s: "cyclone_setup one_config 0 0 one_cyclone = Inr s0"
      "log_append_entry (raft_funcs calm_dpdk) s0 (zero_entry\<lparr>e_buf := 1\<rparr>) = Inr (r, c, s)"
      "RAFT_LOGENTRIES (udata s) = 8" "ring_list 8 (cy_log (udata s)) = [1]"
    using one_server_appends by (auto simp: runs_iff andthen_Inr_iff)
  have "(log_step calm_dpdk)\<^sup>*\<^sup>* s0 s" using log_step.append_entry[OF s(2)] by blast
  then show ?thesis using ring_mirrors_log[OF s(1), of calm_dpdk s] s by (simp add: one_config_def)
qed

text \<open>C16: the responses of a burst are compacted without losing the latest: when the collected responses have
  one term, are in the order of their indices and have a success flag other than -1 (the library sets 0 or 1),
  \<open>send_ae_responses\<close> sends one message, it carries the highest index, and the table is empty afterwards.\<close>

theorem burst_sends_latest_response:
  assumes "ae_responses cy = rs" "rs \<noteq> []" "sorted (map acked rs)" "\<forall>r\<in>set rs. aer_term (fst r) = t \<and> aer_success (fst r) \<noteq> - 1"
  shows "\<exists>r\<in>set rs. acked r = Max (set (map acked rs))
    \<and> send_ae_responses env cy = andthen (send_response env r cy) (\<lambda>cy1. Inr (cy1\<lparr>ae_responses := []\<rparr>))"
proof -
  obtain r0 rs' where rs: "rs = r0 # rs'" using assms(2) by (cases rs) auto
  obtain j where j: "j < length rs" "merge_responses t (acked r0) 1 0 rs' = Some j" "acked (rs ! j) = acked (last rs)"
    using merge_responses_latest[of "[r0]" 0 rs' t] assms(3,4) rs by auto
  have in_rs: "rs ! j \<in> set rs" using j(1) by simp
  have "acked r \<le> acked (last rs)" if "r \<in> set rs" for r
    using assms(3) that by (induction rs) (auto split: if_splits)
  then have "Max (set (map acked rs)) = acked (last rs)"
    using assms(2) by (intro Max_eqI) auto
  moreover have "send_ae_responses env cy = andthen (send_response env (rs ! j) cy) (\<lambda>cy1. Inr (cy1\<lparr>ae_responses := []\<rparr>))"
    using assms(1,4) in_rs j(2) rs by (auto simp: send_ae_responses_def Let_def)
  ultimately show ?thesis using in_rs j(3) by metis
qed

definition two_responses :: "(msg_appendentries_response \<times> int) list" where
  "two_responses = [(\<lparr>aer_term = 1, aer_success = 1, aer_current_idx = 4, aer_first_idx = 0\<rparr>, 0), (\<lparr>aer_term = 1, aer_success = 1, aer_current_idx = 5, aer_first_idx = 0\<rparr>, 0)]"

theorem burst_sends_latest_response_witness:
  "send_ae_responses calm_dpdk (one_cyclone\<lparr>ae_responses := two_responses\<rparr>)
     = andthen (send_response calm_dpdk (two_responses ! 1) (one_cyclone\<lparr>ae_responses := two_responses\<rparr>)) (\<lambda>cy1. Inr (cy1\<lparr>ae_responses := []\<rparr>))"
  using burst_sends_latest_response[of "one_cyclone\<lparr>ae_responses := two_responses\<rparr>" two_responses 1 calm_dpdk]
  by (auto simp: two_responses_def)

end
