(* ===== verification/Scheduler.thy ===== *)
theory Scheduler
  imports Prelude "HOL-Library.AList" "HOL-Library.Word"
begin

text \<open>
  The scheduler of commuting operations, core/scheduler.hpp, which is compiled in with \<open>__COMMUTE\<close>: a doubly linked
  list between two sentinels, newest operation first. \<open>next_schedule\<close> points at the oldest operation that has not
  been handed to an executor thread, or at the head when there is none. The nodes are in a store
  of addresses. The flags \<open>wal->marked\<close> are in \<open>sc_marked\<close>, by the address of the \<open>wal_entry_t\<close>; executor
  threads set them. DPDK is a parameter on a state of type \<open>'d\<close>: \<open>rte_malloc\<close> gets
  the addresses in use. Fields of the sentinels that \<open>init\<close> leaves unset are never read.
\<close>

subsection \<open>State\<close>

definition commute_executor_threads :: "32 word" where
  "commute_executor_threads = 4"

definition max_sched_buffer_length :: "32 word" where
  "max_sched_buffer_length = 4096"

definition SCHED_BUFFER_FULL :: int where
  "SCHED_BUFFER_FULL = 1"

definition NON_COMMUTE :: int where
  "NON_COMMUTE = 2"

record sched_node =
  n_to_core :: int
  n_me_quorum :: int
  n_m :: nat
  n_rpc :: nat
  n_wal :: nat
  n_next :: "nat option"
  n_prev :: "nat option"

record 'd scheduler =
  sc_heap :: "(nat \<times> sched_node) list"
  sc_head :: nat
  sc_tail :: nat
  next_schedule :: nat
  sc_size :: "32 word"
  rb_counter :: "32 word"
  sc_marked :: "nat \<Rightarrow> bool"
  sc_dp :: 'd

record 'd sched_env =
  rte_malloc :: "nat list \<Rightarrow> 'd \<Rightarrow> nat option \<times> 'd"
  enqueue_bulk :: "nat \<Rightarrow> int \<times> nat \<times> nat \<Rightarrow> 'd \<Rightarrow> bool \<times> 'd"
  mbuf_free :: "nat \<Rightarrow> 'd \<Rightarrow> 'd"

definition sn_get :: "'d scheduler \<Rightarrow> nat \<Rightarrow> sched_node res" where
  "sn_get s p = (case map_of (sc_heap s) p of None \<Rightarrow> Inl Null_deref | Some n \<Rightarrow> Inr n)"

definition sn_set :: "nat \<Rightarrow> sched_node \<Rightarrow> 'd scheduler \<Rightarrow> 'd scheduler" where
  "sn_set p n s = s\<lparr>sc_heap := AList.update p n (sc_heap s)\<rparr>"

definition sn_upd :: "nat \<Rightarrow> (sched_node \<Rightarrow> sched_node) \<Rightarrow> 'd scheduler \<Rightarrow> 'd scheduler res" where
  "sn_upd p f s = andthen (sn_get s p) (\<lambda>n. Inr (sn_set p (f n) s))"

definition sn_free :: "nat \<Rightarrow> 'd scheduler \<Rightarrow> 'd scheduler" where
  "sn_free p s = s\<lparr>sc_heap := AList.delete p (sc_heap s)\<rparr>"

definition sn_alloc :: "'d sched_env \<Rightarrow> 'd scheduler \<Rightarrow> (nat \<times> 'd scheduler) res" where
  "sn_alloc env s =
     (let (p, d) = rte_malloc env (map fst (sc_heap s)) (sc_dp s) in
      case p of None \<Rightarrow> Inl (Exited (- 1)) | Some p \<Rightarrow> Inr (p, s\<lparr>sc_dp := d\<rparr>))"

text \<open>A pointer that is followed.\<close>

definition the_ptr :: "nat option \<Rightarrow> nat res" where
  "the_ptr q = (case q of None \<Rightarrow> Inl Null_deref | Some p \<Rightarrow> Inr p)"

subsection \<open>Operations\<close>

definition sentinel :: sched_node where
  "sentinel = \<lparr>n_to_core = 0, n_me_quorum = 0, n_m = 0, n_rpc = 0, n_wal = 0, n_next = None, n_prev = None\<rparr>"

definition sched_init :: "'d sched_env \<Rightarrow> 'd scheduler \<Rightarrow> (int \<times> 'd scheduler) res" where
  "sched_init env s =
     andthen (sn_alloc env s) (\<lambda>(h, s1).
     let s2 = (sn_set h sentinel s1)\<lparr>sc_head := h\<rparr> in
     andthen (sn_alloc env s2) (\<lambda>(t, s3).
     let s4 = (sn_set t sentinel s3)\<lparr>sc_tail := t\<rparr> in
     andthen (sn_upd h (\<lambda>n. n\<lparr>n_next := Some t\<rparr>) s4) (\<lambda>s5.
     andthen (sn_upd t (\<lambda>n. n\<lparr>n_prev := Some h\<rparr>) s5) (\<lambda>s6.
       Inr (0, s6\<lparr>next_schedule := h, sc_size := 0, rb_counter := 0\<rparr>)))))"

primrec cleanup_loop :: "nat \<Rightarrow> nat option \<Rightarrow> 'd scheduler \<Rightarrow> 'd scheduler res" where
  "cleanup_loop 0 q s = Inr s"
| "cleanup_loop (Suc i) q s =
     guarded (q \<noteq> None) Assert_failed
       (andthen (sn_get s (the q)) (\<lambda>n. cleanup_loop i (n_next n) (sn_free (the q) s)))"

definition cleanup :: "'d scheduler \<Rightarrow> (int \<times> 'd scheduler) res" where
  "cleanup s =
     (if sc_size s = 0 then Inr (0, s)
      else
        andthen (sn_get s (sc_head s)) (\<lambda>h.
        andthen (cleanup_loop (unat (sc_size s) + 1) (n_next h) s) (\<lambda>s1.
        andthen (sn_upd (sc_head s) (\<lambda>n. n\<lparr>n_next := Some (sc_tail s)\<rparr>) s1) (\<lambda>s2.
          Inr (0, s2\<lparr>sc_size := 0\<rparr>)))))"

definition sched_add ::
  "'d sched_env \<Rightarrow> int \<Rightarrow> int \<Rightarrow> nat \<Rightarrow> nat \<Rightarrow> nat \<Rightarrow> 'd scheduler \<Rightarrow> (int \<times> 'd scheduler) res" where
  "sched_add env to_core me_quorum m rpc wal s =
     (if sc_size s = max_sched_buffer_length then Inr (SCHED_BUFFER_FULL, s)
      else
        andthen (sn_alloc env s) (\<lambda>(newest, s1).
        andthen (sn_get s1 (sc_head s1)) (\<lambda>h.
        andthen (the_ptr (n_next h)) (\<lambda>top_node.
        let s2 = sn_set newest \<lparr>n_to_core = to_core, n_me_quorum = me_quorum, n_m = m, n_rpc = rpc, n_wal = wal,
                    n_next = Some top_node, n_prev = Some (sc_head s1)\<rparr> s1 in
        andthen (sn_upd (sc_head s2) (\<lambda>n. n\<lparr>n_next := Some newest\<rparr>) s2) (\<lambda>s3.
        andthen (sn_upd top_node (\<lambda>n. n\<lparr>n_prev := Some newest\<rparr>) s3) (\<lambda>s4.
        let s5 = (if next_schedule s4 = sc_head s4 then s4\<lparr>next_schedule := newest\<rparr> else s4) in
        Inr (0, s5\<lparr>sc_size := sc_size s5 + 1\<rparr>)))))))"

text \<open>The inner loop of \<open>schedule\<close>: whether the next operation may be issued. Every round goes one node towards the
  tail, so the number of nodes is enough fuel for it, and for the other loops.\<close>

primrec commutes_with_rest :: "(nat \<Rightarrow> nat \<Rightarrow> bool) \<Rightarrow> 'd scheduler \<Rightarrow> nat \<Rightarrow> nat \<Rightarrow> bool res" where
  "commutes_with_rest is_commute s 0 p = Inl Out_of_fuel"
| "commutes_with_rest is_commute s (Suc f) p =
     andthen (sn_get s p) (\<lambda>list_node.
       case n_next list_node of None \<Rightarrow> Inr True
       | Some q \<Rightarrow>
           andthen (sn_get s (next_schedule s)) (\<lambda>nx.
             if \<not> sc_marked s (n_wal list_node) \<and> \<not> is_commute (n_rpc nx) (n_rpc list_node) then Inr False
             else commutes_with_rest is_commute s f q))"

primrec schedule_loop ::
  "'d sched_env \<Rightarrow> (nat \<Rightarrow> nat \<Rightarrow> bool) \<Rightarrow> nat \<Rightarrow> nat \<Rightarrow> 'd scheduler \<Rightarrow> (int \<times> 'd scheduler) res" where
  "schedule_loop env is_commute 0 list_node s = Inl Out_of_fuel"
| "schedule_loop env is_commute (Suc f) list_node s =
     (if next_schedule s = sc_head s then Inr (0, s)
      else
        andthen (commutes_with_rest is_commute s (length (sc_heap s)) list_node) (\<lambda>ok.
          if \<not> ok then Inr (NON_COMMUTE, s)
          else
            andthen (sn_get s (next_schedule s)) (\<lambda>nx.
            let (room, d) = enqueue_bulk env (unat (rb_counter s mod commute_executor_threads)) (n_me_quorum nx, n_m nx, n_rpc nx) (sc_dp s) in
            guarded room (Exited (- 1))
              (andthen (the_ptr (n_prev nx)) (\<lambda>p.
               let s1 = s\<lparr>sc_dp := d, rb_counter := rb_counter s + 1, next_schedule := p\<rparr> in
               andthen (sn_get s1 p) (\<lambda>n.
               andthen (the_ptr (n_next n)) (\<lambda>l. schedule_loop env is_commute f l s1)))))))"

definition schedule :: "'d sched_env \<Rightarrow> (nat \<Rightarrow> nat \<Rightarrow> bool) \<Rightarrow> 'd scheduler \<Rightarrow> (int \<times> 'd scheduler) res" where
  "schedule env is_commute s =
     andthen (sn_get s (next_schedule s)) (\<lambda>n.
     andthen (the_ptr (n_next n)) (\<lambda>list_node.
       schedule_loop env is_commute (length (sc_heap s)) list_node s))"

primrec gc_loop :: "'d sched_env \<Rightarrow> nat \<Rightarrow> nat \<Rightarrow> 'd scheduler \<Rightarrow> 'd scheduler res" where
  "gc_loop env 0 p s = Inl Out_of_fuel"
| "gc_loop env (Suc f) p s =
     andthen (sn_get s p) (\<lambda>list_node.
       case n_next list_node of None \<Rightarrow> Inr s
       | Some q \<Rightarrow>
           if sc_marked s (n_wal list_node) then
             andthen (the_ptr (n_prev list_node)) (\<lambda>prev_node.
             andthen (sn_upd prev_node (\<lambda>n. n\<lparr>n_next := Some q\<rparr>) s) (\<lambda>s1.
             andthen (sn_upd q (\<lambda>n. n\<lparr>n_prev := Some prev_node\<rparr>) s1) (\<lambda>s2.
               gc_loop env f q ((sn_free p s2)\<lparr>sc_dp := mbuf_free env (n_m list_node) (sc_dp s2), sc_size := sc_size s2 - 1\<rparr>))))
           else gc_loop env f q s)"

definition sched_gc :: "'d sched_env \<Rightarrow> 'd scheduler \<Rightarrow> (int \<times> 'd scheduler) res" where
  "sched_gc env s =
     andthen (sn_get s (next_schedule s)) (\<lambda>n.
     andthen (the_ptr (n_next n)) (\<lambda>list_node.
     andthen (gc_loop env (length (sc_heap s)) list_node s) (\<lambda>s1. Inr (0, s1))))"

text \<open>How a request enters, core/cyclone.cpp: its mark is cleared and \<open>add\<close> is repeated until it returns 0, here at
  most \<open>f\<close> times.\<close>

primrec add_loop :: "'d sched_env \<Rightarrow> nat \<Rightarrow> int \<Rightarrow> int \<Rightarrow> nat \<Rightarrow> nat \<Rightarrow> nat \<Rightarrow> 'd scheduler \<Rightarrow> 'd scheduler res" where
  "add_loop env 0 to_core me_quorum m rpc wal s = Inl Out_of_fuel"
| "add_loop env (Suc f) to_core me_quorum m rpc wal s =
     andthen (sched_add env to_core me_quorum m rpc wal s) (\<lambda>(r, s1).
       if r \<noteq> 0 then add_loop env f to_core me_quorum m rpc wal s1 else Inr s1)"

definition submit :: "'d sched_env \<Rightarrow> nat \<Rightarrow> int \<Rightarrow> int \<Rightarrow> nat \<Rightarrow> nat \<Rightarrow> nat \<Rightarrow> 'd scheduler \<Rightarrow> 'd scheduler res" where
  "submit env f to_core me_quorum m rpc wal s =
     add_loop env f to_core me_quorum m rpc wal (s\<lparr>sc_marked := (sc_marked s)(wal := False)\<rparr>)"

end
