(* ===== verification/SchedulerInv.thy ===== *)
theory SchedulerInv
  imports Scheduler
begin

text \<open>
  The list of the scheduler as a list of addresses: the waiting operations, newest first, followed by the issued ones.
  Every operation keeps this shape and acts on the two lists as stated here.
\<close>

subsection \<open>Chains\<close>

abbreviation store :: "'d scheduler \<Rightarrow> nat \<rightharpoonup> sched_node" where
  "store s \<equiv> map_of (sc_heap s)"

definition link :: "(nat \<rightharpoonup> sched_node) \<Rightarrow> nat \<Rightarrow> nat \<Rightarrow> bool" where
  "link H x y \<longleftrightarrow> (\<exists>n m. H x = Some n \<and> n_next n = Some y \<and> H y = Some m \<and> n_prev m = Some x)"

abbreviation chain :: "(nat \<rightharpoonup> sched_node) \<Rightarrow> nat list \<Rightarrow> bool" where
  "chain H \<equiv> successively (link H)"

lemma chain_cong:
  assumes "chain H xs" "distinct xs"
    "\<And>x n. x \<in> set xs \<Longrightarrow> H x = Some n \<Longrightarrow>
       \<exists>n'. H' x = Some n' \<and> (x \<noteq> last xs \<longrightarrow> n_next n' = n_next n) \<and> (x \<noteq> hd xs \<longrightarrow> n_prev n' = n_prev n)"
  shows "chain H' xs"
  using assms
proof (induction xs rule: induct_list012)
  case (3 x y zs)
  have "chain H' (y # zs)"
  proof (rule "3.IH"(2))
    fix z n assume z: "z \<in> set (y # zs)" "H z = Some n"
    have "z \<noteq> x" using "3.prems"(2) z(1) by auto
    moreover have "z \<in> set (x # y # zs)" using z(1) by simp
    then obtain n' where "H' z = Some n'" "z \<noteq> last (x # y # zs) \<longrightarrow> n_next n' = n_next n" "z \<noteq> hd (x # y # zs) \<longrightarrow> n_prev n' = n_prev n"
      using "3.prems"(3) z(2) by blast
    ultimately show "\<exists>n'. H' z = Some n' \<and> (z \<noteq> last (y # zs) \<longrightarrow> n_next n' = n_next n) \<and> (z \<noteq> hd (y # zs) \<longrightarrow> n_prev n' = n_prev n)"
      by (intro exI[of _ n']) simp
  qed (use "3.prems"(1,2) in simp_all)
  moreover have "link H' x y"
  proof -
    obtain n m where nm: "H x = Some n" "n_next n = Some y" "H y = Some m" "n_prev m = Some x"
      using "3.prems"(1) by (auto simp: link_def)
    have "x \<noteq> y" "x \<noteq> last (x # y # zs)" using "3.prems"(2) by (simp, metis distinct.simps(2) last_ConsR last_in_set list.discI)
    moreover obtain n' where "H' x = Some n'" "x \<noteq> last (x # y # zs) \<longrightarrow> n_next n' = n_next n"
      using "3.prems"(3)[of x n] nm(1) by auto
    moreover obtain m' where "H' y = Some m'" "y \<noteq> hd (x # y # zs) \<longrightarrow> n_prev m' = n_prev m"
      using "3.prems"(3)[of y m] nm(3) by auto
    ultimately show ?thesis using nm(2,4) by (auto simp: link_def)
  qed
  ultimately show ?case by simp
qed simp_all

lemma chain_next:
  assumes "chain H (p # R)" "R \<noteq> []"
  shows "\<exists>n. H p = Some n \<and> n_next n = Some (hd R)"
  using assms by (cases R) (auto simp: link_def)

lemma chain_split: "chain H (fr @ p # R) \<Longrightarrow> chain H (p # R)" "chain H (fr @ p # R) \<Longrightarrow> chain H (fr @ [p])"
  by (auto simp: successively_append_iff)

lemma chain_prev:
  assumes "chain H (fr @ p # R)" "fr \<noteq> []"
  shows "\<exists>n. H p = Some n \<and> n_prev n = Some (last fr)"
  using assms by (auto simp: successively_append_iff link_def)

lemma chain_last:
  assumes "chain H (fr @ R)" "fr \<noteq> []" "R \<noteq> []"
  shows "\<exists>n. H (last fr) = Some n \<and> n_next n = Some (hd R)"
  using assms by (auto simp: successively_append_iff link_def)

lemma chain_dom: "chain H xs \<Longrightarrow> 2 \<le> length xs \<Longrightarrow> set xs \<subseteq> dom H"
proof (induction xs rule: induct_list012)
  case (3 x y zs)
  then show ?case by (cases zs) (auto simp: link_def)
qed auto

definition op_of :: "sched_node \<Rightarrow> sched_node" where
  "op_of n = n\<lparr>n_next := None, n_prev := None\<rparr>"

lemma op_of_simps [simp]:
  "n_to_core (op_of n) = n_to_core n" "n_me_quorum (op_of n) = n_me_quorum n" "n_m (op_of n) = n_m n" "n_rpc (op_of n) = n_rpc n" "n_wal (op_of n) = n_wal n"
  "op_of (n\<lparr>n_next := q\<rparr>) = op_of n" "op_of (n\<lparr>n_prev := q\<rparr>) = op_of n"
  by (simp_all add: op_of_def)

abbreviation op_at :: "'d scheduler \<Rightarrow> nat \<Rightarrow> sched_node" where
  "op_at s p \<equiv> op_of (the (store s p))"

abbreviation addrs :: "'d scheduler \<Rightarrow> nat list \<Rightarrow> nat list \<Rightarrow> nat list" where
  "addrs s W I \<equiv> (sc_head s # W) @ I @ [sc_tail s]"

definition sched_inv :: "'d scheduler \<Rightarrow> nat list \<Rightarrow> nat list \<Rightarrow> bool" where
  "sched_inv s W I \<longleftrightarrow> chain (store s) (addrs s W I) \<and> distinct (addrs s W I)
     \<and> n_next (the (store s (sc_tail s))) = None \<and> next_schedule s = last (sc_head s # W)
     \<and> length W + length I \<le> 4096 \<and> sc_size s = of_nat (length W + length I)"

definition sched_rep :: "'d scheduler \<Rightarrow> sched_node list \<Rightarrow> sched_node list \<Rightarrow> bool" where
  "sched_rep s ws is \<longleftrightarrow> (\<exists>W I. sched_inv s W I \<and> ws = rev (map (op_at s) W) \<and> is = map (op_at s) I)"

lemma sched_inv_dom: "sched_inv s W I \<Longrightarrow> set (addrs s W I) \<subseteq> dom (store s)"
  unfolding sched_inv_def by (intro chain_dom) auto

lemma sched_inv_fuel:
  assumes "sched_inv s W I"
  shows "length W + length I + 2 \<le> length (sc_heap s)"
proof -
  have "length (addrs s W I) = card (set (addrs s W I))"
    using assms by (metis sched_inv_def distinct_card)
  also have "\<dots> \<le> card (dom (store s))"
    using sched_inv_dom[OF assms] by (intro card_mono finite_dom_map_of)
  also have "\<dots> \<le> length (sc_heap s)"
    by (metis card_length dom_map_of_conv_image_fst length_map list.set_map)
  finally show ?thesis by simp
qed

lemma sn_get_Some [simp]: "store s p = Some n \<Longrightarrow> sn_get s p = Inr n"
  by (simp add: sn_get_def)

lemma sn_set_store [simp]: "store (sn_set p n s) = (store s)(p \<mapsto> n)"
  by (simp add: sn_set_def update_conv')

lemma sn_free_store [simp]: "store (sn_free p s) = (store s)(p := None)"
  by (simp add: sn_free_def delete_conv')

lemma sn_frame [simp]:
  "sc_head (sn_set p n s) = sc_head s" "sc_tail (sn_set p n s) = sc_tail s" "next_schedule (sn_set p n s) = next_schedule s"
  "sc_size (sn_set p n s) = sc_size s" "sc_marked (sn_set p n s) = sc_marked s" "rb_counter (sn_set p n s) = rb_counter s" "sc_dp (sn_set p n s) = sc_dp s"
  "sc_head (sn_free p s) = sc_head s" "sc_tail (sn_free p s) = sc_tail s" "next_schedule (sn_free p s) = next_schedule s"
  "sc_size (sn_free p s) = sc_size s" "sc_marked (sn_free p s) = sc_marked s" "rb_counter (sn_free p s) = rb_counter s" "sc_dp (sn_free p s) = sc_dp s"
  by (simp_all add: sn_set_def sn_free_def)

lemma sn_upd_Some [simp]: "store s p = Some n \<Longrightarrow> sn_upd p f s = Inr (sn_set p (f n) s)"
  by (simp add: sn_upd_def)

lemma the_ptr_Some [simp]: "the_ptr (Some p) = Inr p"
  by (simp add: the_ptr_def)

subsection \<open>Scheduling\<close>

lemma commutes_with_rest_ok:
  assumes "chain (store s) (I @ [t])" "store s t = Some tn" "n_next tn = None" "store s (next_schedule s) = Some nx" "length I < f"
  shows "commutes_with_rest c s f (hd (I @ [t])) = Inr (\<forall>p\<in>set I. sc_marked s (n_wal (op_at s p)) \<or> c (n_rpc nx) (n_rpc (op_at s p)))"
  using assms
proof (induction I arbitrary: f)
  case Nil
  then show ?case by (cases f) auto
next
  case (Cons p I)
  obtain g where f: "f = Suc g" using Cons.prems(5) by (cases f) auto
  obtain n where n: "store s p = Some n" "n_next n = Some (hd (I @ [t]))"
    using chain_next[of "store s" p "I @ [t]"] Cons.prems(1) by auto
  have "chain (store s) (I @ [t])" using Cons.prems(1) by (cases I) auto
  from Cons.IH[OF this Cons.prems(2-4)] show ?case using n Cons.prems(4,5) by (simp add: f)
qed

text \<open>What \<open>schedule\<close> does to the waiting operations, oldest first, and the issued ones, newest first.\<close>

fun schedule_spec ::
  "'d sched_env \<Rightarrow> (nat \<Rightarrow> nat \<Rightarrow> bool) \<Rightarrow> (nat \<Rightarrow> bool) \<Rightarrow> sched_node list \<Rightarrow> sched_node list \<Rightarrow> 32 word \<Rightarrow> 'd \<Rightarrow>
     (int \<times> sched_node list \<times> sched_node list \<times> 32 word \<times> 'd) res" where
  "schedule_spec env c done [] is rb d = Inr (0, [], is, rb, d)"
| "schedule_spec env c done (w # ws) is rb d =
     (if \<exists>x\<in>set is. \<not> done (n_wal x) \<and> \<not> c (n_rpc w) (n_rpc x) then Inr (NON_COMMUTE, w # ws, is, rb, d)
      else
        let (room, d1) = enqueue_bulk env (unat (rb mod 4)) (n_me_quorum w, n_m w, n_rpc w) d in
        guarded room (Exited (- 1)) (schedule_spec env c done ws (w # is) (rb + 1) d1))"

definition implements ::
  "'d scheduler \<Rightarrow> (int \<times> 'd scheduler) res \<Rightarrow> (int \<times> sched_node list \<times> sched_node list \<times> 32 word \<times> 'd) res \<Rightarrow> bool" where
  "implements s m spec \<longleftrightarrow>
     (case spec of Inl e \<Rightarrow> m = Inl e
      | Inr (r, ws, is, rb, d) \<Rightarrow>
          \<exists>s'. m = Inr (r, s') \<and> sched_rep s' ws is \<and> rb_counter s' = rb \<and> sc_dp s' = d \<and> sc_marked s' = sc_marked s \<and> store s' = store s)"

lemma implements_chain: "implements s1 m spec \<Longrightarrow> sc_marked s1 = sc_marked s \<Longrightarrow> store s1 = store s \<Longrightarrow> implements s m spec"
  by (auto simp: implements_def split: sum.splits)

lemma schedule_loop_ok:
  assumes "sched_inv s W I" "length W < f"
  shows "implements s (schedule_loop env c f (hd (I @ [sc_tail s])) s)
     (schedule_spec env c (sc_marked s) (rev (map (op_at s) W)) (map (op_at s) I) (rb_counter s) (sc_dp s))"
  using assms
proof (induction W arbitrary: s I f rule: rev_induct)
  case Nil
  then have "next_schedule s = sc_head s" by (simp add: sched_inv_def)
  moreover obtain g where "f = Suc g" using Nil by (cases f) auto
  moreover have "sched_rep s [] (map (op_at s) I)" unfolding sched_rep_def using Nil.prems(1) by fastforce
  ultimately show ?case by (simp add: implements_def)
next
  case (snoc w W)
  note inv = snoc.prems(1)[unfolded sched_inv_def]
  obtain g where f: "f = Suc g" using snoc.prems(2) by (cases f) auto
  have ns: "next_schedule s = w" "w \<noteq> sc_head s" using inv by auto
  have ch: "chain (store s) ((sc_head s # W) @ w # (I @ [sc_tail s]))" using inv by simp
  obtain n where n: "store s w = Some n" "n_prev n = Some (last (sc_head s # W))" using chain_prev[OF ch] by auto
  obtain tn where tn: "store s (sc_tail s) = Some tn" "n_next tn = None"
    using sched_inv_dom[OF snoc.prems(1)] inv by (auto simp: dom_def)
  have "chain (store s) (I @ [sc_tail s])" using chain_split(1)[OF ch] by (cases I) auto
  then have scan: "commutes_with_rest c s (length (sc_heap s)) (hd (I @ [sc_tail s]))
      = Inr (\<forall>p\<in>set I. sc_marked s (n_wal (op_at s p)) \<or> c (n_rpc n) (n_rpc (op_at s p)))"
    using sched_inv_fuel[OF snoc.prems(1)] tn n(1) ns(1) by (intro commutes_with_rest_ok) auto
  obtain room d where e: "enqueue_bulk env (unat (rb_counter s mod 4)) (n_me_quorum n, n_m n, n_rpc n) (sc_dp s) = (room, d)" by fastforce
  let ?s1 = "s\<lparr>sc_dp := d, rb_counter := rb_counter s + 1, next_schedule := last (sc_head s # W)\<rparr>"
  have inv1: "sched_inv ?s1 W (w # I)" using inv by (simp add: sched_inv_def)
  obtain a where a: "store s (last (sc_head s # W)) = Some a" "n_next a = Some w"
    using chain_last[OF ch] by auto
  have rep: "sched_rep s (op_at s w # rev (map (op_at s) W)) (map (op_at s) I)"
    unfolding sched_rep_def using snoc.prems(1) by (intro exI[of _ "W @ [w]"] exI[of _ I]) auto
  have IH: "implements s (schedule_loop env c g w ?s1)
      (schedule_spec env c (sc_marked s) (rev (map (op_at s) W)) (op_of n # map (op_at s) I) (rb_counter s + 1) d)"
    using snoc.IH[OF inv1, of g] snoc.prems(2) f n(1) by (auto intro: implements_chain)
  show ?case
  proof (cases "\<forall>p\<in>set I. sc_marked s (n_wal (op_at s p)) \<or> c (n_rpc n) (n_rpc (op_at s p))")
    case False
    then show ?thesis using rep n(1) ns scan by (auto simp: f implements_def)
  next
    case True
    define l where "l = last (sc_head s # W)"
    have "schedule_loop env c f (hd (I @ [sc_tail s])) s = guarded room (Exited (- 1)) (schedule_loop env c g w (?s1\<lparr>next_schedule := l\<rparr>))"
      using True n[folded l_def] ns a[folded l_def] scan e by (simp add: f Let_def commute_executor_threads_def)
    moreover have "schedule_spec env c (sc_marked s) (rev (map (op_at s) (W @ [w]))) (map (op_at s) I) (rb_counter s) (sc_dp s)
        = guarded room (Exited (- 1)) (schedule_spec env c (sc_marked s) (rev (map (op_at s) W)) (op_of n # map (op_at s) I) (rb_counter s + 1) d)"
      using True n(1) e by (auto simp: Let_def)
    ultimately show ?thesis using IH by (cases room) (simp_all add: l_def implements_def guarded_def)
  qed
qed

lemma schedule_ok:
  assumes "sched_rep s ws is"
  shows "implements s (schedule env c s) (schedule_spec env c (sc_marked s) ws is (rb_counter s) (sc_dp s))"
proof -
  obtain W I where inv: "sched_inv s W I" "ws = rev (map (op_at s) W)" "is = map (op_at s) I"
    using assms by (auto simp: sched_rep_def)
  obtain n where "store s (next_schedule s) = Some n" "n_next n = Some (hd (I @ [sc_tail s]))"
    using chain_last[of "store s" "sc_head s # W" "I @ [sc_tail s]"] inv(1) by (auto simp: sched_inv_def)
  with schedule_loop_ok[OF inv(1), of "length (sc_heap s)" env c] sched_inv_fuel[OF inv(1)] inv(2,3) show ?thesis
    by (simp add: schedule_def)
qed

subsection \<open>Adding\<close>

definition malloc_fresh :: "'d sched_env \<Rightarrow> bool" where
  "malloc_fresh env \<longleftrightarrow> (\<forall>A d p d'. rte_malloc env A d = (Some p, d') \<longrightarrow> p \<notin> set A)"

lemma alloc_fresh:
  assumes "malloc_fresh env" "sn_alloc env s = Inr (p, s')"
  shows "store s p = None \<and> (\<exists>d. s' = s\<lparr>sc_dp := d\<rparr>)"
proof -
  obtain d where d: "rte_malloc env (map fst (sc_heap s)) (sc_dp s) = (Some p, d)" "s' = s\<lparr>sc_dp := d\<rparr>"
    using assms(2) by (auto simp: sn_alloc_def split: option.splits prod.splits)
  have "p \<notin> fst ` set (sc_heap s)" using assms(1) d(1) unfolding malloc_fresh_def by (metis list.set_map)
  with d(2) show ?thesis by (auto simp: map_of_eq_None_iff)
qed

lemma unat_small: "n \<le> 4096 \<Longrightarrow> unat (of_nat n :: 32 word) = n"
  by (simp add: unat_of_nat take_bit_nat_eq_self)

lemma size_full:
  assumes "sched_inv s W I"
  shows "sc_size s = max_sched_buffer_length \<longleftrightarrow> length W + length I = 4096"
proof -
  have "unat (sc_size s) = length W + length I"
    using assms unat_small by (metis sched_inv_def)
  moreover have "unat max_sched_buffer_length = 4096" by (simp add: max_sched_buffer_length_def)
  ultimately show ?thesis by (metis word_unat_eq_iff)
qed

text \<open>The three writes of \<open>add\<close> put a new node between the head and the rest of the chain.\<close>

lemma chain_insert:
  assumes "chain H (h # R)" "distinct (h # R)" "R \<noteq> []" "p \<notin> set (h # R)" "H h = Some hn" "H (hd R) = Some tn"
    and N: "n_next N = Some (hd R)" "n_prev N = Some h"
  shows "chain (H(p \<mapsto> N, h \<mapsto> hn\<lparr>n_next := Some p\<rparr>, hd R \<mapsto> tn\<lparr>n_prev := Some p\<rparr>)) (h # p # R)"
proof -
  let ?H = "H(p \<mapsto> N, h \<mapsto> hn\<lparr>n_next := Some p\<rparr>, hd R \<mapsto> tn\<lparr>n_prev := Some p\<rparr>)"
  have top: "hd R \<in> set R" "h \<noteq> hd R" "p \<noteq> hd R" "p \<noteq> h" using assms(2,3,4) by (cases R; auto)+
  have "chain H R" using assms(1,3) by (cases R) auto
  then have "chain ?H R"
  proof (rule chain_cong)
    fix x n assume "x \<in> set R" "H x = Some n"
    then show "\<exists>n'. ?H x = Some n' \<and> (x \<noteq> last R \<longrightarrow> n_next n' = n_next n) \<and> (x \<noteq> hd R \<longrightarrow> n_prev n' = n_prev n)"
      using assms(2,4,6) by auto
  qed (use assms(2) in simp)
  moreover have "link ?H h p" "link ?H p (hd R)" using top N assms(5) by (simp_all add: link_def)
  ultimately show ?thesis using assms(3) by (cases R) simp_all
qed

lemma add_ok:
  assumes "malloc_fresh env" "sched_inv s W I" "length W + length I < 4096" "sn_alloc env s = Inr (p, s1)"
  shows "\<exists>s'. sched_add env k q m r w s = Inr (0, s') \<and> sched_inv s' (p # W) I
    \<and> op_at s' p = \<lparr>n_to_core = k, n_me_quorum = q, n_m = m, n_rpc = r, n_wal = w, n_next = None, n_prev = None\<rparr>
    \<and> (\<forall>x\<in>set (W @ I). op_at s' x = op_at s x) \<and> sc_marked s' = sc_marked s"
proof -
  note inv = assms(2)[unfolded sched_inv_def]
  define R where "R = W @ I @ [sc_tail s]"
  have R: "R \<noteq> []" "addrs s W I = sc_head s # R" by (simp_all add: R_def)
  obtain d where s1: "s1 = s\<lparr>sc_dp := d\<rparr>" and fresh: "store s p = None" using alloc_fresh[OF assms(1,4)] by auto
  have new: "p \<notin> set (sc_head s # R)" using sched_inv_dom[OF assms(2)] fresh by (auto simp: R_def)
  have ch: "chain (store s) (sc_head s # R)" "distinct (sc_head s # R)" using inv by (simp_all add: R_def)
  obtain hn where hn: "store s (sc_head s) = Some hn" "n_next hn = Some (hd R)" using chain_next[OF ch(1) R(1)] by auto
  have "hd R \<in> dom (store s)" using sched_inv_dom[OF assms(2)] R by (metis hd_in_set in_mono list.set_intros(2))
  then obtain tn where tn: "store s (hd R) = Some tn" by auto
  have ne: "hd R \<noteq> sc_head s" "p \<noteq> hd R" "p \<noteq> sc_head s" using ch(2) new R(1) by (cases R; auto)+
  define N where "N = \<lparr>n_to_core = k, n_me_quorum = q, n_m = m, n_rpc = r, n_wal = w, n_next = Some (hd R), n_prev = Some (sc_head s)\<rparr>"
  define s4 where "s4 = sn_set (hd R) (tn\<lparr>n_prev := Some p\<rparr>) (sn_set (sc_head s) (hn\<lparr>n_next := Some p\<rparr>) (sn_set p N s1))"
  define s' where "s' = (if next_schedule s = sc_head s then s4\<lparr>next_schedule := p\<rparr> else s4)\<lparr>sc_size := sc_size s + 1\<rparr>"
  have H: "store s' = (store s)(p \<mapsto> N, sc_head s \<mapsto> hn\<lparr>n_next := Some p\<rparr>, hd R \<mapsto> tn\<lparr>n_prev := Some p\<rparr>)"
    by (simp add: s'_def s4_def s1)
  have fr: "sc_head s' = sc_head s" "sc_tail s' = sc_tail s" "sc_marked s' = sc_marked s" "sc_size s' = sc_size s + 1"
    "next_schedule s' = (if next_schedule s = sc_head s then p else next_schedule s)"
    by (simp_all add: s'_def s4_def s1)
  have "\<not> sc_size s = max_sched_buffer_length" using size_full[OF assms(2)] assms(3) by simp
  then have "sched_add env k q m r w s = Inr (0, s')"
    using assms(4) hn tn ne by (simp add: sched_add_def s1 Let_def N_def[symmetric] s'_def s4_def)
  moreover have "chain (store s') (sc_head s # p # R)"
    unfolding H by (rule chain_insert[OF ch R(1) new hn(1) tn]) (simp_all add: N_def)
  moreover have "n_next (the (store s' (sc_tail s))) = None"
    using inv ne ch(2) new tn by (auto simp: H R_def)
  moreover have "next_schedule s = sc_head s \<longleftrightarrow> W = []"
  proof (cases "W = []")
    case False
    then have "last W \<noteq> sc_head s" using inv last_in_set[OF False] by (metis Un_iff append.simps(2) distinct.simps(2) set_append)
    then show ?thesis using inv False by simp
  qed (use inv in simp)
  ultimately have "sched_inv s' (p # W) I"
    using inv new assms(3) by (auto simp: sched_inv_def fr R_def)
  moreover have "op_at s' x = op_at s x" if "x \<in> set (W @ I)" for x
    using that new tn ch(2) by (auto simp: H R_def)
  moreover have "op_at s' p = \<lparr>n_to_core = k, n_me_quorum = q, n_m = m, n_rpc = r, n_wal = w, n_next = None, n_prev = None\<rparr>"
    using ne by (simp add: H N_def op_of_def)
  ultimately show ?thesis using \<open>sched_add env k q m r w s = Inr (0, s')\<close> fr(3) by blast
qed

subsection \<open>Collecting\<close>

lemma chain_remove:
  assumes "chain H (fr @ p # R)" "distinct (fr @ p # R)" "fr \<noteq> []" "R \<noteq> []" "H (last fr) = Some an" "H (hd R) = Some qn"
  shows "chain (H(last fr \<mapsto> an\<lparr>n_next := Some (hd R)\<rparr>, hd R \<mapsto> qn\<lparr>n_prev := Some (last fr)\<rparr>, p := None)) (fr @ R)"
proof -
  let ?H = "H(last fr \<mapsto> an\<lparr>n_next := Some (hd R)\<rparr>, hd R \<mapsto> qn\<lparr>n_prev := Some (last fr)\<rparr>, p := None)"
  have mem: "last fr \<in> set fr" "hd R \<in> set R" using assms(3,4) by simp_all
  have ne: "last fr \<noteq> hd R" "last fr \<noteq> p" "hd R \<noteq> p" using mem assms(2) by auto
  have "chain H fr" "chain H R" using assms(1,4) by (auto simp: successively_append_iff successively_Cons)
  have "chain ?H fr"
  proof (rule chain_cong[OF \<open>chain H fr\<close>])
    fix x n assume x: "x \<in> set fr" "H x = Some n"
    then have "x \<noteq> hd R" "x \<noteq> p" using mem assms(2) by auto
    then show "\<exists>n'. ?H x = Some n' \<and> (x \<noteq> last fr \<longrightarrow> n_next n' = n_next n) \<and> (x \<noteq> hd fr \<longrightarrow> n_prev n' = n_prev n)"
      using x assms(5) by auto
  qed (use assms(2) in simp)
  moreover have "chain ?H R"
  proof (rule chain_cong[OF \<open>chain H R\<close>])
    fix x n assume x: "x \<in> set R" "H x = Some n"
    then have "x \<noteq> last fr" "x \<noteq> p" using mem assms(2) by auto
    then show "\<exists>n'. ?H x = Some n' \<and> (x \<noteq> last R \<longrightarrow> n_next n' = n_next n) \<and> (x \<noteq> hd R \<longrightarrow> n_prev n' = n_prev n)"
      using x assms(6) by auto
  qed (use assms(2) in simp)
  moreover have "link ?H (last fr) (hd R)" using ne by (simp add: link_def)
  ultimately show ?thesis by (simp add: successively_append_iff)
qed

text \<open>The state after a collection that starts behind \<open>fr\<close> and keeps \<open>J\<close>.\<close>

definition collected :: "'d scheduler \<Rightarrow> nat list \<Rightarrow> nat list \<Rightarrow> nat list \<Rightarrow> nat \<Rightarrow> 'd scheduler \<Rightarrow> bool" where
  "collected s fr I J t s' \<longleftrightarrow> chain (store s') (fr @ J @ [t]) \<and> n_next (the (store s' t)) = None
     \<and> (\<forall>x\<in>set (fr @ J). op_at s' x = op_at s x) \<and> sc_size s' + of_nat (length I) = sc_size s + of_nat (length J)
     \<and> sc_head s' = sc_head s \<and> sc_tail s' = sc_tail s \<and> next_schedule s' = next_schedule s \<and> sc_marked s' = sc_marked s"

lemma gc_round:
  assumes ch: "chain (store s) (fr @ p # I @ [t])" "distinct (fr @ p # I @ [t])" "fr \<noteq> []" and t: "n_next (the (store s t)) = None"
    and n: "store s p = Some n" "n_next n = Some (hd (I @ [t]))" "n_prev n = Some (last fr)" "sc_marked s (n_wal n)"
  shows "\<exists>s2. gc_loop env (Suc g) p s = gc_loop env g (hd (I @ [t])) s2 \<and> chain (store s2) (fr @ I @ [t]) \<and> n_next (the (store s2 t)) = None
    \<and> (\<forall>x. x \<noteq> p \<longrightarrow> op_at s2 x = op_at s x) \<and> sc_size s2 = sc_size s - 1
    \<and> sc_head s2 = sc_head s \<and> sc_tail s2 = sc_tail s \<and> next_schedule s2 = next_schedule s \<and> sc_marked s2 = sc_marked s"
proof -
  define R where "R = I @ [t]"
  have "R \<noteq> []" by (simp add: R_def)
  then have R: "R \<noteq> []" "hd R \<in> set R" "last fr \<in> set fr" using ch(3) by simp_all
  note ch' = ch(1,2)[folded R_def]
  obtain an where an: "store s (last fr) = Some an" using chain_last[OF ch'(1) ch(3)] by auto
  obtain qn where qn: "store s (hd R) = Some qn" using chain_dom[OF ch'(1)] R(1) by (cases R) auto
  have ne: "last fr \<noteq> hd R" "last fr \<noteq> p" "hd R \<noteq> p" using ch'(2) R by auto
  define s2 where "s2 = (sn_free p (sn_set (hd R) (qn\<lparr>n_prev := Some (last fr)\<rparr>) (sn_set (last fr) (an\<lparr>n_next := Some (hd R)\<rparr>) s)))
      \<lparr>sc_dp := mbuf_free env (n_m n) (sc_dp s), sc_size := sc_size s - 1\<rparr>"
  have H: "store s2 = (store s)(last fr \<mapsto> an\<lparr>n_next := Some (hd R)\<rparr>, hd R \<mapsto> qn\<lparr>n_prev := Some (last fr)\<rparr>, p := None)"
    by (simp add: s2_def)
  have "gc_loop env (Suc g) p s = gc_loop env g (hd R) s2" using n an qn ne by (simp add: R_def s2_def)
  moreover have "chain (store s2) (fr @ R)" unfolding H by (rule chain_remove[OF ch' ch(3) R(1) an qn])
  moreover have "t \<noteq> last fr" "t \<noteq> p" using ch'(2) R(3) by (auto simp: R_def)
  then have "n_next (the (store s2 t)) = None" using t qn by (auto simp: H)
  moreover have "\<forall>x. x \<noteq> p \<longrightarrow> op_at s2 x = op_at s x" using an qn by (simp add: H)
  ultimately show ?thesis unfolding R_def by (intro exI[of _ s2]) (simp add: s2_def)
qed

lemma gc_loop_ok:
  assumes "chain (store s) (fr @ I @ [t])" "distinct (fr @ I @ [t])" "fr \<noteq> []" "n_next (the (store s t)) = None" "length I < f"
  shows "\<exists>s'. gc_loop env f (hd (I @ [t])) s = Inr s'
    \<and> collected s fr I (filter (\<lambda>p. \<not> sc_marked s (n_wal (op_at s p))) I) t s'"
  using assms
proof (induction I arbitrary: fr f s)
  case Nil
  obtain g where f: "f = Suc g" using Nil.prems(5) by (cases f) auto
  obtain n where "store s t = Some n" using chain_prev[of "store s" fr t "[]"] Nil.prems(1,3) by auto
  with Nil.prems show ?case by (simp add: f collected_def)
next
  case (Cons p I)
  obtain g where f: "f = Suc g" "length I < g" using Cons.prems(5) by (cases f) auto
  have ch: "chain (store s) (fr @ p # I @ [t])" "distinct (fr @ p # I @ [t])" using Cons.prems(1,2) by simp_all
  obtain n where n: "store s p = Some n" "n_next n = Some (hd (I @ [t]))" "n_prev n = Some (last fr)"
    using chain_next[OF chain_split(1)[OF ch(1)]] chain_prev[OF ch(1) Cons.prems(3)] by auto
  show ?case
  proof (cases "sc_marked s (n_wal n)")
    case False
    have "chain (store s) ((fr @ [p]) @ I @ [t])" "distinct ((fr @ [p]) @ I @ [t])" "fr @ [p] \<noteq> []" using ch by simp_all
    from Cons.IH[OF this Cons.prems(4) f(2)] obtain s' where
      "gc_loop env g (hd (I @ [t])) s = Inr s'" "collected s (fr @ [p]) I (filter (\<lambda>p. \<not> sc_marked s (n_wal (op_at s p))) I) t s'"
      by blast
    then show ?thesis using n False by (auto simp: f(1) collected_def algebra_simps)
  next
    case True
    obtain s2 where s2: "gc_loop env (Suc g) p s = gc_loop env g (hd (I @ [t])) s2" "chain (store s2) (fr @ I @ [t])" "n_next (the (store s2 t)) = None"
        "\<forall>x. x \<noteq> p \<longrightarrow> op_at s2 x = op_at s x" "sc_size s2 = sc_size s - 1"
        "sc_head s2 = sc_head s" "sc_tail s2 = sc_tail s" "next_schedule s2 = next_schedule s" "sc_marked s2 = sc_marked s"
      using gc_round[OF ch Cons.prems(3,4) n True] by blast
    moreover have "distinct (fr @ I @ [t])" using ch(2) by simp
    ultimately obtain s' where s': "gc_loop env g (hd (I @ [t])) s2 = Inr s'"
        "collected s2 fr I (filter (\<lambda>p. \<not> sc_marked s2 (n_wal (op_at s2 p))) I) t s'"
      using Cons.IH[OF _ _ Cons.prems(3) _ f(2), of s2] by blast
    have "filter (\<lambda>p. \<not> sc_marked s2 (n_wal (op_at s2 p))) I = filter (\<lambda>p. \<not> sc_marked s (n_wal (op_at s p))) I"
    proof (rule filter_cong[OF refl])
      fix x assume "x \<in> set I"
      then have "op_at s2 x = op_at s x" using ch(2) s2(4) by auto
      then show "(\<not> sc_marked s2 (n_wal (op_at s2 x))) = (\<not> sc_marked s (n_wal (op_at s x)))" by (simp only: s2(9))
    qed
    moreover define J where "J = filter (\<lambda>p. \<not> sc_marked s (n_wal (op_at s p))) I"
    ultimately have "collected s2 fr I J t s'" "set J \<subseteq> set I" using s'(2) by auto
    then have "collected s fr (p # I) J t s'"
      using s2(4-9) ch(2) by (auto simp: collected_def algebra_simps)
    then show ?thesis using s'(1) s2(1) n(1) True f(1) by (simp add: J_def)
  qed
qed

lemma gc_ok:
  assumes "sched_rep s ws is"
  shows "\<exists>s'. sched_gc env s = Inr (0, s') \<and> sched_rep s' ws (filter (\<lambda>x. \<not> sc_marked s (n_wal x)) is) \<and> sc_marked s' = sc_marked s"
proof -
  obtain W I where inv: "sched_inv s W I" "ws = rev (map (op_at s) W)" "is = map (op_at s) I"
    using assms by (auto simp: sched_rep_def)
  note i = inv(1)[unfolded sched_inv_def]
  define J where "J = filter (\<lambda>p. \<not> sc_marked s (n_wal (op_at s p))) I"
  obtain n where n: "store s (next_schedule s) = Some n" "n_next n = Some (hd (I @ [sc_tail s]))"
    using chain_last[of "store s" "sc_head s # W" "I @ [sc_tail s]"] i by auto
  obtain s' where s': "gc_loop env (length (sc_heap s)) (hd (I @ [sc_tail s])) s = Inr s'" "collected s (sc_head s # W) I J (sc_tail s) s'"
    using gc_loop_ok[of s "sc_head s # W" I "sc_tail s" "length (sc_heap s)" env] i sched_inv_fuel[OF inv(1)] by (auto simp: J_def)
  have "set J \<subseteq> set I" "distinct J" "length J \<le> length I" using i by (auto simp: J_def)
  then have "sched_inv s' W J"
    using s'(2) i by (auto simp: collected_def sched_inv_def algebra_simps)
  then have "sched_rep s' ws (map (op_at s) J)"
    unfolding sched_rep_def using s'(2) inv(2) by (intro exI[of _ W] exI[of _ J]) (auto simp: collected_def)
  then show ?thesis using s' n inv(3) by (auto simp: sched_gc_def J_def filter_map comp_def collected_def)
qed

subsection \<open>Steps\<close>

text \<open>The monitor thread submits requests, schedules and collects; executor threads finish operations. A mark is only
  cleared for a packet that is not in the list, as it has just been received.\<close>

inductive sched_step :: "'d sched_env \<Rightarrow> (nat \<Rightarrow> nat \<Rightarrow> bool) \<Rightarrow> 'd scheduler \<Rightarrow> 'd scheduler \<Rightarrow> bool" for env c where
  submits: "submit env f k q m r w s = Inr s' \<Longrightarrow> \<not> sc_marked s w \<or> (\<forall>p n. store s p = Some n \<longrightarrow> n_wal n \<noteq> w) \<Longrightarrow> sched_step env c s s'"
| schedules: "schedule env c s = Inr (r, s') \<Longrightarrow> sched_step env c s s'"
| collects: "sched_gc env s = Inr (r, s') \<Longrightarrow> sched_step env c s s'"
| finishes: "sched_step env c s (s\<lparr>sc_marked := (sc_marked s)(w := True)\<rparr>)"

lemma rep_marked [simp]: "sched_rep (s\<lparr>sc_marked := f\<rparr>) = sched_rep s"
  by (simp add: sched_rep_def sched_inv_def fun_eq_iff)

lemma add_loop_ok:
  assumes "malloc_fresh env" "sched_rep s ws is" "add_loop env f k q m r w s = Inr s'"
  shows "sched_rep s' (ws @ [\<lparr>n_to_core = k, n_me_quorum = q, n_m = m, n_rpc = r, n_wal = w, n_next = None, n_prev = None\<rparr>]) is \<and> sc_marked s' = sc_marked s"
proof -
  obtain W I where inv: "sched_inv s W I" "ws = rev (map (op_at s) W)" "is = map (op_at s) I"
    using assms(2) by (auto simp: sched_rep_def)
  have "length W + length I \<noteq> 4096"
  proof
    assume "length W + length I = 4096"
    then have "sched_add env k q m r w s = Inr (SCHED_BUFFER_FULL, s)" using size_full[OF inv(1)] by (simp add: sched_add_def)
    then have "add_loop env f k q m r w s = Inl Out_of_fuel" by (induction f) (simp_all add: SCHED_BUFFER_FULL_def)
    with assms(3) show False by simp
  qed
  then have room: "length W + length I < 4096" using inv(1) by (simp add: sched_inv_def)
  obtain g where f: "f = Suc g" using assms(3) by (cases f) auto
  obtain r0 s0 where s0: "sched_add env k q m r w s = Inr (r0, s0)" using assms(3) by (auto simp: f andthen_Inr_iff)
  obtain p s1 where "sn_alloc env s = Inr (p, s1)"
    using s0 size_full[OF inv(1)] room by (auto simp: sched_add_def andthen_Inr_iff)
  from add_ok[OF assms(1) inv(1) room this, of k q m r w] s0 assms(3) f have
    *: "sched_inv s' (p # W) I" "op_at s' p = \<lparr>n_to_core = k, n_me_quorum = q, n_m = m, n_rpc = r, n_wal = w, n_next = None, n_prev = None\<rparr>"
      "\<forall>x\<in>set (W @ I). op_at s' x = op_at s x" "sc_marked s' = sc_marked s" by auto
  show ?thesis unfolding sched_rep_def using * inv(2,3) by (intro conjI exI[of _ "p # W"] exI[of _ I]) auto
qed

text \<open>A newer and an older operation: the older one is finished or they commute.\<close>

definition apart :: "(nat \<Rightarrow> bool) \<Rightarrow> (nat \<Rightarrow> nat \<Rightarrow> bool) \<Rightarrow> sched_node \<Rightarrow> sched_node \<Rightarrow> bool" where
  "apart done c newer older \<longleftrightarrow> done (n_wal older) \<or> c (n_rpc newer) (n_rpc older)"

lemma schedule_spec_apart:
  "schedule_spec env c f ws is rb d = Inr (r, ws', is', rb', d') \<Longrightarrow> sorted_wrt (apart f c) is \<Longrightarrow> sorted_wrt (apart f c) is'"
  by (induction env c f ws "is" rb d rule: schedule_spec.induct) (auto simp: apart_def Let_def guarded_def split: if_splits prod.splits)

lemma sched_step_ok:
  assumes "malloc_fresh env" "sched_step env c s s'" "\<exists>ws is. sched_rep s ws is \<and> sorted_wrt (apart (sc_marked s) c) is"
  shows "\<exists>ws is. sched_rep s' ws is \<and> sorted_wrt (apart (sc_marked s') c) is"
proof -
  obtain ws "is" where rep: "sched_rep s ws is" "sorted_wrt (apart (sc_marked s) c) is" using assms(3) by blast
  from assms(2) show ?thesis
  proof cases
    case (submits f k q m r w)
    have "sorted_wrt (apart ((sc_marked s)(w := False)) c) is"
    proof (cases "sc_marked s w")
      case True
      have "n_wal x \<noteq> w" if x: "x \<in> set is" for x
      proof -
        obtain W I p where "sched_inv s W I" "p \<in> set I" "x = op_at s p" using rep(1) x by (auto simp: sched_rep_def)
        moreover from this obtain n where "store s p = Some n" using sched_inv_dom by fastforce
        ultimately show ?thesis using submits(2) True by auto
      qed
      then show ?thesis by (intro sorted_wrt_mono_rel[OF _ rep(2)]) (auto simp: apart_def)
    qed (use rep(2) in \<open>simp add: fun_upd_idem\<close>)
    with add_loop_ok[OF assms(1), of "s\<lparr>sc_marked := (sc_marked s)(w := False)\<rparr>" ws "is" f k q m r w s'] submits(1) rep(1) show ?thesis
      by (auto simp: submit_def)
  next
    case (schedules r)
    obtain ws' is' rb d where "schedule_spec env c (sc_marked s) ws is (rb_counter s) (sc_dp s) = Inr (r, ws', is', rb, d)" "sched_rep s' ws' is'" "sc_marked s' = sc_marked s"
      using schedule_ok[OF rep(1), of env c] schedules by (auto simp: implements_def split: sum.splits)
    then show ?thesis using schedule_spec_apart rep(2) by metis
  next
    case (collects r)
    then show ?thesis using gc_ok[OF rep(1), of env] rep(2) by (auto intro: sorted_wrt_filter)
  next
    case (finishes w)
    moreover have "sorted_wrt (apart ((sc_marked s)(w := True)) c) is"
      by (intro sorted_wrt_mono_rel[OF _ rep(2)]) (auto simp: apart_def)
    ultimately show ?thesis using rep(1) by auto
  qed
qed

lemma init_ok:
  assumes "malloc_fresh env" "sched_init env s0 = Inr (r, s)"
  shows "sched_rep s [] []"
proof -
  obtain h s1 t s3 where a: "sn_alloc env s0 = Inr (h, s1)" "sn_alloc env ((sn_set h sentinel s1)\<lparr>sc_head := h\<rparr>) = Inr (t, s3)"
    using assms(2) by (auto simp: sched_init_def andthen_Inr_iff Let_def)
  obtain d1 d2 where d: "s1 = s0\<lparr>sc_dp := d1\<rparr>" "s3 = ((sn_set h sentinel s1)\<lparr>sc_head := h\<rparr>)\<lparr>sc_dp := d2\<rparr>" "h \<noteq> t"
    using alloc_fresh[OF assms(1) a(1)] alloc_fresh[OF assms(1) a(2)] by (auto split: if_splits)
  have "sched_inv s [] []"
    using assms(2) a d by (auto simp: sched_init_def Let_def sched_inv_def link_def sentinel_def)
  then show ?thesis by (auto simp: sched_rep_def)
qed

lemma sched_run_ok:
  assumes "malloc_fresh env" "sched_init env s0 = Inr (r, s1)" "(sched_step env c)\<^sup>*\<^sup>* s1 s"
  shows "\<exists>ws is. sched_rep s ws is \<and> sorted_wrt (apart (sc_marked s) c) is"
  using assms(3)
proof (induction rule: rtranclp_induct)
  case base
  show ?case using init_ok[OF assms(1,2)] by fastforce
next
  case (step y z)
  show ?case by (rule sched_step_ok[OF assms(1) step.hyps(2) step.IH])
qed

end
