(* ===== verification/SchedulerClaims.thy ===== *)
theory SchedulerClaims
  imports SchedulerInv
begin

text \<open>
  Properties of the scheduler of commuting operations over all sequences of its operations, interleaved with
  executor threads that finish operations.
\<close>

subsection \<open>A small run\<close>

text \<open>An allocator that hands out the address after the largest one in use, and rings that remember what was enqueued.\<close>

definition roomy_env :: "(nat \<times> int \<times> nat \<times> nat) list sched_env" where
  "roomy_env = \<lparr>rte_malloc = (\<lambda>A d. (Some (Suc (fold max A 0)), d)), enqueue_bulk = (\<lambda>k x d. (True, d @ [(k, x)])), mbuf_free = (\<lambda>_ d. d)\<rparr>"

definition blank_scheduler :: "(nat \<times> int \<times> nat \<times> nat) list scheduler" where
  "blank_scheduler = \<lparr>sc_heap = [], sc_head = 0, sc_tail = 0, next_schedule = 0, sc_size = 0, rb_counter = 0, sc_marked = (\<lambda>_. False), sc_dp = []\<rparr>"

lemma fold_max_upper: "x \<in> set A \<Longrightarrow> x \<le> fold max A (y :: nat)" "y \<le> fold max A y"
proof (induction A arbitrary: y)
  case (Cons a A)
  {
    case 1
    then show ?case using Cons.IH(1)[of "max a y"] Cons.IH(2)[of "max a y"] by auto
  next
    case 2
    then show ?case using Cons.IH(2)[of "max a y"] by simp
  }
qed simp_all

lemma roomy_fresh: "malloc_fresh roomy_env"
  by (auto simp: malloc_fresh_def roomy_env_def dest: fold_max_upper(1)[of _ _ 0])

text \<open>Two requests that do not commute: only the first one is issued.\<close>

lemma two_requests:
  "runs (sched_init roomy_env blank_scheduler) (\<lambda>(_, s1). \<not> sc_marked s1 1
     \<and> runs (submit roomy_env 1 0 0 5 10 1 s1) (\<lambda>s2. \<not> sc_marked s2 2
     \<and> runs (submit roomy_env 1 0 0 6 11 2 s2) (\<lambda>s3.
         runs (schedule roomy_env (\<lambda>_ _. False) s3) (\<lambda>(r, s). r = NON_COMMUTE \<and> sc_dp s = [(0, 0, 5, 10)]))))"
  by code_simp

lemma two_requests_run:
  "\<exists>s1 s2 s3 s. sched_init roomy_env blank_scheduler = Inr (0, s1) \<and> submit roomy_env 1 0 0 6 11 2 s2 = Inr s3
     \<and> schedule roomy_env (\<lambda>_ _. False) s3 = Inr (NON_COMMUTE, s) \<and> sc_dp s = [(0, 0, 5, 10)]
     \<and> (sched_step roomy_env (\<lambda>_ _. False))\<^sup>*\<^sup>* s1 s2 \<and> (sched_step roomy_env (\<lambda>_ _. False))\<^sup>*\<^sup>* s1 s3"
proof -
  obtain r s1 s2 s3 s where s: "sched_init roomy_env blank_scheduler = Inr (r, s1)" "\<not> sc_marked s1 1" "submit roomy_env 1 0 0 5 10 1 s1 = Inr s2"
      "\<not> sc_marked s2 2" "submit roomy_env 1 0 0 6 11 2 s2 = Inr s3" "schedule roomy_env (\<lambda>_ _. False) s3 = Inr (NON_COMMUTE, s)" "sc_dp s = [(0, 0, 5, 10)]"
    using two_requests by (auto simp: runs_iff)
  have "r = 0" using s(1) by (auto simp: sched_init_def andthen_Inr_iff Let_def)
  have steps: "sched_step roomy_env (\<lambda>_ _. False) s1 s2" "sched_step roomy_env (\<lambda>_ _. False) s2 s3"
    using sched_step.submits s(2-5) by blast+
  then have "(sched_step roomy_env (\<lambda>_ _. False))\<^sup>*\<^sup>* s1 s2" "(sched_step roomy_env (\<lambda>_ _. False))\<^sup>*\<^sup>* s1 s3"
    by (auto intro: rtranclp.rtrancl_into_rtrancl)
  with s \<open>r = 0\<close> show ?thesis by blast
qed

subsection \<open>Properties\<close>



text \<open>C12: the linked list of the scheduler is a queue of waiting operations and a list of issued ones: in every state
  that is reached, \<open>schedule\<close> does not fault and issues from the oldest waiting operation on, round robin over the rings, up to the first that
  does not commute with an unfinished issued one; \<open>gc\<close> drops exactly the finished issued operations; a submission that
  returns has added the request as the newest waiting operation.\<close>

theorem scheduler_refines_queue:
  assumes "malloc_fresh env" "sched_init env s0 = Inr (r, s1)" "(sched_step env c)\<^sup>*\<^sup>* s1 s"
  shows "\<exists>ws is. sched_rep s ws is
    \<and> implements s (schedule env c s) (schedule_spec env c (sc_marked s) ws is (rb_counter s) (sc_dp s))
    \<and> (\<exists>s'. sched_gc env s = Inr (0, s') \<and> sched_rep s' ws (filter (\<lambda>x. \<not> sc_marked s (n_wal x)) is))
    \<and> (\<forall>f k q m rpc w s'. submit env f k q m rpc w s = Inr s' \<longrightarrow>
         sched_rep s' (ws @ [\<lparr>n_to_core = k, n_me_quorum = q, n_m = m, n_rpc = rpc, n_wal = w, n_next = None, n_prev = None\<rparr>]) is)"
proof -
  obtain ws "is" where rep: "sched_rep s ws is" using sched_run_ok[OF assms] by blast
  have "sched_rep s' (ws @ [\<lparr>n_to_core = k, n_me_quorum = q, n_m = m, n_rpc = rpc, n_wal = w, n_next = None, n_prev = None\<rparr>]) is"
    if "submit env f k q m rpc w s = Inr s'" for f k q m rpc w s'
    using add_loop_ok[OF assms(1) _ that[unfolded submit_def], of ws "is"] rep by simp
  then show ?thesis using rep schedule_ok[OF rep, of env c] gc_ok[OF rep, of env] by blast
qed

theorem scheduler_refines_queue_witness:
  "malloc_fresh roomy_env \<and> (\<exists>s s' ws is. submit roomy_env 1 0 0 6 11 2 s = Inr s'
     \<and> sched_rep s' (ws @ [\<lparr>n_to_core = 0, n_me_quorum = 0, n_m = 6, n_rpc = 11, n_wal = 2, n_next = None, n_prev = None\<rparr>]) is)"
proof -
  obtain s1 s2 s3 where s: "sched_init roomy_env blank_scheduler = Inr (0, s1)" "submit roomy_env 1 0 0 6 11 2 s2 = Inr s3"
      "(sched_step roomy_env (\<lambda>_ _. False))\<^sup>*\<^sup>* s1 s2"
    using two_requests_run by blast
  from scheduler_refines_queue[OF roomy_fresh s(1,3)] show ?thesis using s(2) roomy_fresh by blast
qed

subsection \<open>Two flaws\<close>

text \<open>When the buffer is full the caller repeats \<open>add\<close> forever: it is the thread that would have to call \<open>gc\<close>.\<close>

lemma full_submit_spins:
  assumes "sc_size s = max_sched_buffer_length"
  shows "submit env f k q m r w s = Inl Out_of_fuel"
proof -
  have "add_loop env f k q m r w s' = Inl Out_of_fuel" if "sc_size s' = max_sched_buffer_length" for s'
    using that by (induction f) (simp_all add: sched_add_def SCHED_BUFFER_FULL_def)
  then show ?thesis using assms by (simp add: submit_def)
qed

text \<open>\<open>cleanup\<close> frees one node too many, the tail, which the head still points at.\<close>

lemma cleanup_frees_tail:
  "runs (sched_init roomy_env blank_scheduler) (\<lambda>(_, s1). runs (submit roomy_env 1 0 0 5 10 1 s1) (\<lambda>s2.
     runs (cleanup s2) (\<lambda>(_, s3). runs (sn_get s3 (sc_head s3)) (\<lambda>h. n_next h = Some (sc_tail s3))
       \<and> map_of (sc_heap s3) (sc_tail s3) = None)))"
  by code_simp

end
