(* ===== verification/Spec2Isabelle.thy ===== *)
theory Spec2Isabelle
  imports RaftClaims RaftServerClaims RaftScenarios CircularLog BTreeClaims PmemClaims PrioClaims CycloneClaims SchedulerClaims
begin

text \<open>
  \<^bold>\<open>Cyclone: replicated data structures in persistent memory.\<close>

  \<^bold>\<open>The program.\<close> Clients send requests for data structures (B+ tree, priority queue, and others)
  to a quorum of servers. On a server the packets of a request are entries of a Raft log; the Raft library (src/raft)
  decides when an entry is committed, Cyclone (src/core) is the library's host: it sends and receives packets with
  DPDK, keeps a ring of packet pointers in persistent memory in step with the library's log and hands requests to
  executor threads, which call the library of data structures (src/pmemds).

  \<^bold>\<open>Conventions\<close> (Prelude). A C or C++ function that can stop the process returns \<open>'a res\<close>: a fault (failed assertion, exit, null or
  dangling pointer, index out of bounds, undefined behaviour, exception that nothing catches, fuel used up) or a
  value. State is passed explicitly. \<open>sat\<close>, \<open>holds\<close> and \<open>runs\<close> are the partial and total correctness of such a
  computation. Loops that are not structural take fuel, and where a property says that a function returns, it is proved that
  the fuel chosen in the definition is enough: the number of pending entries for the apply loop, the number of peers
  for the round over the peers, the number of live nodes for the loops of the scheduler, the length of the list for a ring walk and a heap.
  Protocol integers are unbounded where the code's arithmetic stays in range; flag words, request words, entry
  terms, counters and priorities keep their width.

  \<^bold>\<open>Raft\<close> (src/raft). RaftTypes: include/raft.h. RaftNode: src/raft_node.c, with the macros as they expand. RaftState:
  include/raft_private.h; peers are addresses in a store. RaftLog: src/raft_log.c, the ring of entries that
  doubles, with the list it represents and, for every operation, what it does to the list; the locale
  \<open>log_callbacks\<close> is the contract of the callbacks of the log. RaftProps: src/raft_server_properties.c. RaftServer: src/raft_server.c, one
  definition per function and per section of the two long handlers. RaftInv: the
  invariant \<open>raft_inv\<close>, the relation \<open>good\<close> between the states before and after a call, the locale \<open>raft_callbacks\<close> in which every
  library call is shown to keep both, and the step relation \<open>raft_step\<close>. RaftMatch: what an accepted
  append-entries message leaves in the log. RaftCommit: when a leader moves its commit index. RaftClaims and
  RaftServerClaims: the properties. RaftScenarios: states of real leaders and followers for which the handlers do
  something the protocol forbids.

  \<^bold>\<open>Packet ring\<close> (src/core/circular_log.h). CircularLog: offer, persist, poll and pop, refinement of a bounded queue (locale
  \<open>packet_store\<close>), and the cache lines that \<open>log_persist\<close> flushes.

  \<^bold>\<open>Cyclone\<close> (src/core/cyclone.cpp, cyclone_context.hpp). Cyclone: the structure \<open>cyclone_st\<close>, the callbacks and the setup of a server, in the default
  build. DPDK is the parameter \<open>dpdk\<close>, about which nothing is assumed. CycloneInv: the callbacks fulfil
  \<open>raft_callbacks\<close>, and the ring mirrors the library's log. CycloneRx: the handler of incoming packets, the
  compaction of responses and one burst of the monitor loop. CycloneClaims: the promises of Raft for the
  composition of monitor, library and callbacks.

  \<^bold>\<open>Scheduler\<close> (src/core/scheduler.hpp, with \<open>__COMMUTE\<close>). Scheduler: the doubly linked list of operations on a store of nodes. SchedulerInv: the chain
  of nodes as two lists, kept by every operation. SchedulerClaims: operations in execution commute, and the
  operations are those of a queue. It is assumed that the allocator returns an address that is not in use
  (\<open>malloc_fresh\<close>).

  \<^bold>\<open>B+ tree\<close> (src/pmemds/include/tree/btree/persistent_b_tree.h). BTreeLeaf, BTree: leaf and inner nodes with their two versions, the tree on a store of nodes, search,
  insertion, removal, iteration and recovery. BTreeShape, BTreeInv: the shape that a store represents, sorted and linked. BTreeOps, BTreeSplit, BTreeInsert, BTreeMap: every
  operation runs on a well-formed tree and acts on the finite map it represents. BTreeClaims: sequences
  of operations (locale \<open>map_store\<close>), and two flaws.

  \<^bold>\<open>Data-structure library\<close> (src/pmemds). PmemRpc: the request word and buffers of pmemds-common.h. PmemEngine: src/tree/btree.cc. PmemLib: src/pmemds.cc and
  src/tree/btree-client.cc, with the engines over containers of libpmemobj as a parameter; locale \<open>kv_store\<close>. PmemClaims: a client reads what it
  wrote, through all of these layers.

  \<^bold>\<open>Priority queue\<close> (src/pmemds/include/priority_queue/volatile_priority_queue.hpp). PrioQueue: the two heaps, the map of positions and every operation. PrioOps: their effect
  on the heaps as lists and on the map from keys to priorities. PrioOrder: sequences (locale
  \<open>prio_store\<close>) and the order of the heaps. PrioClaims: \<open>read_topK\<close> is right for 2 to 8 partitions and growing
  priorities, and wrong otherwise.

  \<^bold>\<open>What the properties do not say.\<close> The Raft properties are those of one server and of the messages it handles; agreement between servers
  is not claimed, and RaftScenarios shows messages for which it does not hold. The sequential models take one thread at a time,
  except that the flags of finished operations in the scheduler change between any two calls.

  \<^bold>\<open>Not modelled.\<close> In cyclone_context.hpp the acceptance of client requests, the snapshots and the kicker packet, which read the state of other quorums'
  threads without a lock; in cyclone.cpp the mapping of the state file and the creation of threads. The persistent priority queue, the hash maps and the
  adjacency vector, which are containers and transactions of libpmemobj. The dispatcher and the
  network client: threads, timers and DPDK start-up. flash_log.cpp, which the build leaves out. Locks, tracing, logging, benchmarks and tests.
\<close>

end
